theory Spec2Isabelle
  imports Main "HOL-Library.Word" "HOL-Library.Sublist"
begin

unbundle bit_operations_syntax

section \<open>The object model of \<^verbatim>\<open>gc_sections.cc\<close>\<close>

text \<open>
  The collector works on objects that the linker owns and reaches through pointers.
  A pointer is an index into the array of all objects of its kind (\<open>isecs\<close>, \<open>frags\<close>,
  \<open>files\<close> of the heap below), a nullable pointer is an \<open>option\<close>, and a pointer beyond
  the end of its array is dangling. Symbols and the unwind records are only read by the
  collector, so they are held by value.
\<close>

type_synonym isec_ptr = nat
type_synonym frag_ptr = nat
type_synonym file_ptr = nat

record ElfShdr =
  sh_type :: "32 word"
  sh_flags :: "64 word"

record Symbol =
  sym_file :: "file_ptr option"
  input_section :: "isec_ptr option"
  frag :: "frag_ptr option"
  is_exported :: bool

record EhReloc =
  sym :: Symbol

record CieRecord =
  cie_rels :: "EhReloc list"

record FdeRecord =
  fde_rels :: "EhReloc list"

record ElfRela =
  r_sym :: nat

record SectionFragmentRef =
  ref_frag :: frag_ptr

record SectionFragment =
  output_section_shdr :: ElfShdr
  frag_is_alive :: bool

record InputSection =
  isec_file :: file_ptr
  shdr :: ElfShdr
  name :: string
  rels :: "ElfRela list"
  rel_fragments :: "SectionFragmentRef list"
  fdes :: "FdeRecord list"
  is_alive :: bool
  is_visited :: bool

record ObjectFile =
  sections :: "isec_ptr option list"
  symbols :: "Symbol list"
  fragments :: "frag_ptr list"
  cies :: "CieRecord list"

text \<open>
  One line of the synchronized diagnostic stream: \<^verbatim>\<open>"removing unused section " << *isec\<close>.
\<close>

datatype diag = RemovingUnusedSection isec_ptr

text \<open>
  The memory the collector reads and writes: the three object arrays, the static counter
  \<^verbatim>\<open>garbage_sections\<close> of \<^verbatim>\<open>sweep\<close> and the lines written to \<^verbatim>\<open>SyncOut\<close>.
\<close>

record heap =
  isecs :: "InputSection list"
  frags :: "SectionFragment list"
  files :: "ObjectFile list"
  counter :: nat
  out :: "diag list"

text \<open>
  The fields of \<^verbatim>\<open>Context\<close> that the collector uses. Modelled from the spec: the global
  symbol table behind \<^verbatim>\<open>Symbol::intern\<close> (mold.h is not part of the sources at hand) is
  the map \<open>symbol_table\<close>.
\<close>

record Context =
  objs :: "file_ptr list"
  arg_entry :: string
  arg_undefined :: "string list"
  arg_print_gc_sections :: bool
  symbol_table :: "string \<Rightarrow> Symbol option"

text \<open>
  The ELF constants come from \<^verbatim>\<open>elf.h\<close>, which is not part of the sources at hand; they
  have the values of the ELF specification. No proof below unfolds them.
\<close>

definition SHF_ALLOC :: "64 word" where
  "SHF_ALLOC = 2"

definition SHT_NOTE :: "32 word" where
  "SHT_NOTE = 7"

definition SHT_INIT_ARRAY :: "32 word" where
  "SHT_INIT_ARRAY = 14"

definition SHT_FINI_ARRAY :: "32 word" where
  "SHT_FINI_ARRAY = 15"

definition SHT_PREINIT_ARRAY :: "32 word" where
  "SHT_PREINIT_ARRAY = 16"

section \<open>Memory access and loops\<close>

text \<open>
  Reading through a pointer. A dangling pointer and an index beyond the end of a vector
  are undefined behaviour in the source; the model stops with \<open>None\<close> there, and so does
  every function that runs into it.
\<close>

definition deref :: "'a list \<Rightarrow> nat \<Rightarrow> 'a option" where
  "deref mem p = (if p < length mem then Some (mem ! p) else None)"

text \<open>
  A range-based \<^verbatim>\<open>for\<close> loop whose body may stop the program. The \<^verbatim>\<open>tbb\<close> loops
  \<^verbatim>\<open>parallel_for_each\<close> are modelled by the same combinator: the schedule in which one
  worker takes the elements in order.
\<close>

fun for_each :: "'a list \<Rightarrow> ('a \<Rightarrow> 's \<Rightarrow> 's option) \<Rightarrow> 's \<Rightarrow> 's option" where
  "for_each [] body s = Some s"
| "for_each (x # xs) body s =
     (case body x s of None \<Rightarrow> None | Some s' \<Rightarrow> for_each xs body s')"

lemma for_each_cong [fundef_cong]:
  assumes "xs = ys" and "s = t"
    and "\<And>x u. x \<in> set ys \<Longrightarrow> f x u = g x u"
  shows "for_each xs f s = for_each ys g t"
  unfolding assms(1,2) using assms(3)
  by (induction ys arbitrary: t) (auto split: option.splits)

section \<open>The collector\<close>

subsection \<open>\<^verbatim>\<open>is_init_fini\<close> and \<^verbatim>\<open>mark_section\<close>\<close>

definition is_init_fini :: "InputSection \<Rightarrow> bool" where
  "is_init_fini isec \<longleftrightarrow>
     sh_type (shdr isec) = SHT_INIT_ARRAY \<or>
     sh_type (shdr isec) = SHT_FINI_ARRAY \<or>
     sh_type (shdr isec) = SHT_PREINIT_ARRAY \<or>
     prefix ''.ctors'' (name isec) \<or>
     prefix ''.dtors'' (name isec) \<or>
     prefix ''.init'' (name isec) \<or>
     prefix ''.fini'' (name isec)"

text \<open>\<^verbatim>\<open>isec->is_visited = true\<close> and \<^verbatim>\<open>isec->is_visited.exchange(true)\<close> write the flag.\<close>

definition set_is_visited :: "isec_ptr \<Rightarrow> heap \<Rightarrow> heap" where
  "set_is_visited p h = h\<lparr>isecs := (isecs h)[p := (isecs h ! p)\<lparr>is_visited := True\<rparr>]\<rparr>"

text \<open>\<^verbatim>\<open>frag->is_alive = true\<close>.\<close>

definition set_frag_alive :: "frag_ptr \<Rightarrow> heap \<Rightarrow> heap option" where
  "set_frag_alive f h =
     (if f < length (frags h)
      then Some (h\<lparr>frags := (frags h)[f := (frags h ! f)\<lparr>frag_is_alive := True\<rparr>]\<rparr>)
      else None)"

text \<open>
  \<^verbatim>\<open>return isec && isec->is_alive && !isec->is_visited.exchange(true);\<close>
  The conjunction is evaluated left to right: the exchange runs only for a non-null
  pointer to a section that is alive. The result is the returned flag and the new heap.
\<close>

definition mark_section :: "isec_ptr option \<Rightarrow> heap \<Rightarrow> (bool \<times> heap) option" where
  "mark_section isec h =
     (case isec of
        None \<Rightarrow> Some (False, h)
      | Some p \<Rightarrow>
          (case deref (isecs h) p of
             None \<Rightarrow> None
           | Some s \<Rightarrow>
               if is_alive s then Some (\<not> is_visited s, set_is_visited p h)
               else Some (False, h)))"

subsection \<open>\<^verbatim>\<open>visit\<close>\<close>

text \<open>The first loop of \<^verbatim>\<open>visit\<close>: every fragment reference of the section.\<close>

definition visit_rel_fragments :: "SectionFragmentRef list \<Rightarrow> heap \<Rightarrow> heap option" where
  "visit_rel_fragments refs h = for_each refs (\<lambda>ref h. set_frag_alive (ref_frag ref) h) h"

text \<open>
  The second loop of \<^verbatim>\<open>visit\<close>: for every FDE, the relocations
  \<^verbatim>\<open>std::span<EhReloc<E>>(fde.rels).subspan(1)\<close>. \<^verbatim>\<open>subspan(1)\<close> of an empty span is undefined.
  The state is the heap and the elements handed to the feeder so far.
\<close>

definition visit_fde_rel :: "EhReloc \<Rightarrow> heap \<times> isec_ptr list \<Rightarrow> (heap \<times> isec_ptr list) option" where
  "visit_fde_rel rel = (\<lambda>(h, feeder).
     case input_section (sym rel) of
       None \<Rightarrow> Some (h, feeder)
     | Some isec \<Rightarrow>
         (case mark_section (Some isec) h of
            None \<Rightarrow> None
          | Some (accepted, h') \<Rightarrow> Some (h', if accepted then feeder @ [isec] else feeder)))"

definition visit_fdes :: "FdeRecord list \<Rightarrow> heap \<times> isec_ptr list \<Rightarrow> (heap \<times> isec_ptr list) option" where
  "visit_fdes fs st =
     for_each fs (\<lambda>fde st.
       case fde_rels fde of
         [] \<Rightarrow> None
       | rel0 # rest \<Rightarrow> for_each rest visit_fde_rel st) st"

text \<open>
  \<^verbatim>\<open>visit(isec, feeder, depth)\<close>. The first argument \<open>lim\<close> stands for the constant of the test
  \<^verbatim>\<open>depth < 3\<close>; the source's function is \<open>visit 3\<close> (see \<open>mark\<close> below). The assertion
  \<^verbatim>\<open>assert(isec->is_visited)\<close> stops the program when it fails.
\<close>

function visit :: "nat \<Rightarrow> isec_ptr \<Rightarrow> nat \<Rightarrow> heap \<times> isec_ptr list \<Rightarrow> (heap \<times> isec_ptr list) option" where
  "visit lim isec depth (h, feeder) =
     (case deref (isecs h) isec of
        None \<Rightarrow> None
      | Some s \<Rightarrow>
          if \<not> is_visited s then None
          else
            (case visit_rel_fragments (rel_fragments s) h of
               None \<Rightarrow> None
             | Some h1 \<Rightarrow>
                 (case visit_fdes (fdes s) (h1, feeder) of
                    None \<Rightarrow> None
                  | Some st2 \<Rightarrow>
                      for_each (rels s) (\<lambda>rel (h, feeder).
                        case deref (files h) (isec_file s) of
                          None \<Rightarrow> None
                        | Some f \<Rightarrow>
                            (case deref (symbols f) (r_sym rel) of
                               None \<Rightarrow> None
                             | Some sy \<Rightarrow>
                                 (case frag sy of
                                    Some fr \<Rightarrow>
                                      (case set_frag_alive fr h of
                                         None \<Rightarrow> None
                                       | Some h' \<Rightarrow> Some (h', feeder))
                                  | None \<Rightarrow>
                                      (case mark_section (input_section sy) h of
                                         None \<Rightarrow> None
                                       | Some (accepted, h') \<Rightarrow>
                                           (case input_section sy of
                                              None \<Rightarrow> Some (h', feeder)
                                            | Some t \<Rightarrow>
                                                if \<not> accepted then Some (h', feeder)
                                                else if depth < lim
                                                  then visit lim t (depth + 1) (h', feeder)
                                                else Some (h', feeder @ [t])))))) st2)))"
  by pat_completeness auto
termination
  by (relation "measure (\<lambda>(lim, isec, depth, st). lim - depth)") auto

declare visit.simps [simp del]

section \<open>Views of the heap\<close>

text \<open>
  The sets of sections with \<^verbatim>\<open>is_visited\<close> and \<^verbatim>\<open>is_alive\<close> set, the set of fragments with
  \<^verbatim>\<open>is_alive\<close> set, and the relation between two heaps that differ in these flags only.
\<close>

definition visited :: "heap \<Rightarrow> isec_ptr set" where
  "visited h = {p. p < length (isecs h) \<and> is_visited (isecs h ! p)}"

definition alive :: "heap \<Rightarrow> isec_ptr set" where
  "alive h = {p. p < length (isecs h) \<and> is_alive (isecs h ! p)}"

definition alive_frags :: "heap \<Rightarrow> frag_ptr set" where
  "alive_frags h = {f. f < length (frags h) \<and> frag_is_alive (frags h ! f)}"

definition same_graph :: "heap \<Rightarrow> heap \<Rightarrow> bool" where
  "same_graph h h' \<longleftrightarrow>
     files h' = files h \<and>
     map (\<lambda>s. s\<lparr>is_alive := False, is_visited := False\<rparr>) (isecs h') =
       map (\<lambda>s. s\<lparr>is_alive := False, is_visited := False\<rparr>) (isecs h) \<and>
     map (\<lambda>f. f\<lparr>frag_is_alive := False\<rparr>) (frags h') =
       map (\<lambda>f. f\<lparr>frag_is_alive := False\<rparr>) (frags h)"

lemma same_graph_refl [simp]: "same_graph h h"
  by (simp add: same_graph_def)

lemma same_graph_trans: "same_graph h1 h2 \<Longrightarrow> same_graph h2 h3 \<Longrightarrow> same_graph h1 h3"
  by (simp add: same_graph_def)

lemma same_graph_sym: "same_graph h1 h2 \<Longrightarrow> same_graph h2 h1"
  by (simp add: same_graph_def)

lemma same_graph_length:
  assumes "same_graph h h'"
  shows "length (isecs h') = length (isecs h)" and "length (frags h') = length (frags h)"
    and "files h' = files h"
  using assms unfolding same_graph_def by (metis length_map)+

lemma same_graph_isec:
  assumes "same_graph h h'" and "p < length (isecs h)"
  shows "isec_file (isecs h' ! p) = isec_file (isecs h ! p)"
    and "shdr (isecs h' ! p) = shdr (isecs h ! p)"
    and "name (isecs h' ! p) = name (isecs h ! p)"
    and "rels (isecs h' ! p) = rels (isecs h ! p)"
    and "rel_fragments (isecs h' ! p) = rel_fragments (isecs h ! p)"
    and "fdes (isecs h' ! p) = fdes (isecs h ! p)"
proof -
  let ?f = "\<lambda>s::InputSection. s\<lparr>is_alive := False, is_visited := False\<rparr>"
  have len: "p < length (isecs h')"
    using assms same_graph_length(1) by simp
  have "map ?f (isecs h') ! p = map ?f (isecs h) ! p"
    using assms(1) by (simp add: same_graph_def)
  then have eq: "?f (isecs h' ! p) = ?f (isecs h ! p)"
    using len assms(2) by simp
  show "isec_file (isecs h' ! p) = isec_file (isecs h ! p)"
    using arg_cong [OF eq, of isec_file] by simp
  show "shdr (isecs h' ! p) = shdr (isecs h ! p)"
    using arg_cong [OF eq, of shdr] by simp
  show "name (isecs h' ! p) = name (isecs h ! p)"
    using arg_cong [OF eq, of name] by simp
  show "rels (isecs h' ! p) = rels (isecs h ! p)"
    using arg_cong [OF eq, of rels] by simp
  show "rel_fragments (isecs h' ! p) = rel_fragments (isecs h ! p)"
    using arg_cong [OF eq, of rel_fragments] by simp
  show "fdes (isecs h' ! p) = fdes (isecs h ! p)"
    using arg_cong [OF eq, of fdes] by simp
qed

lemma same_graph_frag:
  assumes "same_graph h h'" and "f < length (frags h)"
  shows "output_section_shdr (frags h' ! f) = output_section_shdr (frags h ! f)"
proof -
  let ?f = "\<lambda>s::SectionFragment. s\<lparr>frag_is_alive := False\<rparr>"
  have len: "f < length (frags h')"
    using assms same_graph_length(2) by simp
  have "map ?f (frags h') ! f = map ?f (frags h) ! f"
    using assms(1) by (simp add: same_graph_def)
  then have eq: "?f (frags h' ! f) = ?f (frags h ! f)"
    using len assms(2) by simp
  show ?thesis
    using arg_cong [OF eq, of output_section_shdr] by simp
qed

lemma heap_eqI:
  assumes "same_graph h h'" and "visited h' = visited h" and "alive h' = alive h"
    and "alive_frags h' = alive_frags h" and "counter h' = counter h" and "out h' = out h"
  shows "h' = h"
proof -
  have li: "length (isecs h') = length (isecs h)" and lf: "length (frags h') = length (frags h)"
    using same_graph_length [OF assms(1)] by simp_all
  have "isecs h' ! p = isecs h ! p" if p: "p < length (isecs h)" for p
  proof -
    have v: "is_visited (isecs h' ! p) = is_visited (isecs h ! p)"
      using assms(2) p li by (auto simp: visited_def)
    have a: "is_alive (isecs h' ! p) = is_alive (isecs h ! p)"
      using assms(3) p li by (auto simp: alive_def)
    show ?thesis
      using same_graph_isec [OF assms(1) p] v a by (intro InputSection.equality) simp_all
  qed
  then have i: "isecs h' = isecs h"
    using li by (intro nth_equalityI) simp_all
  have "frags h' ! f = frags h ! f" if f: "f < length (frags h)" for f
  proof -
    have a: "frag_is_alive (frags h' ! f) = frag_is_alive (frags h ! f)"
      using assms(4) f lf by (auto simp: alive_frags_def)
    show ?thesis
      using same_graph_frag [OF assms(1) f] a by (intro SectionFragment.equality) simp_all
  qed
  then have f: "frags h' = frags h"
    using lf by (intro nth_equalityI) simp_all
  show ?thesis
    using i f assms(5,6) same_graph_length(3) [OF assms(1)] by (intro heap.equality) simp_all
qed

section \<open>Rules for loops and the effect of the primitive writes\<close>

lemma for_each_inv:
  assumes "for_each xs f s = Some s'" and "I s"
    and "\<And>x u u'. x \<in> set xs \<Longrightarrow> I u \<Longrightarrow> f x u = Some u' \<Longrightarrow> I u'"
  shows "I s'"
  using assms
proof (induction xs arbitrary: s)
  case Nil
  then show ?case by simp
next
  case (Cons x xs)
  from Cons.prems(1) obtain u where u: "f x s = Some u" and rest: "for_each xs f u = Some s'"
    by (auto split: option.splits)
  have "I u" using Cons.prems(3) [of x s u] Cons.prems(2) u by simp
  then show ?case
    by (rule Cons.IH [OF rest]) (rule Cons.prems(3), simp_all)
qed

lemma for_each_rel:
  assumes "for_each xs f s = Some s'"
    and "\<And>u. R u u" and "\<And>u v w. R u v \<Longrightarrow> R v w \<Longrightarrow> R u w"
    and "\<And>x u u'. x \<in> set xs \<Longrightarrow> f x u = Some u' \<Longrightarrow> R u u'"
  shows "R s s'"
  using for_each_inv [where I = "R s", OF assms(1) assms(2)] assms(3,4) by blast

lemma for_each_all:
  assumes "for_each xs f s = Some s'"
    and "\<And>x u u'. x \<in> set xs \<Longrightarrow> f x u = Some u' \<Longrightarrow> Q x u'"
    and "\<And>x y u u'. x \<in> set xs \<Longrightarrow> y \<in> set xs \<Longrightarrow> Q x u \<Longrightarrow> f y u = Some u' \<Longrightarrow> Q x u'"
  shows "\<forall>x\<in>set xs. Q x s'"
  using assms
proof (induction xs arbitrary: s)
  case Nil
  then show ?case by simp
next
  case (Cons x xs)
  from Cons.prems(1) obtain u where u: "f x s = Some u" and rest: "for_each xs f u = Some s'"
    by (auto split: option.splits)
  have "Q x u" using Cons.prems(2) [of x s u] u by simp
  then have "Q x s'"
    by (rule for_each_inv [where I = "Q x", OF rest]) (rule Cons.prems(3) [of x], simp_all)
  moreover have "\<forall>y\<in>set xs. Q y s'"
  proof (rule Cons.IH [OF rest])
    show "\<And>y u u'. y \<in> set xs \<Longrightarrow> f y u = Some u' \<Longrightarrow> Q y u'"
      by (rule Cons.prems(2)) simp_all
    show "\<And>z y u u'. z \<in> set xs \<Longrightarrow> y \<in> set xs \<Longrightarrow> Q z u \<Longrightarrow> f y u = Some u' \<Longrightarrow> Q z u'"
      by (rule Cons.prems(3)) simp_all
  qed
  ultimately show ?case by simp
qed

lemma map_update_same:
  "p < length xs \<Longrightarrow> f v = f (xs ! p) \<Longrightarrow> map f (xs[p := v]) = map f xs"
  by (simp add: map_update list_update_same_conv)

lemma set_is_visited_id:
  "p \<in> visited h \<or> \<not> p < length (isecs h) \<Longrightarrow> set_is_visited p h = h"
proof -
  assume a: "p \<in> visited h \<or> \<not> p < length (isecs h)"
  have "(isecs h)[p := (isecs h ! p)\<lparr>is_visited := True\<rparr>] = isecs h"
  proof (cases "p < length (isecs h)")
    case True
    then have "is_visited (isecs h ! p)" using a by (simp add: visited_def)
    then have "(isecs h ! p)\<lparr>is_visited := True\<rparr> = isecs h ! p" by simp
    then show ?thesis by simp
  next
    case False
    then show ?thesis by (simp add: list_update_beyond not_less)
  qed
  then show ?thesis by (simp add: set_is_visited_def)
qed

lemma set_is_visited_effect:
  assumes "p < length (isecs h)"
  shows "same_graph h (set_is_visited p h)"
    and "visited (set_is_visited p h) = insert p (visited h)"
    and "alive (set_is_visited p h) = alive h"
    and "frags (set_is_visited p h) = frags h"
    and "counter (set_is_visited p h) = counter h"
    and "out (set_is_visited p h) = out h"
proof -
  show "same_graph h (set_is_visited p h)"
    using assms by (simp add: same_graph_def set_is_visited_def map_update_same)
  show "visited (set_is_visited p h) = insert p (visited h)"
    using assms by (auto simp: visited_def set_is_visited_def nth_list_update)
  show "alive (set_is_visited p h) = alive h"
    using assms by (auto simp: alive_def set_is_visited_def nth_list_update)
qed (simp_all add: set_is_visited_def)

lemma alive_frags_cong: "frags h' = frags h \<Longrightarrow> alive_frags h' = alive_frags h"
  by (simp add: alive_frags_def)

lemma set_frag_alive_effect:
  assumes "set_frag_alive f h = Some h'"
  shows "f < length (frags h)" and "same_graph h h'"
    and "alive_frags h' = insert f (alive_frags h)"
    and "isecs h' = isecs h" and "counter h' = counter h" and "out h' = out h"
proof -
  show f: "f < length (frags h)"
    using assms by (simp add: set_frag_alive_def split: if_splits)
  have h': "h' = h\<lparr>frags := (frags h)[f := (frags h ! f)\<lparr>frag_is_alive := True\<rparr>]\<rparr>"
    using assms by (simp add: set_frag_alive_def split: if_splits)
  show "same_graph h h'"
    using f by (simp add: h' same_graph_def map_update_same)
  show "alive_frags h' = insert f (alive_frags h)"
    using f by (auto simp: h' alive_frags_def nth_list_update)
  show "isecs h' = isecs h" and "counter h' = counter h" and "out h' = out h"
    by (simp_all add: h')
qed

lemma visited_cong: "isecs h' = isecs h \<Longrightarrow> visited h' = visited h"
  by (simp add: visited_def)

lemma alive_cong: "isecs h' = isecs h \<Longrightarrow> alive h' = alive h"
  by (simp add: alive_def)

lemma mark_section_effect:
  assumes "mark_section isec h = Some (accepted, h')"
  shows "accepted \<longleftrightarrow> (\<exists>p. isec = Some p \<and> p \<in> alive h \<and> p \<notin> visited h)"
    and "visited h' = visited h \<union> {p. isec = Some p \<and> p \<in> alive h}"
    and "same_graph h h'" and "alive h' = alive h" and "frags h' = frags h"
    and "counter h' = counter h" and "out h' = out h"
    and "\<forall>p. isec = Some p \<longrightarrow> p < length (isecs h)"
proof -
  show "\<forall>p. isec = Some p \<longrightarrow> p < length (isecs h)"
    using assms by (auto simp: mark_section_def deref_def split: option.splits if_splits)
  consider (null) "isec = None" "h' = h" "\<not> accepted"
    | (dead) p where "isec = Some p" "p < length (isecs h)" "p \<notin> alive h" "h' = h" "\<not> accepted"
    | (live) p where "isec = Some p" "p < length (isecs h)" "p \<in> alive h"
        "h' = set_is_visited p h" "accepted \<longleftrightarrow> p \<notin> visited h"
    using assms
    by (auto simp: mark_section_def deref_def alive_def visited_def split: option.splits if_splits)
  note cases = this
  show "accepted \<longleftrightarrow> (\<exists>p. isec = Some p \<and> p \<in> alive h \<and> p \<notin> visited h)"
    by (cases rule: cases) auto
  show "visited h' = visited h \<union> {p. isec = Some p \<and> p \<in> alive h}"
    by (cases rule: cases) (auto simp: set_is_visited_effect)
  show "same_graph h h'"
    by (cases rule: cases) (auto simp: set_is_visited_effect)
  show "alive h' = alive h"
    by (cases rule: cases) (auto simp: set_is_visited_effect)
  show "frags h' = frags h"
    by (cases rule: cases) (auto simp: set_is_visited_effect)
  show "counter h' = counter h"
    by (cases rule: cases) (auto simp: set_is_visited_effect)
  show "out h' = out h"
    by (cases rule: cases) (auto simp: set_is_visited_effect)
qed

section \<open>What one call of \<^verbatim>\<open>visit\<close> may change\<close>

text \<open>
  The marker only sets flags: \<open>heap_ext\<close> relates a heap to a later heap of the mark
  phase, \<open>mark_ext\<close> adds that the feeder only grows, by distinct sections that were
  accepted in between.
\<close>

definition heap_ext :: "heap \<Rightarrow> heap \<Rightarrow> bool" where
  "heap_ext h h' \<longleftrightarrow>
     same_graph h h' \<and> alive h' = alive h \<and> counter h' = counter h \<and> out h' = out h \<and>
     visited h \<subseteq> visited h' \<and> visited h' \<subseteq> visited h \<union> alive h \<and>
     alive_frags h \<subseteq> alive_frags h'"

definition mark_ext :: "heap \<times> isec_ptr list \<Rightarrow> heap \<times> isec_ptr list \<Rightarrow> bool" where
  "mark_ext st st' \<longleftrightarrow>
     heap_ext (fst st) (fst st') \<and>
     (\<exists>new. snd st' = snd st @ new \<and> distinct new \<and>
        set new \<subseteq> visited (fst st') - visited (fst st))"

lemma heap_ext_refl [simp]: "heap_ext h h"
  by (simp add: heap_ext_def)

lemma heap_ext_trans:
  assumes "heap_ext h1 h2" and "heap_ext h2 h3"
  shows "heap_ext h1 h3"
proof -
  have "same_graph h1 h3"
    using assms same_graph_trans unfolding heap_ext_def by blast
  moreover have "alive h3 = alive h1" "counter h3 = counter h1" "out h3 = out h1"
    using assms unfolding heap_ext_def by simp_all
  moreover have "visited h1 \<subseteq> visited h3"
    using assms unfolding heap_ext_def by blast
  moreover have "visited h3 \<subseteq> visited h1 \<union> alive h1"
    using assms unfolding heap_ext_def by blast
  moreover have "alive_frags h1 \<subseteq> alive_frags h3"
    using assms unfolding heap_ext_def by blast
  ultimately show ?thesis unfolding heap_ext_def by simp
qed

lemma mark_ext_refl [simp]: "mark_ext st st"
  by (simp add: mark_ext_def)

lemma mark_ext_trans:
  assumes "mark_ext s1 s2" and "mark_ext s2 s3"
  shows "mark_ext s1 s3"
proof -
  from assms(1) obtain n1 where n1: "snd s2 = snd s1 @ n1" "distinct n1"
      "set n1 \<subseteq> visited (fst s2) - visited (fst s1)" and e1: "heap_ext (fst s1) (fst s2)"
    by (auto simp: mark_ext_def)
  from assms(2) obtain n2 where n2: "snd s3 = snd s2 @ n2" "distinct n2"
      "set n2 \<subseteq> visited (fst s3) - visited (fst s2)" and e2: "heap_ext (fst s2) (fst s3)"
    by (auto simp: mark_ext_def)
  have v12: "visited (fst s1) \<subseteq> visited (fst s2)" and v23: "visited (fst s2) \<subseteq> visited (fst s3)"
    using e1 e2 by (auto simp: heap_ext_def)
  have "snd s3 = snd s1 @ (n1 @ n2)" using n1 n2 by simp
  moreover have "distinct (n1 @ n2)" using n1 n2 by auto
  moreover have "set (n1 @ n2) \<subseteq> visited (fst s3) - visited (fst s1)"
    using n1 n2 v12 v23 by auto
  ultimately show ?thesis
    unfolding mark_ext_def using heap_ext_trans [OF e1 e2] by blast
qed

lemma mark_ext_heap: "heap_ext h h' \<Longrightarrow> mark_ext (h, fd) (h', fd)"
  by (simp add: mark_ext_def)

lemma set_frag_alive_ext:
  assumes "set_frag_alive f h = Some h'"
  shows "heap_ext h h'"
proof -
  note e = set_frag_alive_effect [OF assms]
  have "visited h' = visited h" "alive h' = alive h"
    using e(4) by (rule visited_cong, rule alive_cong)
  then show ?thesis
    unfolding heap_ext_def using e(2,3,5,6) by auto
qed

lemma mark_section_ext:
  assumes "mark_section isec h = Some (accepted, h')"
  shows "heap_ext h h'"
proof -
  note e = mark_section_effect [OF assms]
  have "alive_frags h' = alive_frags h"
    using e(5) by (rule alive_frags_cong)
  moreover have "visited h \<subseteq> visited h'" "visited h' \<subseteq> visited h \<union> alive h"
    unfolding e(2) by auto
  ultimately show ?thesis
    unfolding heap_ext_def using e(3,4,6,7) by simp
qed

lemma mark_section_feed_ext:
  assumes "mark_section (Some t) h = Some (accepted, h')"
  shows "mark_ext (h, fd) (h', if accepted then fd @ [t] else fd)"
proof -
  note e = mark_section_effect(1,2) [OF assms]
  have "accepted \<Longrightarrow> t \<in> visited h' - visited h"
    unfolding e(2) using e(1) by simp
  then show ?thesis
    unfolding mark_ext_def using mark_section_ext [OF assms] by simp
qed

lemma for_each_heap_ext:
  assumes "for_each xs f h = Some h'"
    and "\<And>x u u'. x \<in> set xs \<Longrightarrow> f x u = Some u' \<Longrightarrow> heap_ext u u'"
  shows "heap_ext h h'"
  using assms(1) by (rule for_each_rel) (simp, erule (1) heap_ext_trans, erule (1) assms(2))

lemma for_each_mark_ext:
  assumes "for_each xs f st = Some st'"
    and "\<And>x u u'. x \<in> set xs \<Longrightarrow> f x u = Some u' \<Longrightarrow> mark_ext u u'"
  shows "mark_ext st st'"
  using assms(1) by (rule for_each_rel) (simp, erule (1) mark_ext_trans, erule (1) assms(2))

lemma visit_rel_fragments_ext:
  assumes "visit_rel_fragments refs h = Some h'"
  shows "heap_ext h h'"
  using assms unfolding visit_rel_fragments_def
  by (rule for_each_heap_ext) (rule set_frag_alive_ext)

lemma visit_fde_rel_ext:
  assumes "visit_fde_rel rel st = Some st'"
  shows "mark_ext st st'"
proof -
  obtain h fd where st: "st = (h, fd)" by (cases st)
  show ?thesis
  proof (cases "input_section (sym rel)")
    case None
    then show ?thesis using assms by (simp add: visit_fde_rel_def st)
  next
    case (Some t)
    then obtain accepted h' where m: "mark_section (Some t) h = Some (accepted, h')"
        and st': "st' = (h', if accepted then fd @ [t] else fd)"
      using assms by (auto simp: visit_fde_rel_def st split: option.splits)
    show ?thesis unfolding st st' using m by (rule mark_section_feed_ext)
  qed
qed

lemma visit_fdes_ext:
  assumes "visit_fdes fs st = Some st'"
  shows "mark_ext st st'"
  using assms unfolding visit_fdes_def
proof (rule for_each_mark_ext)
  fix fde u u'
  assume "(case fde_rels fde of [] \<Rightarrow> None | rel0 # rest \<Rightarrow> for_each rest visit_fde_rel u) = Some u'"
  then obtain rel0 rest where "for_each rest visit_fde_rel u = Some u'"
    by (auto split: list.splits)
  then show "mark_ext u u'"
    by (rule for_each_mark_ext) (rule visit_fde_rel_ext)
qed

text \<open>The body of the third loop of \<open>visit\<close>, for the proofs.\<close>

definition rel_step ::
  "nat \<Rightarrow> nat \<Rightarrow> InputSection \<Rightarrow> ElfRela \<Rightarrow> heap \<times> isec_ptr list \<Rightarrow> (heap \<times> isec_ptr list) option" where
  "rel_step lim depth s rel = (\<lambda>(h, feeder).
     case deref (files h) (isec_file s) of
       None \<Rightarrow> None
     | Some f \<Rightarrow>
         (case deref (symbols f) (r_sym rel) of
            None \<Rightarrow> None
          | Some sy \<Rightarrow>
              (case frag sy of
                 Some fr \<Rightarrow>
                   (case set_frag_alive fr h of
                      None \<Rightarrow> None
                    | Some h' \<Rightarrow> Some (h', feeder))
               | None \<Rightarrow>
                   (case mark_section (input_section sy) h of
                      None \<Rightarrow> None
                    | Some (accepted, h') \<Rightarrow>
                        (case input_section sy of
                           None \<Rightarrow> Some (h', feeder)
                         | Some t \<Rightarrow>
                             if \<not> accepted then Some (h', feeder)
                             else if depth < lim
                               then visit lim t (depth + 1) (h', feeder)
                             else Some (h', feeder @ [t]))))))"

lemma visit_unfold:
  "visit lim isec depth (h, feeder) =
     (case deref (isecs h) isec of
        None \<Rightarrow> None
      | Some s \<Rightarrow>
          if \<not> is_visited s then None
          else
            (case visit_rel_fragments (rel_fragments s) h of
               None \<Rightarrow> None
             | Some h1 \<Rightarrow>
                 (case visit_fdes (fdes s) (h1, feeder) of
                    None \<Rightarrow> None
                  | Some st2 \<Rightarrow> for_each (rels s) (rel_step lim depth s) st2)))"
  unfolding rel_step_def by (subst visit.simps) (rule refl)

definition rel_symbol :: "heap \<Rightarrow> InputSection \<Rightarrow> ElfRela \<Rightarrow> Symbol option" where
  "rel_symbol h s rel =
     (case deref (files h) (isec_file s) of
        None \<Rightarrow> None
      | Some f \<Rightarrow> deref (symbols f) (r_sym rel))"

lemma visit_SomeE:
  assumes "visit lim isec depth (h, feeder) = Some st'"
  obtains s h1 st2 where "deref (isecs h) isec = Some s" and "is_visited s"
    and "visit_rel_fragments (rel_fragments s) h = Some h1"
    and "visit_fdes (fdes s) (h1, feeder) = Some st2"
    and "for_each (rels s) (rel_step lim depth s) st2 = Some st'"
  using assms unfolding visit_unfold by (auto split: option.splits if_splits)

lemma rel_step_SomeE:
  assumes "rel_step lim depth s rel (h, fd) = Some st'"
  obtains (fragment) sy fr h' where "rel_symbol h s rel = Some sy" and "frag sy = Some fr"
      and "set_frag_alive fr h = Some h'" and "st' = (h', fd)"
    | (rejected) sy h' where "rel_symbol h s rel = Some sy" and "frag sy = None"
      and "mark_section (input_section sy) h = Some (False, h')" and "st' = (h', fd)"
    | (descend) sy t h' where "rel_symbol h s rel = Some sy" and "frag sy = None"
      and "input_section sy = Some t" and "mark_section (Some t) h = Some (True, h')"
      and "depth < lim" and "visit lim t (depth + 1) (h', fd) = Some st'"
    | (feed) sy t h' where "rel_symbol h s rel = Some sy" and "frag sy = None"
      and "input_section sy = Some t" and "mark_section (Some t) h = Some (True, h')"
      and "\<not> depth < lim" and "st' = (h', fd @ [t])"
proof -
  from assms obtain f sy where f: "deref (files h) (isec_file s) = Some f"
      and sy: "deref (symbols f) (r_sym rel) = Some sy"
    by (auto simp: rel_step_def split: option.splits)
  then have rs: "rel_symbol h s rel = Some sy" by (simp add: rel_symbol_def)
  show thesis
  proof (cases "frag sy")
    case (Some fr)
    then show thesis
      using assms f sy rs fragment by (auto simp: rel_step_def split: option.splits)
  next
    case None
    from assms f sy None obtain accepted h' where
      m: "mark_section (input_section sy) h = Some (accepted, h')"
      by (auto simp: rel_step_def split: option.splits)
    have acc: "accepted \<Longrightarrow> \<exists>t. input_section sy = Some t"
      using mark_section_effect(1) [OF m] by auto
    show thesis
    proof (cases accepted)
      case False
      then show thesis
        using assms f sy rs None m rejected by (auto simp: rel_step_def split: option.splits)
    next
      case True
      then obtain t where t: "input_section sy = Some t" using acc by blast
      show thesis
      proof (cases "depth < lim")
        case d: True
        show thesis
          using assms f sy rs None m t True d descend [of sy t h'] by (simp add: rel_step_def)
      next
        case d: False
        show thesis
          using assms f sy rs None m t True d feed [of sy t h'] by (simp add: rel_step_def)
      qed
    qed
  qed
qed

lemma visit_ext:
  assumes "visit lim isec depth st = Some st'"
  shows "mark_ext st st'"
  using assms
proof (induction "lim - depth" arbitrary: isec depth st st' rule: less_induct)
  case less
  obtain h fd where st: "st = (h, fd)" by (cases st)
  from less.prems obtain s h1 st2 where
    frs: "visit_rel_fragments (rel_fragments s) h = Some h1"
    and fds: "visit_fdes (fdes s) (h1, fd) = Some st2"
    and loop: "for_each (rels s) (rel_step lim depth s) st2 = Some st'"
    unfolding st by (rule visit_SomeE)
  have 1: "mark_ext (h, fd) (h1, fd)"
    using visit_rel_fragments_ext [OF frs] by (rule mark_ext_heap)
  have 2: "mark_ext (h1, fd) st2"
    using fds by (rule visit_fdes_ext)
  have 3: "mark_ext st2 st'"
    using loop
  proof (rule for_each_mark_ext)
    fix rel u u'
    assume "rel \<in> set (rels s)" and step: "rel_step lim depth s rel u = Some u'"
    obtain hu fu where u: "u = (hu, fu)" by (cases u)
    from step have "rel_step lim depth s rel (hu, fu) = Some u'"
      by (simp add: u)
    then have "mark_ext (hu, fu) u'"
    proof (cases rule: rel_step_SomeE)
      case (fragment sy fr h')
      then show ?thesis using set_frag_alive_ext mark_ext_heap by simp
    next
      case (rejected sy h')
      then show ?thesis using mark_section_ext mark_ext_heap by simp
    next
      case (descend sy t h')
      have a: "mark_ext (hu, fu) (h', fu)"
        using mark_section_ext [OF descend(4)] by (rule mark_ext_heap)
      have "lim - (depth + 1) < lim - depth" using descend(5) by simp
      then have "mark_ext (h', fu) u'"
        using descend(6) by (rule less.hyps)
      then show ?thesis using a mark_ext_trans by blast
    next
      case (feed sy t h')
      then show ?thesis using mark_section_feed_ext [OF feed(4), of fu] by simp
    qed
    then show "mark_ext u u'" by (simp add: u)
  qed
  show ?case
    unfolding st using 1 2 3 mark_ext_trans by blast
qed

definition pending :: "heap \<Rightarrow> nat" where
  "pending h = card (alive h - visited h)"

lemma finite_alive [simp]: "finite (alive h)"
  by (simp add: alive_def)

lemma finite_visited [simp]: "finite (visited h)"
  by (simp add: visited_def)

lemma mark_ext_measure:
  assumes "mark_ext (h, fd) (h', fd')"
  shows "length fd' + pending h' \<le> length fd + pending h"
proof -
  from assms obtain new where new: "fd' = fd @ new" "distinct new"
      "set new \<subseteq> visited h' - visited h" and e: "heap_ext h h'"
    by (auto simp: mark_ext_def)
  let ?N = "visited h' - visited h"
  have a: "alive h' = alive h" and sub: "?N \<subseteq> alive h" and mono: "visited h \<subseteq> visited h'"
    using e by (auto simp: heap_ext_def)
  have "length new = card (set new)" using new(2) by (simp add: distinct_card)
  also have "\<dots> \<le> card ?N" using new(3) by (intro card_mono) simp_all
  finally have ln: "length new \<le> card ?N" .
  have "alive h - visited h = (alive h - visited h') \<union> ?N" using sub mono by auto
  moreover have "(alive h - visited h') \<inter> ?N = {}" by auto
  ultimately have "card (alive h - visited h) = card (alive h - visited h') + card ?N"
    by (simp add: card_Un_disjoint)
  then show ?thesis using ln new(1) a by (simp add: pending_def)
qed

subsection \<open>\<^verbatim>\<open>mark\<close>\<close>

text \<open>
  \<^verbatim>\<open>tbb::parallel_do(roots, body)\<close> runs the body on every element of \<open>roots\<close> and on
  every element that a body hands to the feeder, until none is left. The model is the
  schedule of one worker that takes the pending elements first in, first out: the list
  \<open>work\<close> holds the pending elements, and the feeder of a call appends to it. A section
  enters the list only when \<open>mark_section\<close> accepted it, so every step either shortens
  the list or uses up a section that is alive and not visited: the loop terminates.
\<close>

function mark_loop :: "nat \<Rightarrow> isec_ptr list \<Rightarrow> heap \<Rightarrow> heap option" where
  "mark_loop lim [] h = Some h"
| "mark_loop lim (isec # work) h =
     (case visit lim isec 0 (h, work) of
        None \<Rightarrow> None
      | Some (h', work') \<Rightarrow> mark_loop lim work' h')"
  by pat_completeness auto
termination
proof (relation "measure (\<lambda>(lim, work, h). length work + pending h)")
  fix lim isec work h x2 h' work'
  assume "visit lim isec 0 (h, work) = Some x2" and "(h', work') = x2"
  then have "mark_ext (h, work) (h', work')" using visit_ext by simp
  then have "length work' + pending h' \<le> length work + pending h" by (rule mark_ext_measure)
  then show "((lim, work', h'), (lim, isec # work, h)) \<in> measure (\<lambda>(lim, work, h). length work + pending h)"
    by simp
qed simp

definition mark :: "isec_ptr list \<Rightarrow> heap \<Rightarrow> heap option" where
  "mark roots h = mark_loop 3 roots h"

subsection \<open>\<^verbatim>\<open>collect_root_set\<close>\<close>

text \<open>The two lambdas of \<^verbatim>\<open>collect_root_set\<close>; the state is the heap and the vector \<open>roots\<close>.\<close>

definition enqueue_section ::
  "isec_ptr option \<Rightarrow> heap \<times> isec_ptr list \<Rightarrow> (heap \<times> isec_ptr list) option" where
  "enqueue_section isec = (\<lambda>(h, roots).
     case mark_section isec h of
       None \<Rightarrow> None
     | Some (accepted, h') \<Rightarrow>
         (case isec of
            None \<Rightarrow> Some (h', roots)
          | Some p \<Rightarrow> Some (h', if accepted then roots @ [p] else roots)))"

definition enqueue_symbol ::
  "Symbol option \<Rightarrow> heap \<times> isec_ptr list \<Rightarrow> (heap \<times> isec_ptr list) option" where
  "enqueue_symbol sy_ptr = (\<lambda>(h, roots).
     case sy_ptr of
       None \<Rightarrow> Some (h, roots)
     | Some sy \<Rightarrow>
         (case frag sy of
            Some fr \<Rightarrow>
              (case set_frag_alive fr h of
                 None \<Rightarrow> None
               | Some h' \<Rightarrow> Some (h', roots))
          | None \<Rightarrow> enqueue_section (input_section sy) (h, roots)))"

text \<open>
  Modelled from the spec: \<^verbatim>\<open>Symbol::intern\<close> is defined in mold.h, which is not part of the
  sources at hand. It returns the symbol of that name in the global symbol table, and a
  symbol without section and without fragment if the name is absent; it never returns
  a null pointer.
\<close>

definition intern :: "Context \<Rightarrow> string \<Rightarrow> Symbol option" where
  "intern ctx key =
     (case symbol_table ctx key of
        Some sy \<Rightarrow> Some sy
      | None \<Rightarrow>
          Some \<lparr>sym_file = None, input_section = None, frag = None, is_exported = False\<rparr>)"

text \<open>The body of the first loop: one slot of \<^verbatim>\<open>file->sections\<close>.\<close>

definition collect_section ::
  "isec_ptr option \<Rightarrow> heap \<times> isec_ptr list \<Rightarrow> (heap \<times> isec_ptr list) option" where
  "collect_section isec = (\<lambda>(h, roots).
     case isec of
       None \<Rightarrow> Some (h, roots)
     | Some p \<Rightarrow>
         (case deref (isecs h) p of
            None \<Rightarrow> None
          | Some s \<Rightarrow>
              let h1 = (if sh_flags (shdr s) AND SHF_ALLOC = 0 then set_is_visited p h else h)
              in if is_init_fini s \<or> sh_type (shdr s) = SHT_NOTE
                 then enqueue_section (Some p) (h1, roots)
                 else Some (h1, roots)))"

definition collect_sections ::
  "Context \<Rightarrow> heap \<times> isec_ptr list \<Rightarrow> (heap \<times> isec_ptr list) option" where
  "collect_sections ctx st =
     for_each (objs ctx) (\<lambda>file (h, roots).
       case deref (files h) file of
         None \<Rightarrow> None
       | Some f \<Rightarrow> for_each (sections f) collect_section (h, roots)) st"

definition collect_exported ::
  "Context \<Rightarrow> heap \<times> isec_ptr list \<Rightarrow> (heap \<times> isec_ptr list) option" where
  "collect_exported ctx st =
     for_each (objs ctx) (\<lambda>file (h, roots).
       case deref (files h) file of
         None \<Rightarrow> None
       | Some f \<Rightarrow>
           for_each (symbols f) (\<lambda>sy st.
             if sym_file sy = Some file \<and> is_exported sy then enqueue_symbol (Some sy) st
             else Some st) (h, roots)) st"

definition collect_cies ::
  "Context \<Rightarrow> heap \<times> isec_ptr list \<Rightarrow> (heap \<times> isec_ptr list) option" where
  "collect_cies ctx st =
     for_each (objs ctx) (\<lambda>file (h, roots).
       case deref (files h) file of
         None \<Rightarrow> None
       | Some f \<Rightarrow>
           for_each (cies f) (\<lambda>cie.
             for_each (cie_rels cie) (\<lambda>rel. enqueue_section (input_section (sym rel))))
             (h, roots)) st"

definition collect_root_set :: "Context \<Rightarrow> heap \<Rightarrow> (heap \<times> isec_ptr list) option" where
  "collect_root_set ctx h =
     (case collect_sections ctx (h, []) of
        None \<Rightarrow> None
      | Some st1 \<Rightarrow>
          (case collect_exported ctx st1 of
             None \<Rightarrow> None
           | Some st2 \<Rightarrow>
               (case enqueue_symbol (intern ctx (arg_entry ctx)) st2 of
                  None \<Rightarrow> None
                | Some st3 \<Rightarrow>
                    (case for_each (arg_undefined ctx)
                            (\<lambda>key. enqueue_symbol (intern ctx key)) st3 of
                       None \<Rightarrow> None
                     | Some st4 \<Rightarrow> collect_cies ctx st4))))"

subsection \<open>\<^verbatim>\<open>sweep\<close>\<close>

text \<open>
  Modelled from the spec: \<^verbatim>\<open>InputSection::kill\<close> is defined in mold.h, which is not part of
  the sources at hand. It is the transition of \<^verbatim>\<open>is_alive\<close> to false.
\<close>

definition kill :: "isec_ptr \<Rightarrow> heap \<Rightarrow> heap" where
  "kill p h = h\<lparr>isecs := (isecs h)[p := (isecs h ! p)\<lparr>is_alive := False\<rparr>]\<rparr>"

text \<open>The body of the loop over \<^verbatim>\<open>file->sections\<close>.\<close>

definition sweep_section :: "Context \<Rightarrow> isec_ptr option \<Rightarrow> heap \<Rightarrow> heap option" where
  "sweep_section ctx isec h =
     (case isec of
        None \<Rightarrow> Some h
      | Some p \<Rightarrow>
          (case deref (isecs h) p of
             None \<Rightarrow> None
           | Some s \<Rightarrow>
               if is_alive s \<and> \<not> is_visited s
               then
                 let h1 = (if arg_print_gc_sections ctx
                           then h\<lparr>out := out h @ [RemovingUnusedSection p]\<rparr> else h);
                     h2 = kill p h1
                 in Some (h2\<lparr>counter := counter h2 + 1\<rparr>)
               else Some h))"

definition sweep :: "Context \<Rightarrow> heap \<Rightarrow> heap option" where
  "sweep ctx h =
     for_each (objs ctx) (\<lambda>file h.
       case deref (files h) file of
         None \<Rightarrow> None
       | Some f \<Rightarrow> for_each (sections f) (sweep_section ctx) h) h"

subsection \<open>\<^verbatim>\<open>mark_nonalloc_fragments\<close> and \<^verbatim>\<open>gc_sections\<close>\<close>

definition mark_nonalloc_fragments :: "Context \<Rightarrow> heap \<Rightarrow> heap option" where
  "mark_nonalloc_fragments ctx h =
     for_each (objs ctx) (\<lambda>file h.
       case deref (files h) file of
         None \<Rightarrow> None
       | Some f \<Rightarrow>
           for_each (fragments f) (\<lambda>fr h.
             case deref (frags h) fr of
               None \<Rightarrow> None
             | Some fg \<Rightarrow>
                 if sh_flags (output_section_shdr fg) AND SHF_ALLOC = 0
                 then set_frag_alive fr h
                 else Some h) h) h"

definition gc_sections :: "Context \<Rightarrow> heap \<Rightarrow> heap option" where
  "gc_sections ctx h =
     (case mark_nonalloc_fragments ctx h of
        None \<Rightarrow> None
      | Some h0 \<Rightarrow>
          (case collect_root_set ctx h0 of
             None \<Rightarrow> None
           | Some (h1, roots) \<Rightarrow>
               (case mark roots h1 of
                  None \<Rightarrow> None
                | Some h2 \<Rightarrow> sweep ctx h2)))"

section \<open>What the phases may change\<close>

text \<open>
  The root collector also sets \<^verbatim>\<open>is_visited\<close> of sections that are not alive (those
  without \<^verbatim>\<open>SHF_ALLOC\<close>), so it is described by the weaker \<open>flags_mono\<close>; \<open>collect_ext\<close>
  adds that the root vector only grows, by distinct sections accepted in between.
\<close>

definition flags_mono :: "heap \<Rightarrow> heap \<Rightarrow> bool" where
  "flags_mono h h' \<longleftrightarrow>
     same_graph h h' \<and> alive h' = alive h \<and> counter h' = counter h \<and> out h' = out h \<and>
     visited h \<subseteq> visited h' \<and> alive_frags h \<subseteq> alive_frags h'"

definition collect_ext :: "heap \<times> isec_ptr list \<Rightarrow> heap \<times> isec_ptr list \<Rightarrow> bool" where
  "collect_ext st st' \<longleftrightarrow>
     flags_mono (fst st) (fst st') \<and>
     (\<exists>new. snd st' = snd st @ new \<and> distinct new \<and>
        set new \<subseteq> visited (fst st') - visited (fst st))"

lemma flags_mono_refl [simp]: "flags_mono h h"
  by (simp add: flags_mono_def)

lemma flags_mono_trans:
  assumes "flags_mono h1 h2" and "flags_mono h2 h3"
  shows "flags_mono h1 h3"
proof -
  have "same_graph h1 h3"
    using assms same_graph_trans unfolding flags_mono_def by blast
  moreover have "alive h3 = alive h1" "counter h3 = counter h1" "out h3 = out h1"
    using assms unfolding flags_mono_def by simp_all
  moreover have "visited h1 \<subseteq> visited h3"
    using assms unfolding flags_mono_def by blast
  moreover have "alive_frags h1 \<subseteq> alive_frags h3"
    using assms unfolding flags_mono_def by blast
  ultimately show ?thesis unfolding flags_mono_def by simp
qed

lemma heap_ext_flags_mono: "heap_ext h h' \<Longrightarrow> flags_mono h h'"
  by (simp add: heap_ext_def flags_mono_def)

lemma collect_ext_refl [simp]: "collect_ext st st"
  by (simp add: collect_ext_def)

lemma collect_ext_trans:
  assumes "collect_ext s1 s2" and "collect_ext s2 s3"
  shows "collect_ext s1 s3"
proof -
  from assms(1) obtain n1 where n1: "snd s2 = snd s1 @ n1" "distinct n1"
      "set n1 \<subseteq> visited (fst s2) - visited (fst s1)" and e1: "flags_mono (fst s1) (fst s2)"
    by (auto simp: collect_ext_def)
  from assms(2) obtain n2 where n2: "snd s3 = snd s2 @ n2" "distinct n2"
      "set n2 \<subseteq> visited (fst s3) - visited (fst s2)" and e2: "flags_mono (fst s2) (fst s3)"
    by (auto simp: collect_ext_def)
  have v12: "visited (fst s1) \<subseteq> visited (fst s2)" and v23: "visited (fst s2) \<subseteq> visited (fst s3)"
    using e1 e2 by (auto simp: flags_mono_def)
  have "snd s3 = snd s1 @ (n1 @ n2)" using n1 n2 by simp
  moreover have "distinct (n1 @ n2)" using n1 n2 by auto
  moreover have "set (n1 @ n2) \<subseteq> visited (fst s3) - visited (fst s1)"
    using n1 n2 v12 v23 by auto
  ultimately show ?thesis
    unfolding collect_ext_def using flags_mono_trans [OF e1 e2] by blast
qed

lemma mark_ext_collect_ext: "mark_ext st st' \<Longrightarrow> collect_ext st st'"
  unfolding mark_ext_def collect_ext_def using heap_ext_flags_mono by blast

lemma collect_ext_heap: "flags_mono h h' \<Longrightarrow> collect_ext (h, rs) (h', rs)"
  by (simp add: collect_ext_def)

lemma for_each_flags_mono:
  assumes "for_each xs f h = Some h'"
    and "\<And>x u u'. x \<in> set xs \<Longrightarrow> f x u = Some u' \<Longrightarrow> flags_mono u u'"
  shows "flags_mono h h'"
  using assms(1) by (rule for_each_rel) (simp, erule (1) flags_mono_trans, erule (1) assms(2))

lemma for_each_collect_ext:
  assumes "for_each xs f st = Some st'"
    and "\<And>x u u'. x \<in> set xs \<Longrightarrow> f x u = Some u' \<Longrightarrow> collect_ext u u'"
  shows "collect_ext st st'"
  using assms(1) by (rule for_each_rel) (simp, erule (1) collect_ext_trans, erule (1) assms(2))

lemma enqueue_section_SomeE:
  assumes "enqueue_section isec (h, roots) = Some st'"
  obtains accepted h' where "mark_section isec h = Some (accepted, h')"
    and "st' = (h', roots @ (case isec of Some p \<Rightarrow> if accepted then [p] else [] | None \<Rightarrow> []))"
  using assms by (auto simp: enqueue_section_def split: option.splits if_splits)

lemma enqueue_section_ext:
  assumes "enqueue_section isec st = Some st'"
  shows "collect_ext st st'"
proof -
  obtain h roots where st: "st = (h, roots)" by (cases st)
  from assms obtain accepted h' where m: "mark_section isec h = Some (accepted, h')"
    and st': "st' = (h', roots @ (case isec of Some p \<Rightarrow> if accepted then [p] else [] | None \<Rightarrow> []))"
    unfolding st by (rule enqueue_section_SomeE)
  show ?thesis
  proof (cases isec)
    case None
    then show ?thesis
      using mark_section_ext [OF m] by (simp add: st st' collect_ext_heap heap_ext_flags_mono)
  next
    case (Some p)
    have "mark_ext (h, roots) (h', if accepted then roots @ [p] else roots)"
      using m unfolding Some by (rule mark_section_feed_ext)
    then have "collect_ext (h, roots) (h', if accepted then roots @ [p] else roots)"
      by (rule mark_ext_collect_ext)
    then show ?thesis
      by (cases accepted) (simp_all add: st st' Some)
  qed
qed

lemma enqueue_symbol_SomeE:
  assumes "enqueue_symbol sp (h, roots) = Some st'"
  obtains (null) "sp = None" and "st' = (h, roots)"
    | (fragment) sy fr h' where "sp = Some sy" and "frag sy = Some fr"
        and "set_frag_alive fr h = Some h'" and "st' = (h', roots)"
    | (isection) sy where "sp = Some sy" and "frag sy = None"
        and "enqueue_section (input_section sy) (h, roots) = Some st'"
  using assms by (auto simp: enqueue_symbol_def split: option.splits)

lemma enqueue_symbol_ext:
  assumes "enqueue_symbol sp st = Some st'"
  shows "collect_ext st st'"
proof -
  obtain h roots where st: "st = (h, roots)" by (cases st)
  from assms [unfolded st] show ?thesis
  proof (cases rule: enqueue_symbol_SomeE)
    case null
    then show ?thesis by (simp add: st)
  next
    case (fragment sy fr h')
    then show ?thesis
      using set_frag_alive_ext [OF fragment(3)]
      by (simp add: st collect_ext_heap heap_ext_flags_mono)
  next
    case (isection sy)
    then show ?thesis
      unfolding st using enqueue_section_ext by blast
  qed
qed

lemma set_is_visited_flags_mono: "flags_mono h (set_is_visited p h)"
proof (cases "p < length (isecs h)")
  case True
  note e = set_is_visited_effect [OF True]
  have "alive_frags (set_is_visited p h) = alive_frags h"
    using e(4) by (rule alive_frags_cong)
  then show ?thesis
    unfolding flags_mono_def using e(1,2,3,5,6) by auto
next
  case False
  then show ?thesis by (simp add: set_is_visited_id)
qed

lemma collect_section_ext:
  assumes "collect_section isec st = Some st'"
  shows "collect_ext st st'"
proof -
  obtain h roots where st: "st = (h, roots)" by (cases st)
  show ?thesis
  proof (cases isec)
    case None
    then show ?thesis using assms by (simp add: collect_section_def st)
  next
    case (Some p)
    then obtain s where s: "deref (isecs h) p = Some s"
      using assms by (auto simp: collect_section_def st split: option.splits)
    define h1 where "h1 = (if sh_flags (shdr s) AND SHF_ALLOC = 0 then set_is_visited p h else h)"
    have 1: "collect_ext (h, roots) (h1, roots)"
      unfolding h1_def using set_is_visited_flags_mono by (simp add: collect_ext_heap)
    have "enqueue_section (Some p) (h1, roots) = Some st' \<or> st' = (h1, roots)"
      using assms Some s by (auto simp: collect_section_def st h1_def Let_def split: if_splits)
    then have "collect_ext (h1, roots) st'"
    proof
      assume "enqueue_section (Some p) (h1, roots) = Some st'"
      then show ?thesis by (rule enqueue_section_ext)
    next
      assume "st' = (h1, roots)"
      then show ?thesis by simp
    qed
    then show ?thesis
      unfolding st using 1 collect_ext_trans by blast
  qed
qed

lemma for_each_files_collect_ext:
  assumes "for_each fs (\<lambda>file (h, roots). case deref (files h) file of
                None \<Rightarrow> None | Some f \<Rightarrow> g file f (h, roots)) st = Some st'"
    and "\<And>fl f u u'. g fl f u = Some u' \<Longrightarrow> collect_ext u u'"
  shows "collect_ext st st'"
  using assms(1)
proof (rule for_each_collect_ext)
  fix fl u u'
  assume a: "(case u of (h, roots) \<Rightarrow> case deref (files h) fl of
                None \<Rightarrow> None | Some f \<Rightarrow> g fl f (h, roots)) = Some u'"
  obtain h roots where u: "u = (h, roots)" by (cases u)
  from a obtain f where "g fl f u = Some u'"
    by (auto simp: u split: option.splits)
  then show "collect_ext u u'" by (rule assms(2))
qed

lemma collect_sections_ext:
  assumes "collect_sections ctx st = Some st'"
  shows "collect_ext st st'"
  using assms unfolding collect_sections_def
  by (rule for_each_files_collect_ext [where g = "\<lambda>file f. for_each (sections f) collect_section"])
     (erule for_each_collect_ext, erule collect_section_ext)

lemma collect_exported_ext:
  assumes "collect_exported ctx st = Some st'"
  shows "collect_ext st st'"
  using assms unfolding collect_exported_def
proof (rule for_each_files_collect_ext [where g = "\<lambda>file f. for_each (symbols f) (\<lambda>sy st.
             if sym_file sy = Some file \<and> is_exported sy then enqueue_symbol (Some sy) st
             else Some st)"])
  fix fl f u u'
  assume "for_each (symbols f) (\<lambda>sy st.
             if sym_file sy = Some fl \<and> is_exported sy then enqueue_symbol (Some sy) st
             else Some st) u = Some u'"
  then show "collect_ext u u'"
    by (rule for_each_collect_ext) (auto split: if_splits dest: enqueue_symbol_ext)
qed

lemma collect_cies_ext:
  assumes "collect_cies ctx st = Some st'"
  shows "collect_ext st st'"
  using assms unfolding collect_cies_def
proof (rule for_each_files_collect_ext [where g = "\<lambda>file f. for_each (cies f) (\<lambda>cie.
             for_each (cie_rels cie) (\<lambda>rel. enqueue_section (input_section (sym rel))))"])
  fix fl f u u'
  assume "for_each (cies f) (\<lambda>cie.
             for_each (cie_rels cie) (\<lambda>rel. enqueue_section (input_section (sym rel)))) u = Some u'"
  then show "collect_ext u u'"
  proof (rule for_each_collect_ext)
    fix cie v v'
    assume "for_each (cie_rels cie) (\<lambda>rel. enqueue_section (input_section (sym rel))) v = Some v'"
    then show "collect_ext v v'"
      by (rule for_each_collect_ext) (erule enqueue_section_ext)
  qed
qed

lemma collect_root_set_SomeE:
  assumes "collect_root_set ctx h = Some st'"
  obtains st1 st2 st3 st4 where "collect_sections ctx (h, []) = Some st1"
    and "collect_exported ctx st1 = Some st2"
    and "enqueue_symbol (intern ctx (arg_entry ctx)) st2 = Some st3"
    and "for_each (arg_undefined ctx) (\<lambda>key. enqueue_symbol (intern ctx key)) st3 = Some st4"
    and "collect_cies ctx st4 = Some st'"
  using assms by (auto simp: collect_root_set_def split: option.splits)

lemma collect_root_set_ext:
  assumes "collect_root_set ctx h = Some st'"
  shows "collect_ext (h, []) st'"
proof -
  from assms obtain st1 st2 st3 st4 where 1: "collect_sections ctx (h, []) = Some st1"
    and 2: "collect_exported ctx st1 = Some st2"
    and 3: "enqueue_symbol (intern ctx (arg_entry ctx)) st2 = Some st3"
    and 4: "for_each (arg_undefined ctx) (\<lambda>key. enqueue_symbol (intern ctx key)) st3 = Some st4"
    and 5: "collect_cies ctx st4 = Some st'"
    by (rule collect_root_set_SomeE)
  have "collect_ext st3 st4"
    using 4 by (rule for_each_collect_ext) (erule enqueue_symbol_ext)
  then show ?thesis
    using collect_sections_ext [OF 1] collect_exported_ext [OF 2] enqueue_symbol_ext [OF 3]
      collect_cies_ext [OF 5] collect_ext_trans by blast
qed

lemma mark_loop_ext:
  assumes "mark_loop lim work h = Some h'"
  shows "heap_ext h h'"
  using assms
proof (induction lim work h rule: mark_loop.induct)
  case (1 lim h)
  then show ?case by simp
next
  case (2 lim isec work h)
  from "2.prems" obtain h1 work1 where v: "visit lim isec 0 (h, work) = Some (h1, work1)"
    and rest: "mark_loop lim work1 h1 = Some h'"
    by (auto split: option.splits)
  have "heap_ext h h1"
    using visit_ext [OF v] by (simp add: mark_ext_def)
  moreover have "heap_ext h1 h'"
    using "2.IH" [OF v refl rest] .
  ultimately show ?case by (rule heap_ext_trans)
qed

lemma for_each_files_heap_ext:
  assumes "for_each fs (\<lambda>file h. case deref (files h) file of
                None \<Rightarrow> None | Some f \<Rightarrow> g f h) h = Some h'"
    and "\<And>f u u'. g f u = Some u' \<Longrightarrow> heap_ext u u'"
  shows "heap_ext h h'"
  using assms(1)
proof (rule for_each_heap_ext)
  fix fl u u'
  assume "(case deref (files u) fl of None \<Rightarrow> None | Some f \<Rightarrow> g f u) = Some u'"
  then obtain f where "g f u = Some u'"
    by (auto split: option.splits)
  then show "heap_ext u u'" by (rule assms(2))
qed

lemma mark_nonalloc_fragments_ext:
  assumes "mark_nonalloc_fragments ctx h = Some h'"
  shows "heap_ext h h'"
  using assms unfolding mark_nonalloc_fragments_def
proof (rule for_each_files_heap_ext [where g = "\<lambda>f. for_each (fragments f) (\<lambda>fr h.
             case deref (frags h) fr of
               None \<Rightarrow> None
             | Some fg \<Rightarrow>
                 if sh_flags (output_section_shdr fg) AND SHF_ALLOC = 0
                 then set_frag_alive fr h
                 else Some h)"])
  fix f u u'
  assume "for_each (fragments f) (\<lambda>fr h. case deref (frags h) fr of
               None \<Rightarrow> None
             | Some fg \<Rightarrow> if sh_flags (output_section_shdr fg) AND SHF_ALLOC = 0
                 then set_frag_alive fr h else Some h) u = Some u'"
  then show "heap_ext u u'"
    by (rule for_each_heap_ext) (auto split: option.splits if_splits dest: set_frag_alive_ext)
qed

section \<open>The sections of the input and the effect of \<^verbatim>\<open>sweep\<close>\<close>

text \<open>
  The sections of the input are the non-null slots of \<^verbatim>\<open>file->sections\<close> of the files in
  \<^verbatim>\<open>ctx.objs\<close>: these are the sections that the loops of the collector range over.
\<close>

definition file_sections :: "heap \<Rightarrow> file_ptr \<Rightarrow> isec_ptr list" where
  "file_sections h fl =
     (case deref (files h) fl of
        None \<Rightarrow> []
      | Some f \<Rightarrow> concat (map (\<lambda>isec. case isec of None \<Rightarrow> [] | Some p \<Rightarrow> [p]) (sections f)))"

definition ctx_sections :: "Context \<Rightarrow> heap \<Rightarrow> isec_ptr list" where
  "ctx_sections ctx h = concat (map (file_sections h) (objs ctx))"

lemma file_sections_iff:
  "p \<in> set (file_sections h fl) \<longleftrightarrow> (\<exists>f. deref (files h) fl = Some f \<and> Some p \<in> set (sections f))"
  by (cases "deref (files h) fl") (auto simp: file_sections_def)

lemma ctx_sections_iff:
  "p \<in> set (ctx_sections ctx h) \<longleftrightarrow>
     (\<exists>fl\<in>set (objs ctx). \<exists>f. deref (files h) fl = Some f \<and> Some p \<in> set (sections f))"
  by (auto simp: ctx_sections_def file_sections_iff)

lemma ctx_sections_cong: "files h' = files h \<Longrightarrow> ctx_sections ctx h' = ctx_sections ctx h"
  by (simp add: ctx_sections_def file_sections_def cong: map_cong)

definition sweep_inv :: "Context \<Rightarrow> isec_ptr set \<Rightarrow> heap \<Rightarrow> heap \<Rightarrow> bool" where
  "sweep_inv ctx L h h' \<longleftrightarrow>
     same_graph h h' \<and> visited h' = visited h \<and> frags h' = frags h \<and> alive h' \<subseteq> alive h \<and>
     (\<exists>ks. distinct ks \<and> set ks = alive h - alive h' \<and> set ks \<subseteq> L - visited h \<and>
        counter h' = counter h + length ks \<and>
        out h' = out h @ (if arg_print_gc_sections ctx then map RemovingUnusedSection ks else []))"

lemma sweep_inv_refl: "sweep_inv ctx L h h"
  unfolding sweep_inv_def by (auto intro: exI [of _ "[]"])

lemma kill_effect:
  assumes "p < length (isecs h)"
  shows "same_graph h (kill p h)" and "visited (kill p h) = visited h"
    and "alive (kill p h) = alive h - {p}" and "frags (kill p h) = frags h"
    and "counter (kill p h) = counter h" and "out (kill p h) = out h"
proof -
  show "same_graph h (kill p h)"
    using assms by (simp add: same_graph_def kill_def map_update_same)
  show "visited (kill p h) = visited h"
    using assms by (auto simp: visited_def kill_def nth_list_update)
  show "alive (kill p h) = alive h - {p}"
    using assms by (auto simp: alive_def kill_def nth_list_update)
qed (simp_all add: kill_def)

lemma sweep_section_SomeE:
  assumes "sweep_section ctx isec h = Some h'"
  obtains (skip) "h' = h" and "\<forall>p. isec = Some p \<longrightarrow> p < length (isecs h) \<and> (p \<in> alive h \<longrightarrow> p \<in> visited h)"
    | (killed) p where "isec = Some p" and "p \<in> alive h" and "p \<notin> visited h"
        and "same_graph h h'" and "visited h' = visited h" and "frags h' = frags h"
        and "alive h' = alive h - {p}" and "counter h' = counter h + 1"
        and "out h' = out h @ (if arg_print_gc_sections ctx then [RemovingUnusedSection p] else [])"
proof (cases isec)
  case None
  then show thesis using assms skip by (simp add: sweep_section_def)
next
  case (Some p)
  then obtain s where s: "deref (isecs h) p = Some s"
    using assms by (auto simp: sweep_section_def split: option.splits)
  then have p: "p < length (isecs h)" and s': "s = isecs h ! p"
    by (auto simp: deref_def split: if_splits)
  show thesis
  proof (cases "is_alive s \<and> \<not> is_visited s")
    case False
    then have "h' = h" using assms Some s by (auto simp: sweep_section_def)
    moreover have "p \<in> alive h \<longrightarrow> p \<in> visited h"
      using False s' p by (simp add: alive_def visited_def)
    ultimately show thesis using skip Some p by simp
  next
    case True
    define h1 where "h1 = (if arg_print_gc_sections ctx
                           then h\<lparr>out := out h @ [RemovingUnusedSection p]\<rparr> else h)"
    have h': "h' = (kill p h1)\<lparr>counter := counter (kill p h1) + 1\<rparr>"
      using assms Some s True by (simp add: sweep_section_def h1_def Let_def)
    have i1: "isecs h1 = isecs h" and f1: "frags h1 = frags h" and fl1: "files h1 = files h"
      and c1: "counter h1 = counter h"
      and o1: "out h1 = out h @ (if arg_print_gc_sections ctx then [RemovingUnusedSection p] else [])"
      by (simp_all add: h1_def)
    have p1: "p < length (isecs h1)" using p i1 by simp
    note k = kill_effect [OF p1]
    have sg1: "same_graph h h1" by (simp add: same_graph_def i1 f1 fl1)
    have "same_graph h1 h'"
      using k(1) by (simp add: h' same_graph_def)
    then have 1: "same_graph h h'" using sg1 same_graph_trans by blast
    have 2: "visited h' = visited h"
      using k(2) visited_cong [OF i1] by (simp add: h' visited_def)
    have 3: "frags h' = frags h" using k(4) f1 by (simp add: h')
    have 4: "alive h' = alive h - {p}"
      using k(3) alive_cong [OF i1] by (simp add: h' alive_def)
    have 5: "counter h' = counter h + 1" using k(5) c1 by (simp add: h')
    have 6: "out h' = out h @ (if arg_print_gc_sections ctx then [RemovingUnusedSection p] else [])"
      using k(6) o1 by (simp add: h')
    have "p \<in> alive h" "p \<notin> visited h"
      using True s' p by (simp_all add: alive_def visited_def)
    then show thesis using killed Some 1 2 3 4 5 6 by blast
  qed
qed

lemma sweep_section_inv:
  assumes "sweep_section ctx isec u = Some u'" and "sweep_inv ctx L h u"
    and "\<forall>p. isec = Some p \<longrightarrow> p \<in> L"
  shows "sweep_inv ctx L h u'"
  using assms(1)
proof (cases rule: sweep_section_SomeE)
  case skip
  then show ?thesis using assms(2) by simp
next
  case (killed p)
  from assms(2) obtain ks where ks: "distinct ks" "set ks = alive h - alive u"
      "set ks \<subseteq> L - visited h" "counter u = counter h + length ks"
      "out u = out h @ (if arg_print_gc_sections ctx then map RemovingUnusedSection ks else [])"
    and inv: "same_graph h u" "visited u = visited h" "frags u = frags h" "alive u \<subseteq> alive h"
    unfolding sweep_inv_def by blast
  let ?ks = "ks @ [p]"
  have pL: "p \<in> L" using assms(3) killed(1) by simp
  have "distinct ?ks" using ks(1,2) killed(2) by auto
  moreover have "set ?ks = alive h - alive u'"
    using ks(2) killed(2,7) inv(4) by auto
  moreover have "set ?ks \<subseteq> L - visited h"
    using ks(3) pL killed(3) inv(2) by auto
  moreover have "counter u' = counter h + length ?ks"
    using ks(4) killed(8) by simp
  moreover have "out u' = out h @ (if arg_print_gc_sections ctx then map RemovingUnusedSection ?ks else [])"
    using ks(5) killed(9) by simp
  moreover have "same_graph h u'" using inv(1) killed(4) same_graph_trans by blast
  moreover have "visited u' = visited h" using inv(2) killed(5) by simp
  moreover have "frags u' = frags h" using inv(3) killed(6) by simp
  moreover have "alive u' \<subseteq> alive h" using inv(4) killed(7) by auto
  ultimately show ?thesis unfolding sweep_inv_def by blast
qed

lemma sweep_inv_files: "sweep_inv ctx L h u \<Longrightarrow> files u = files h"
  by (simp add: sweep_inv_def same_graph_length(3))

definition swept :: "heap \<Rightarrow> isec_ptr \<Rightarrow> bool" where
  "swept h p \<longleftrightarrow> p < length (isecs h) \<and> (p \<in> alive h \<longrightarrow> p \<in> visited h)"

lemma sweep_section_swept:
  assumes "sweep_section ctx isec u = Some u'"
  shows "swept u q \<Longrightarrow> swept u' q" and "isec = Some p \<Longrightarrow> swept u' p"
proof -
  show "swept u q \<Longrightarrow> swept u' q"
    using assms by (cases rule: sweep_section_SomeE) (auto simp: swept_def same_graph_length(1))
  show "isec = Some p \<Longrightarrow> swept u' p"
    using assms
    by (cases rule: sweep_section_SomeE) (auto simp: swept_def alive_def same_graph_length(1))
qed

lemma for_each_all_inv:
  assumes "for_each xs f s = Some s'" and "I s"
    and step: "\<And>x u u'. x \<in> set xs \<Longrightarrow> I u \<Longrightarrow> f x u = Some u' \<Longrightarrow> I u' \<and> Q x u'"
    and keep: "\<And>x y u u'. x \<in> set xs \<Longrightarrow> y \<in> set xs \<Longrightarrow> I u \<Longrightarrow> Q x u \<Longrightarrow> f y u = Some u'
           \<Longrightarrow> Q x u'"
  shows "I s' \<and> (\<forall>x\<in>set xs. Q x s')"
  using assms
proof (induction xs arbitrary: s)
  case Nil
  show ?case using Nil.prems(1,2) by simp
next
  case (Cons x xs)
  from Cons.prems(1) obtain u where u: "f x s = Some u" and rest: "for_each xs f u = Some s'"
    by (auto split: option.splits)
  have x: "x \<in> set (x # xs)" by simp
  have IQ: "I u \<and> Q x u"
    using x Cons.prems(2) u by (rule Cons.prems(3))
  have "I s' \<and> Q x s'"
    using rest IQ
  proof (rule for_each_inv [where I = "\<lambda>u. I u \<and> Q x u"])
    fix y v v'
    assume y: "y \<in> set xs" and v: "I v \<and> Q x v" and st: "f y v = Some v'"
    have y': "y \<in> set (x # xs)" using y by simp
    have "I v' \<and> Q y v'" using y' conjunct1 [OF v] st by (rule Cons.prems(3))
    moreover have "Q x v'" using x y' conjunct1 [OF v] conjunct2 [OF v] st by (rule Cons.prems(4))
    ultimately show "I v' \<and> Q x v'" by blast
  qed
  moreover have "I s' \<and> (\<forall>y\<in>set xs. Q y s')"
    using rest conjunct1 [OF IQ]
  proof (rule Cons.IH)
    fix y u u'
    assume "y \<in> set xs" and a: "I u" "f y u = Some u'"
    then have "y \<in> set (x # xs)" by simp
    then show "I u' \<and> Q y u'" using a by (rule Cons.prems(3))
  next
    fix z y u u'
    assume "z \<in> set xs" and "y \<in> set xs" and a: "I u" "Q z u" "f y u = Some u'"
    then have "z \<in> set (x # xs)" "y \<in> set (x # xs)" by simp_all
    then show "Q z u'" using a by (rule Cons.prems(4))
  qed
  ultimately show ?case by simp
qed

lemma for_each_sweep_section_swept:
  assumes "for_each xs (sweep_section ctx) u = Some u'"
  shows "swept u q \<Longrightarrow> swept u' q" and "Some p \<in> set xs \<Longrightarrow> swept u' p"
proof -
  assume "swept u q"
  with assms show "swept u' q"
    by (rule for_each_inv [where I = "\<lambda>u. swept u q"]) (erule (1) sweep_section_swept(1))
next
  have "\<forall>x\<in>set xs. \<forall>p. x = Some p \<longrightarrow> swept u' p"
    using assms
  proof (rule for_each_all [where Q = "\<lambda>x u. \<forall>p. x = Some p \<longrightarrow> swept u p"])
    fix x v v'
    assume "sweep_section ctx x v = Some v'"
    then show "\<forall>p. x = Some p \<longrightarrow> swept v' p"
      using sweep_section_swept(2) by blast
  next
    fix x y v v'
    assume "\<forall>p. x = Some p \<longrightarrow> swept v p" and "sweep_section ctx y v = Some v'"
    then show "\<forall>p. x = Some p \<longrightarrow> swept v' p"
      using sweep_section_swept(1) by blast
  qed
  then show "Some p \<in> set xs \<Longrightarrow> swept u' p" by blast
qed

lemma sweep_body_SomeE:
  assumes "(case deref (files u) fl of None \<Rightarrow> None
            | Some f \<Rightarrow> for_each (sections f) (sweep_section ctx) u) = Some u'"
  obtains f where "deref (files u) fl = Some f"
    and "for_each (sections f) (sweep_section ctx) u = Some u'"
  using assms by (cases "deref (files u) fl") auto

lemma sweep_body_inv:
  assumes "(case deref (files u) fl of None \<Rightarrow> None
            | Some f \<Rightarrow> for_each (sections f) (sweep_section ctx) u) = Some u'"
    and "sweep_inv ctx (set (ctx_sections ctx h)) h u" and "fl \<in> set (objs ctx)"
  shows "sweep_inv ctx (set (ctx_sections ctx h)) h u'"
proof -
  from assms(1) obtain f where f: "deref (files u) fl = Some f"
    and loop: "for_each (sections f) (sweep_section ctx) u = Some u'"
    by (rule sweep_body_SomeE)
  have f': "deref (files h) fl = Some f" using f sweep_inv_files [OF assms(2)] by simp
  show ?thesis
    using loop assms(2)
  proof (rule for_each_inv)
    fix isec v v'
    assume "isec \<in> set (sections f)" and "sweep_inv ctx (set (ctx_sections ctx h)) h v"
      and "sweep_section ctx isec v = Some v'"
    moreover from this(1) have "\<forall>p. isec = Some p \<longrightarrow> p \<in> set (ctx_sections ctx h)"
      using assms(3) f' by (auto simp: ctx_sections_iff)
    ultimately show "sweep_inv ctx (set (ctx_sections ctx h)) h v'"
      using sweep_section_inv by blast
  qed
qed

lemma sweep_sweep_inv:
  assumes "sweep ctx h = Some h'"
  shows "sweep_inv ctx (set (ctx_sections ctx h)) h h'"
  using assms unfolding sweep_def
  by (rule for_each_inv [where I = "sweep_inv ctx (set (ctx_sections ctx h)) h"])
     (rule sweep_inv_refl, erule (2) sweep_body_inv)

lemma sweep_swept:
  assumes "sweep ctx h = Some h'" and "p \<in> set (ctx_sections ctx h)"
  shows "swept h' p"
proof -
  let ?L = "set (ctx_sections ctx h)"
  let ?Q = "\<lambda>fl u. \<forall>q\<in>set (file_sections h fl). swept u q"
  have "sweep_inv ctx ?L h h' \<and> (\<forall>fl\<in>set (objs ctx). ?Q fl h')"
    using assms(1) unfolding sweep_def
  proof (rule for_each_all_inv [where I = "sweep_inv ctx ?L h" and Q = ?Q])
    show "sweep_inv ctx ?L h h" by (rule sweep_inv_refl)
  next
    fix fl u u'
    assume fl: "fl \<in> set (objs ctx)" and inv: "sweep_inv ctx ?L h u"
      and step: "(case deref (files u) fl of None \<Rightarrow> None
                | Some f \<Rightarrow> for_each (sections f) (sweep_section ctx) u) = Some u'"
    from step obtain f where f: "deref (files u) fl = Some f"
      and loop: "for_each (sections f) (sweep_section ctx) u = Some u'"
      by (rule sweep_body_SomeE)
    have f': "deref (files h) fl = Some f" using f sweep_inv_files [OF inv] by simp
    have "?Q fl u'"
      using for_each_sweep_section_swept(2) [OF loop] f' by (auto simp: file_sections_iff)
    then show "sweep_inv ctx ?L h u' \<and> ?Q fl u'"
      using sweep_body_inv [OF step inv fl] by simp
  next
    fix fl fl' u u'
    assume "?Q fl u" and step: "(case deref (files u) fl' of None \<Rightarrow> None
                | Some f \<Rightarrow> for_each (sections f) (sweep_section ctx) u) = Some u'"
    from step obtain f where "deref (files u) fl' = Some f"
      and loop: "for_each (sections f) (sweep_section ctx) u = Some u'"
      by (rule sweep_body_SomeE)
    show "?Q fl u'"
      using \<open>?Q fl u\<close> for_each_sweep_section_swept(1) [OF loop] by blast
  qed
  then show ?thesis using assms(2) by (auto simp: ctx_sections_def)
qed

text \<open>What \<open>sweep\<close> does, in one statement.\<close>

lemma sweep_effect:
  assumes "sweep ctx h = Some h'"
  shows "same_graph h h'" and "visited h' = visited h" and "frags h' = frags h"
    and "alive h' = alive h - (set (ctx_sections ctx h) - visited h)"
    and "\<exists>ks. distinct ks \<and> set ks = (alive h \<inter> set (ctx_sections ctx h)) - visited h \<and>
           counter h' = counter h + length ks \<and>
           out h' = out h @ (if arg_print_gc_sections ctx
                             then map RemovingUnusedSection ks else [])"
proof -
  let ?L = "set (ctx_sections ctx h)"
  from sweep_sweep_inv [OF assms] obtain ks where ks: "distinct ks" "set ks = alive h - alive h'"
      "set ks \<subseteq> ?L - visited h" "counter h' = counter h + length ks"
      "out h' = out h @ (if arg_print_gc_sections ctx then map RemovingUnusedSection ks else [])"
    and inv: "same_graph h h'" "visited h' = visited h" "frags h' = frags h" "alive h' \<subseteq> alive h"
    unfolding sweep_inv_def by blast
  show "same_graph h h'" "visited h' = visited h" "frags h' = frags h"
    using inv by simp_all
  have dn: "p \<in> alive h' \<Longrightarrow> p \<in> ?L \<Longrightarrow> p \<in> visited h" for p
    using sweep_swept [OF assms, of p] inv(2) by (simp add: swept_def)
  have eq: "alive h - alive h' = (alive h \<inter> ?L) - visited h"
    using ks(2,3) dn by auto
  show "alive h' = alive h - (?L - visited h)"
    using eq inv(4) by auto
  show "\<exists>ks. distinct ks \<and> set ks = (alive h \<inter> ?L) - visited h \<and>
           counter h' = counter h + length ks \<and>
           out h' = out h @ (if arg_print_gc_sections ctx
                             then map RemovingUnusedSection ks else [])"
    using ks eq by auto
qed

section \<open>What the root collector visits\<close>

text \<open>
  \<open>nonalloc_sections\<close> are the sections of the input without \<^verbatim>\<open>SHF_ALLOC\<close>: the first loop of
  \<open>collect_root_set\<close> sets their \<^verbatim>\<open>is_visited\<close>. \<open>collect_acc\<close> accounts for every flag the
  root collector sets: such a section, or a section added to the root vector, which is alive.
\<close>

definition lacks_alloc :: "heap \<Rightarrow> isec_ptr \<Rightarrow> bool" where
  "lacks_alloc h p \<longleftrightarrow> sh_flags (shdr (isecs h ! p)) AND SHF_ALLOC = 0"

definition nonalloc_sections :: "Context \<Rightarrow> heap \<Rightarrow> isec_ptr set" where
  "nonalloc_sections ctx h = {p \<in> set (ctx_sections ctx h). lacks_alloc h p}"

definition collect_acc ::
  "isec_ptr set \<Rightarrow> heap \<times> isec_ptr list \<Rightarrow> heap \<times> isec_ptr list \<Rightarrow> bool" where
  "collect_acc NA st st' \<longleftrightarrow>
     alive (fst st') = alive (fst st) \<and> set (snd st) \<subseteq> set (snd st') \<and>
     visited (fst st') \<subseteq> visited (fst st) \<union> NA \<union> set (snd st') \<and>
     set (snd st') \<subseteq> set (snd st) \<union> alive (fst st)"

lemma collect_acc_refl [simp]: "collect_acc NA st st"
  by (auto simp: collect_acc_def)

lemma collect_acc_trans:
  assumes "collect_acc NA s1 s2" and "collect_acc NA s2 s3"
  shows "collect_acc NA s1 s3"
  using assms unfolding collect_acc_def by blast

lemma for_each_collect_acc:
  assumes "for_each xs f st = Some st'"
    and "\<And>x u u'. x \<in> set xs \<Longrightarrow> f x u = Some u' \<Longrightarrow> collect_acc NA u u'"
  shows "collect_acc NA st st'"
  using assms(1) by (rule for_each_rel) (simp, erule (1) collect_acc_trans, erule (1) assms(2))

lemma for_each_files_collect_acc:
  assumes "for_each fs (\<lambda>file (h, roots). case deref (files h) file of
                None \<Rightarrow> None | Some f \<Rightarrow> g file f (h, roots)) st = Some st'"
    and "\<And>fl f u u'. g fl f u = Some u' \<Longrightarrow> collect_acc NA u u'"
  shows "collect_acc NA st st'"
  using assms(1)
proof (rule for_each_collect_acc)
  fix fl u u'
  assume a: "(case u of (h, roots) \<Rightarrow> case deref (files h) fl of
                None \<Rightarrow> None | Some f \<Rightarrow> g fl f (h, roots)) = Some u'"
  obtain h roots where u: "u = (h, roots)" by (cases u)
  from a obtain f where "g fl f u = Some u'"
    by (auto simp: u split: option.splits)
  then show "collect_acc NA u u'" by (rule assms(2))
qed

lemma enqueue_section_acc:
  assumes "enqueue_section isec st = Some st'"
  shows "collect_acc NA st st'"
proof -
  obtain h roots where st: "st = (h, roots)" by (cases st)
  from assms obtain accepted h' where m: "mark_section isec h = Some (accepted, h')"
    and st': "st' = (h', roots @ (case isec of Some p \<Rightarrow> if accepted then [p] else [] | None \<Rightarrow> []))"
    unfolding st by (rule enqueue_section_SomeE)
  note e = mark_section_effect [OF m]
  show ?thesis
  proof (cases isec)
    case None
    then show ?thesis using e(2,4) by (auto simp: st st' collect_acc_def)
  next
    case (Some p)
    show ?thesis
    proof (cases accepted)
      case True
      then have "p \<in> alive h" using e(1) Some by simp
      then show ?thesis using e(2,4) True Some by (auto simp: st st' collect_acc_def)
    next
      case False
      then have "p \<in> alive h \<longrightarrow> p \<in> visited h" using e(1) Some by simp
      then show ?thesis using e(2,4) False Some by (auto simp: st st' collect_acc_def)
    qed
  qed
qed

lemma enqueue_symbol_acc:
  assumes "enqueue_symbol sp st = Some st'"
  shows "collect_acc NA st st'"
proof -
  obtain h roots where st: "st = (h, roots)" by (cases st)
  from assms [unfolded st] show ?thesis
  proof (cases rule: enqueue_symbol_SomeE)
    case null
    then show ?thesis by (simp add: st)
  next
    case (fragment sy fr h')
    note e = set_frag_alive_effect [OF fragment(3)]
    have "visited h' = visited h" "alive h' = alive h"
      using e(4) by (rule visited_cong, rule alive_cong)
    then show ?thesis
      using fragment(4) by (auto simp: st collect_acc_def)
  next
    case (isection sy)
    then show ?thesis
      unfolding st using enqueue_section_acc by blast
  qed
qed

lemma collect_exported_acc:
  assumes "collect_exported ctx st = Some st'"
  shows "collect_acc NA st st'"
  using assms unfolding collect_exported_def
proof (rule for_each_files_collect_acc [where g = "\<lambda>file f. for_each (symbols f) (\<lambda>sy st.
             if sym_file sy = Some file \<and> is_exported sy then enqueue_symbol (Some sy) st
             else Some st)"])
  fix fl f u u'
  assume "for_each (symbols f) (\<lambda>sy st.
             if sym_file sy = Some fl \<and> is_exported sy then enqueue_symbol (Some sy) st
             else Some st) u = Some u'"
  then show "collect_acc NA u u'"
  proof (rule for_each_collect_acc)
    fix sy v v'
    assume "(if sym_file sy = Some fl \<and> is_exported sy then enqueue_symbol (Some sy) v
             else Some v) = Some v'"
    then have "enqueue_symbol (Some sy) v = Some v' \<or> v' = v"
      by (auto split: if_splits)
    then show "collect_acc NA v v'"
    proof
      assume "enqueue_symbol (Some sy) v = Some v'"
      then show ?thesis by (rule enqueue_symbol_acc)
    next
      assume "v' = v"
      then show ?thesis by simp
    qed
  qed
qed

lemma collect_cies_acc:
  assumes "collect_cies ctx st = Some st'"
  shows "collect_acc NA st st'"
  using assms unfolding collect_cies_def
proof (rule for_each_files_collect_acc [where g = "\<lambda>file f. for_each (cies f) (\<lambda>cie.
             for_each (cie_rels cie) (\<lambda>rel. enqueue_section (input_section (sym rel))))"])
  fix fl f u u'
  assume "for_each (cies f) (\<lambda>cie.
             for_each (cie_rels cie) (\<lambda>rel. enqueue_section (input_section (sym rel)))) u = Some u'"
  then show "collect_acc NA u u'"
  proof (rule for_each_collect_acc)
    fix cie v v'
    assume "for_each (cie_rels cie) (\<lambda>rel. enqueue_section (input_section (sym rel))) v = Some v'"
    then show "collect_acc NA v v'"
      by (rule for_each_collect_acc) (erule enqueue_section_acc)
  qed
qed

lemma lacks_alloc_cong:
  "same_graph h h' \<Longrightarrow> p < length (isecs h) \<Longrightarrow> lacks_alloc h' p = lacks_alloc h p"
  by (simp add: lacks_alloc_def same_graph_isec(2))

lemma collect_ext_same_graph: "collect_ext st st' \<Longrightarrow> same_graph (fst st) (fst st')"
  by (simp add: collect_ext_def flags_mono_def)

lemma collect_ext_visited: "collect_ext st st' \<Longrightarrow> visited (fst st) \<subseteq> visited (fst st')"
  by (simp add: collect_ext_def flags_mono_def)

text \<open>One slot of \<^verbatim>\<open>file->sections\<close> in the first loop of the root collector.\<close>

lemma collect_section_acc:
  assumes "collect_section isec st = Some st'"
    and "\<forall>p. isec = Some p \<longrightarrow> lacks_alloc (fst st) p \<longrightarrow> p \<in> NA"
  shows "collect_acc NA st st'"
proof -
  obtain h roots where st: "st = (h, roots)" by (cases st)
  show "collect_acc NA st st'"
  proof (cases isec)
    case None
    then show ?thesis using assms(1) by (simp add: collect_section_def st)
  next
    case (Some p)
    then obtain s where s: "deref (isecs h) p = Some s"
      using assms(1) by (auto simp: collect_section_def st split: option.splits)
    then have p: "p < length (isecs h)" and s': "s = isecs h ! p"
      by (auto simp: deref_def split: if_splits)
    define h1 where "h1 = (if sh_flags (shdr s) AND SHF_ALLOC = 0 then set_is_visited p h else h)"
    have 1: "collect_acc NA (h, roots) (h1, roots)"
    proof (cases "sh_flags (shdr s) AND SHF_ALLOC = 0")
      case True
      then have "p \<in> NA" using assms(2) Some s' by (simp add: st lacks_alloc_def)
      then show ?thesis
        using True set_is_visited_effect(2,3) [OF p] by (auto simp: h1_def collect_acc_def)
    next
      case False
      then show ?thesis by (simp add: h1_def)
    qed
    have "enqueue_section (Some p) (h1, roots) = Some st' \<or> st' = (h1, roots)"
      using assms(1) Some s by (auto simp: collect_section_def st h1_def Let_def split: if_splits)
    then have "collect_acc NA (h1, roots) st'"
    proof
      assume "enqueue_section (Some p) (h1, roots) = Some st'"
      then show ?thesis by (rule enqueue_section_acc)
    next
      assume "st' = (h1, roots)"
      then show ?thesis by simp
    qed
    then show ?thesis
      unfolding st using 1 collect_acc_trans by blast
  qed
qed

lemma collect_section_visits:
  assumes "collect_section isec st = Some st'"
  shows "\<forall>p. isec = Some p \<longrightarrow> p < length (isecs (fst st)) \<and>
           (lacks_alloc (fst st) p \<longrightarrow> p \<in> visited (fst st'))"
proof -
  obtain h roots where st: "st = (h, roots)" by (cases st)
  show ?thesis
  proof (intro allI impI)
    fix p
    assume Some: "isec = Some p"
    then obtain s where s: "deref (isecs h) p = Some s"
      using assms(1) by (auto simp: collect_section_def st split: option.splits)
    then have p: "p < length (isecs h)" and s': "s = isecs h ! p"
      by (auto simp: deref_def split: if_splits)
    define h1 where "h1 = (if sh_flags (shdr s) AND SHF_ALLOC = 0 then set_is_visited p h else h)"
    have "enqueue_section (Some p) (h1, roots) = Some st' \<or> st' = (h1, roots)"
      using assms(1) Some s by (auto simp: collect_section_def st h1_def Let_def split: if_splits)
    then have "collect_ext (h1, roots) st'"
    proof
      assume "enqueue_section (Some p) (h1, roots) = Some st'"
      then show ?thesis by (rule enqueue_section_ext)
    next
      assume "st' = (h1, roots)"
      then show ?thesis by simp
    qed
    then have mono: "visited h1 \<subseteq> visited (fst st')"
      using collect_ext_visited by fastforce
    have "lacks_alloc h p \<longrightarrow> p \<in> visited h1"
      using set_is_visited_effect(2) [OF p] s' by (simp add: h1_def lacks_alloc_def)
    then show "p < length (isecs (fst st)) \<and> (lacks_alloc (fst st) p \<longrightarrow> p \<in> visited (fst st'))"
      using p mono by (auto simp: st)
  qed
qed

definition collect_inv ::
  "Context \<Rightarrow> heap \<times> isec_ptr list \<Rightarrow> heap \<times> isec_ptr list \<Rightarrow> bool" where
  "collect_inv ctx st u \<longleftrightarrow>
     collect_ext st u \<and> collect_acc (nonalloc_sections ctx (fst st)) st u"

lemma collect_inv_refl: "collect_inv ctx st st"
  by (simp add: collect_inv_def)

lemma collect_inv_files: "collect_inv ctx st u \<Longrightarrow> files (fst u) = files (fst st)"
  using collect_ext_same_graph same_graph_length(3) unfolding collect_inv_def by blast

lemma collect_section_inv:
  assumes "collect_section isec v = Some v'" and "collect_inv ctx st v"
    and "\<forall>p. isec = Some p \<longrightarrow> p \<in> set (ctx_sections ctx (fst st))"
  shows "collect_inv ctx st v'"
    and "\<forall>p. isec = Some p \<longrightarrow> lacks_alloc (fst st) p \<longrightarrow> p \<in> visited (fst v')"
proof -
  let ?NA = "nonalloc_sections ctx (fst st)"
  have sg: "same_graph (fst st) (fst v)"
    using assms(2) collect_ext_same_graph unfolding collect_inv_def by blast
  have len: "length (isecs (fst v)) = length (isecs (fst st))"
    using sg by (rule same_graph_length)
  note vis = collect_section_visits [OF assms(1)]
  have la: "lacks_alloc (fst v) p = lacks_alloc (fst st) p" if "isec = Some p" for p
    using that vis len lacks_alloc_cong [OF sg] by simp
  have "\<forall>p. isec = Some p \<longrightarrow> lacks_alloc (fst v) p \<longrightarrow> p \<in> ?NA"
    using la assms(3) by (simp add: nonalloc_sections_def)
  then have "collect_acc ?NA v v'"
    using assms(1) collect_section_acc by blast
  moreover have "collect_ext v v'"
    using assms(1) by (rule collect_section_ext)
  ultimately show "collect_inv ctx st v'"
    using assms(2) collect_ext_trans collect_acc_trans unfolding collect_inv_def by blast
  show "\<forall>p. isec = Some p \<longrightarrow> lacks_alloc (fst st) p \<longrightarrow> p \<in> visited (fst v')"
    using vis la by blast
qed

lemma collect_section_keeps:
  assumes "collect_section isec v = Some v'" and "p \<in> visited (fst v)"
  shows "p \<in> visited (fst v')"
  using collect_ext_visited [OF collect_section_ext [OF assms(1)]] assms(2) by blast

lemma collect_sections_body_SomeE:
  assumes "(case u of (h, roots) \<Rightarrow> case deref (files h) fl of
              None \<Rightarrow> None | Some f \<Rightarrow> for_each (sections f) collect_section (h, roots)) = Some u'"
  obtains f where "deref (files (fst u)) fl = Some f"
    and "for_each (sections f) collect_section u = Some u'"
  using assms by (cases u; cases "deref (files (fst u)) fl") auto

lemma collect_sections_body_inv:
  assumes "deref (files (fst u)) fl = Some f"
    and "for_each (sections f) collect_section u = Some u'"
    and "collect_inv ctx st u" and "fl \<in> set (objs ctx)"
  shows "collect_inv ctx st u' \<and>
         (\<forall>isec\<in>set (sections f). \<forall>p. isec = Some p \<longrightarrow> lacks_alloc (fst st) p
            \<longrightarrow> p \<in> visited (fst u'))"
  using assms(2,3)
proof (rule for_each_all_inv [where I = "collect_inv ctx st"
      and Q = "\<lambda>isec u. \<forall>p. isec = Some p \<longrightarrow> lacks_alloc (fst st) p \<longrightarrow> p \<in> visited (fst u)"])
  have f': "deref (files (fst st)) fl = Some f"
    using assms(1) collect_inv_files [OF assms(3)] by simp
  fix isec v v'
  assume isec: "isec \<in> set (sections f)" and inv: "collect_inv ctx st v"
    and step: "collect_section isec v = Some v'"
  have "\<forall>p. isec = Some p \<longrightarrow> p \<in> set (ctx_sections ctx (fst st))"
    using isec assms(4) f' by (auto simp: ctx_sections_iff)
  then show "collect_inv ctx st v' \<and>
      (\<forall>p. isec = Some p \<longrightarrow> lacks_alloc (fst st) p \<longrightarrow> p \<in> visited (fst v'))"
    using collect_section_inv [OF step inv] by blast
next
  fix x y v v'
  assume "\<forall>p. x = Some p \<longrightarrow> lacks_alloc (fst st) p \<longrightarrow> p \<in> visited (fst v)"
    and "collect_section y v = Some v'"
  then show "\<forall>p. x = Some p \<longrightarrow> lacks_alloc (fst st) p \<longrightarrow> p \<in> visited (fst v')"
    using collect_section_keeps by blast
qed

lemma collect_sections_effect:
  assumes "collect_sections ctx st = Some st'"
  shows "collect_acc (nonalloc_sections ctx (fst st)) st st'"
    and "nonalloc_sections ctx (fst st) \<subseteq> visited (fst st')"
proof -
  let ?Q = "\<lambda>fl u. \<forall>p\<in>set (file_sections (fst st) fl). lacks_alloc (fst st) p
              \<longrightarrow> p \<in> visited (fst u)"
  have "collect_inv ctx st st' \<and> (\<forall>fl\<in>set (objs ctx). ?Q fl st')"
    using assms unfolding collect_sections_def
  proof (rule for_each_all_inv [where I = "collect_inv ctx st" and Q = ?Q])
    show "collect_inv ctx st st" by (rule collect_inv_refl)
  next
    fix fl u u'
    assume fl: "fl \<in> set (objs ctx)" and inv: "collect_inv ctx st u"
      and step: "(case u of (h, roots) \<Rightarrow> case deref (files h) fl of
              None \<Rightarrow> None | Some f \<Rightarrow> for_each (sections f) collect_section (h, roots)) = Some u'"
    from step obtain f where f: "deref (files (fst u)) fl = Some f"
      and loop: "for_each (sections f) collect_section u = Some u'"
      by (rule collect_sections_body_SomeE)
    have f': "deref (files (fst st)) fl = Some f"
      using f collect_inv_files [OF inv] by simp
    note b = collect_sections_body_inv [OF f loop inv fl]
    have "?Q fl u'"
      using b f' by (auto simp: file_sections_iff)
    then show "collect_inv ctx st u' \<and> ?Q fl u'" using b by blast
  next
    fix fl fl' u u'
    assume q: "?Q fl u" and step: "(case u of (h, roots) \<Rightarrow> case deref (files h) fl' of
              None \<Rightarrow> None | Some f \<Rightarrow> for_each (sections f) collect_section (h, roots)) = Some u'"
    from step obtain f where f: "deref (files (fst u)) fl' = Some f"
      and loop: "for_each (sections f) collect_section u = Some u'"
      by (rule collect_sections_body_SomeE)
    have "collect_ext u u'"
      using loop by (rule for_each_collect_ext) (erule collect_section_ext)
    then have "visited (fst u) \<subseteq> visited (fst u')" by (rule collect_ext_visited)
    then show "?Q fl u'" using q by blast
  qed
  then show "collect_acc (nonalloc_sections ctx (fst st)) st st'"
    and "nonalloc_sections ctx (fst st) \<subseteq> visited (fst st')"
    by (auto simp: collect_inv_def nonalloc_sections_def ctx_sections_def)
qed

text \<open>What \<open>collect_root_set\<close> does to the flags, and what the root vector holds.\<close>

lemma collect_root_set_effect:
  assumes "collect_root_set ctx h = Some (h1, roots)"
  shows "flags_mono h h1" and "distinct roots"
    and "set roots \<subseteq> alive h - visited h"
    and "visited h1 = visited h \<union> nonalloc_sections ctx h \<union> set roots"
proof -
  let ?NA = "nonalloc_sections ctx h"
  from assms obtain st1 st2 st3 st4 where 1: "collect_sections ctx (h, []) = Some st1"
    and 2: "collect_exported ctx st1 = Some st2"
    and 3: "enqueue_symbol (intern ctx (arg_entry ctx)) st2 = Some st3"
    and 4: "for_each (arg_undefined ctx) (\<lambda>key. enqueue_symbol (intern ctx key)) st3 = Some st4"
    and 5: "collect_cies ctx st4 = Some (h1, roots)"
    by (rule collect_root_set_SomeE)
  have a4: "collect_acc ?NA st3 st4"
    using 4 by (rule for_each_collect_acc) (erule enqueue_symbol_acc)
  have e4: "collect_ext st3 st4"
    using 4 by (rule for_each_collect_ext) (erule enqueue_symbol_ext)
  have a1: "collect_acc ?NA (h, []) st1" and na: "?NA \<subseteq> visited (fst st1)"
    using collect_sections_effect [OF 1] by simp_all
  have "collect_acc ?NA (h, []) st2"
    using a1 collect_exported_acc [OF 2] by (rule collect_acc_trans)
  then have "collect_acc ?NA (h, []) st3"
    using enqueue_symbol_acc [OF 3] by (rule collect_acc_trans)
  then have "collect_acc ?NA (h, []) st4"
    using a4 by (rule collect_acc_trans)
  then have acc: "collect_acc ?NA (h, []) (h1, roots)"
    using collect_cies_acc [OF 5] by (rule collect_acc_trans)
  have ext: "collect_ext (h, []) (h1, roots)"
    using assms by (rule collect_root_set_ext)
  have "collect_ext st1 st3"
    using collect_exported_ext [OF 2] enqueue_symbol_ext [OF 3] by (rule collect_ext_trans)
  then have "collect_ext st1 st4"
    using e4 by (rule collect_ext_trans)
  then have later: "collect_ext st1 (h1, roots)"
    using collect_cies_ext [OF 5] by (rule collect_ext_trans)
  show "flags_mono h h1" and "distinct roots"
    using ext by (simp_all add: collect_ext_def)
  have r: "set roots \<subseteq> visited h1 - visited h"
    using ext by (simp add: collect_ext_def)
  have "set roots \<subseteq> alive h"
    using acc by (simp add: collect_acc_def)
  then show "set roots \<subseteq> alive h - visited h"
    using r by blast
  have "?NA \<subseteq> visited h1"
    using na collect_ext_visited [OF later] by auto
  moreover have "visited h \<subseteq> visited h1"
    using collect_ext_visited [OF ext] by simp
  moreover have "visited h1 \<subseteq> visited h \<union> ?NA \<union> set roots"
    using acc by (simp add: collect_acc_def)
  ultimately show "visited h1 = visited h \<union> ?NA \<union> set roots"
    using r by blast
qed

section \<open>The reference graph\<close>

text \<open>
  The edges that \<open>visit\<close> follows out of a section, read off the heap: the sections that
  the relocations \<^verbatim>\<open>rels[1..]\<close> of its FDEs and its own relocations refer to (a relocation
  whose symbol has a fragment refers to no section), and the fragments that its fragment
  references and its relocations refer to.
\<close>

definition fde_targets :: "FdeRecord \<Rightarrow> isec_ptr list" where
  "fde_targets fde =
     concat (map (\<lambda>rel. case input_section (sym rel) of None \<Rightarrow> [] | Some t \<Rightarrow> [t])
       (tl (fde_rels fde)))"

definition reloc_section :: "heap \<Rightarrow> InputSection \<Rightarrow> ElfRela \<Rightarrow> isec_ptr list" where
  "reloc_section h s rel =
     (case rel_symbol h s rel of
        None \<Rightarrow> []
      | Some sy \<Rightarrow>
          (case frag sy of
             Some fr \<Rightarrow> []
           | None \<Rightarrow> (case input_section sy of None \<Rightarrow> [] | Some t \<Rightarrow> [t])))"

definition reloc_fragment :: "heap \<Rightarrow> InputSection \<Rightarrow> ElfRela \<Rightarrow> frag_ptr list" where
  "reloc_fragment h s rel =
     (case rel_symbol h s rel of
        None \<Rightarrow> []
      | Some sy \<Rightarrow> (case frag sy of Some fr \<Rightarrow> [fr] | None \<Rightarrow> []))"

definition section_edges :: "heap \<Rightarrow> isec_ptr \<Rightarrow> isec_ptr list" where
  "section_edges h p =
     (case deref (isecs h) p of
        None \<Rightarrow> []
      | Some s \<Rightarrow> concat (map fde_targets (fdes s)) @ concat (map (reloc_section h s) (rels s)))"

definition fragment_edges :: "heap \<Rightarrow> isec_ptr \<Rightarrow> frag_ptr list" where
  "fragment_edges h p =
     (case deref (isecs h) p of
        None \<Rightarrow> []
      | Some s \<Rightarrow> map ref_frag (rel_fragments s) @ concat (map (reloc_fragment h s) (rels s)))"

text \<open>
  An edge that the marker can take: to a section that is alive and not in the set \<open>B\<close> of
  sections that were visited before.
\<close>

definition reach_rel :: "heap \<Rightarrow> isec_ptr set \<Rightarrow> (isec_ptr \<times> isec_ptr) set" where
  "reach_rel h B = {(a, b). b \<in> set (section_edges h a) \<and> b \<in> alive h \<and> b \<notin> B}"

definition frag_reach :: "heap \<Rightarrow> isec_ptr set \<Rightarrow> frag_ptr set" where
  "frag_reach h S = (\<Union>p\<in>S. set (fragment_edges h p))"

text \<open>A section is closed when the marker has followed all its edges.\<close>

definition closed :: "heap \<Rightarrow> isec_ptr \<Rightarrow> bool" where
  "closed h p \<longleftrightarrow>
     set (section_edges h p) \<inter> alive h \<subseteq> visited h \<and>
     set (fragment_edges h p) \<subseteq> alive_frags h"

lemma rel_symbol_cong: "files h' = files h \<Longrightarrow> rel_symbol h' s rel = rel_symbol h s rel"
  by (simp add: rel_symbol_def)

lemma reloc_cong:
  assumes "files h' = files h" and "isec_file s' = isec_file s"
  shows "reloc_section h' s' = reloc_section h s" and "reloc_fragment h' s' = reloc_fragment h s"
  using assms by (auto simp: reloc_section_def reloc_fragment_def rel_symbol_def fun_eq_iff)

lemma deref_isecs_cong:
  assumes "same_graph h h'"
  shows "(deref (isecs h') p = None) = (deref (isecs h) p = None)"
  using same_graph_length(1) [OF assms] by (simp add: deref_def)

lemma section_edges_cong:
  assumes "same_graph h h'"
  shows "section_edges h' p = section_edges h p"
proof (cases "p < length (isecs h)")
  case True
  have f: "files h' = files h" using assms by (rule same_graph_length)
  have len: "length (isecs h') = length (isecs h)" using assms by (rule same_graph_length)
  have i: "isec_file (isecs h' ! p) = isec_file (isecs h ! p)"
    and "fdes (isecs h' ! p) = fdes (isecs h ! p)" "rels (isecs h' ! p) = rels (isecs h ! p)"
    using same_graph_isec [OF assms True] by simp_all
  then show ?thesis
    using True len by (simp add: section_edges_def deref_def reloc_cong(1) [OF f i])
next
  case False
  then show ?thesis
    using same_graph_length(1) [OF assms] by (simp add: section_edges_def deref_def)
qed

lemma fragment_edges_cong:
  assumes "same_graph h h'"
  shows "fragment_edges h' p = fragment_edges h p"
proof (cases "p < length (isecs h)")
  case True
  have f: "files h' = files h" using assms by (rule same_graph_length)
  have len: "length (isecs h') = length (isecs h)" using assms by (rule same_graph_length)
  have i: "isec_file (isecs h' ! p) = isec_file (isecs h ! p)"
    and "rel_fragments (isecs h' ! p) = rel_fragments (isecs h ! p)"
    "rels (isecs h' ! p) = rels (isecs h ! p)"
    using same_graph_isec [OF assms True] by simp_all
  then show ?thesis
    using True len by (simp add: fragment_edges_def deref_def reloc_cong(2) [OF f i])
next
  case False
  then show ?thesis
    using same_graph_length(1) [OF assms] by (simp add: fragment_edges_def deref_def)
qed

lemma frag_reach_cong: "same_graph h h' \<Longrightarrow> frag_reach h' S = frag_reach h S"
  by (simp add: frag_reach_def fragment_edges_cong)

lemma frag_reach_mono: "S \<subseteq> S' \<Longrightarrow> frag_reach h S \<subseteq> frag_reach h S'"
  by (auto simp: frag_reach_def)

lemma reach_rel_mono:
  assumes "same_graph h h'" and "alive h' = alive h" and "B \<subseteq> B'"
  shows "reach_rel h' B' \<subseteq> reach_rel h B"
  using assms(2,3) by (auto simp: reach_rel_def section_edges_cong [OF assms(1)])

lemma closed_mono:
  assumes "closed h p" and "heap_ext h h'"
  shows "closed h' p"
proof -
  have sg: "same_graph h h'" and a: "alive h' = alive h" and v: "visited h \<subseteq> visited h'"
    and f: "alive_frags h \<subseteq> alive_frags h'"
    using assms(2) by (simp_all add: heap_ext_def)
  show ?thesis
    using assms(1) a v f
    unfolding closed_def section_edges_cong [OF sg] fragment_edges_cong [OF sg] by blast
qed

lemma section_edges_fde:
  assumes "deref (isecs h) p = Some s" and "fde \<in> set (fdes s)" and "t \<in> set (fde_targets fde)"
  shows "t \<in> set (section_edges h p)"
  using assms by (auto simp: section_edges_def)

lemma section_edges_reloc:
  assumes "deref (isecs h) p = Some s" and "rel \<in> set (rels s)"
    and "t \<in> set (reloc_section h s rel)"
  shows "t \<in> set (section_edges h p)"
  using assms by (auto simp: section_edges_def)

lemma fragment_edges_ref:
  assumes "deref (isecs h) p = Some s" and "ref \<in> set (rel_fragments s)"
  shows "ref_frag ref \<in> set (fragment_edges h p)"
  using assms by (auto simp: fragment_edges_def)

lemma fragment_edges_reloc:
  assumes "deref (isecs h) p = Some s" and "rel \<in> set (rels s)"
    and "fr \<in> set (reloc_fragment h s rel)"
  shows "fr \<in> set (fragment_edges h p)"
  using assms by (auto simp: fragment_edges_def)

lemma closedI:
  assumes "deref (isecs h) p = Some s"
    and "\<forall>fde\<in>set (fdes s). set (fde_targets fde) \<inter> alive h \<subseteq> visited h"
    and "\<forall>rel\<in>set (rels s). set (reloc_section h s rel) \<inter> alive h \<subseteq> visited h"
    and "\<forall>ref\<in>set (rel_fragments s). ref_frag ref \<in> alive_frags h"
    and "\<forall>rel\<in>set (rels s). set (reloc_fragment h s rel) \<subseteq> alive_frags h"
  shows "closed h p"
  using assms unfolding closed_def section_edges_def fragment_edges_def by auto

lemma visit_rel_fragments_effect:
  assumes "visit_rel_fragments refs h = Some h'"
  shows "isecs h' = isecs h" and "alive_frags h' = alive_frags h \<union> ref_frag ` set refs"
proof -
  have "isecs h' = isecs h \<and> alive_frags h' = alive_frags h \<union> ref_frag ` set refs"
    using assms unfolding visit_rel_fragments_def
  proof (induction refs arbitrary: h)
    case Nil
    then show ?case by simp
  next
    case (Cons r rs)
    from Cons.prems obtain h1 where 1: "set_frag_alive (ref_frag r) h = Some h1"
      and 2: "for_each rs (\<lambda>ref. set_frag_alive (ref_frag ref)) h1 = Some h'"
      by (auto split: option.splits)
    note e = set_frag_alive_effect [OF 1]
    show ?case
      using Cons.IH [OF 2] e(3,4) by auto
  qed
  then show "isecs h' = isecs h" and "alive_frags h' = alive_frags h \<union> ref_frag ` set refs"
    by simp_all
qed

text \<open>
  The second loop of \<open>visit\<close> hands to the feeder exactly the sections it sets
  \<^verbatim>\<open>is_visited\<close> of, and they are among the targets \<open>T\<close>.
\<close>

definition fed_ext ::
  "isec_ptr set \<Rightarrow> heap \<times> isec_ptr list \<Rightarrow> heap \<times> isec_ptr list \<Rightarrow> bool" where
  "fed_ext T st st' \<longleftrightarrow>
     heap_ext (fst st) (fst st') \<and> frags (fst st') = frags (fst st) \<and>
     (\<exists>new. snd st' = snd st @ new \<and> distinct new \<and>
        set new = visited (fst st') - visited (fst st) \<and> set new \<subseteq> T)"

lemma fed_ext_refl [simp]: "fed_ext T st st"
  by (simp add: fed_ext_def)

lemma fed_ext_trans:
  assumes "fed_ext T s1 s2" and "fed_ext T s2 s3"
  shows "fed_ext T s1 s3"
proof -
  from assms(1) obtain n1 where n1: "snd s2 = snd s1 @ n1" "distinct n1"
      "set n1 = visited (fst s2) - visited (fst s1)" "set n1 \<subseteq> T"
    and e1: "heap_ext (fst s1) (fst s2)" "frags (fst s2) = frags (fst s1)"
    unfolding fed_ext_def by blast
  from assms(2) obtain n2 where n2: "snd s3 = snd s2 @ n2" "distinct n2"
      "set n2 = visited (fst s3) - visited (fst s2)" "set n2 \<subseteq> T"
    and e2: "heap_ext (fst s2) (fst s3)" "frags (fst s3) = frags (fst s2)"
    unfolding fed_ext_def by blast
  have v12: "visited (fst s1) \<subseteq> visited (fst s2)" and v23: "visited (fst s2) \<subseteq> visited (fst s3)"
    using e1(1) e2(1) by (auto simp: heap_ext_def)
  have "snd s3 = snd s1 @ (n1 @ n2)" using n1(1) n2(1) by simp
  moreover have "distinct (n1 @ n2)" using n1(2,3) n2(2,3) by auto
  moreover have "set (n1 @ n2) = visited (fst s3) - visited (fst s1)"
    using n1(3) n2(3) v12 v23 by auto
  moreover have "set (n1 @ n2) \<subseteq> T" using n1(4) n2(4) by simp
  moreover have "heap_ext (fst s1) (fst s3)" using e1(1) e2(1) by (rule heap_ext_trans)
  moreover have "frags (fst s3) = frags (fst s1)" using e1(2) e2(2) by simp
  ultimately show ?thesis unfolding fed_ext_def by blast
qed

lemma fed_ext_mono: "fed_ext T st st' \<Longrightarrow> T \<subseteq> T' \<Longrightarrow> fed_ext T' st st'"
  unfolding fed_ext_def by blast

lemma fed_ext_mark_ext: "fed_ext T st st' \<Longrightarrow> mark_ext st st'"
  unfolding fed_ext_def mark_ext_def by blast

lemma for_each_fed_ext:
  assumes "for_each xs f st = Some st'"
    and "\<And>x u u'. x \<in> set xs \<Longrightarrow> f x u = Some u' \<Longrightarrow> fed_ext T u u'"
  shows "fed_ext T st st'"
  using assms(1) by (rule for_each_rel) (simp, erule (1) fed_ext_trans, erule (1) assms(2))

lemma visit_fde_rel_effect:
  assumes "visit_fde_rel rel st = Some st'"
  shows "fed_ext {t. input_section (sym rel) = Some t} st st'"
    and "\<forall>t. input_section (sym rel) = Some t \<longrightarrow> t \<in> alive (fst st) \<longrightarrow> t \<in> visited (fst st')"
proof -
  obtain h fd where st: "st = (h, fd)" by (cases st)
  show "fed_ext {t. input_section (sym rel) = Some t} st st'"
  proof (cases "input_section (sym rel)")
    case None
    then show ?thesis using assms by (simp add: visit_fde_rel_def st)
  next
    case (Some t)
    then obtain accepted h' where m: "mark_section (Some t) h = Some (accepted, h')"
      and st': "st' = (h', if accepted then fd @ [t] else fd)"
      using assms by (auto simp: visit_fde_rel_def st split: option.splits)
    note e = mark_section_effect [OF m]
    have "visited h' - visited h = (if accepted then {t} else {})"
      unfolding e(2) using e(1) by auto
    then show ?thesis
      unfolding fed_ext_def using mark_section_ext [OF m] e(5) Some
      by (auto simp: st st')
  qed
  show "\<forall>t. input_section (sym rel) = Some t \<longrightarrow> t \<in> alive (fst st) \<longrightarrow> t \<in> visited (fst st')"
  proof (intro allI impI)
    fix t
    assume Some: "input_section (sym rel) = Some t" and a: "t \<in> alive (fst st)"
    then obtain accepted h' where m: "mark_section (Some t) h = Some (accepted, h')"
      and st': "st' = (h', if accepted then fd @ [t] else fd)"
      using assms by (auto simp: visit_fde_rel_def st split: option.splits)
    show "t \<in> visited (fst st')"
      using mark_section_effect(2) [OF m] a by (simp add: st st')
  qed
qed

lemma fed_ext_visited: "fed_ext T st st' \<Longrightarrow> visited (fst st) \<subseteq> visited (fst st')"
  by (simp add: fed_ext_def heap_ext_def)

lemma fed_ext_alive: "fed_ext T st st' \<Longrightarrow> alive (fst st') = alive (fst st)"
  by (simp add: fed_ext_def heap_ext_def)

lemma visit_fde_rels_effect:
  assumes "for_each rs visit_fde_rel st = Some st'"
  shows "fed_ext {t. \<exists>rel\<in>set rs. input_section (sym rel) = Some t} st st'"
    and "\<forall>rel\<in>set rs. \<forall>t. input_section (sym rel) = Some t \<longrightarrow> t \<in> alive (fst st)
           \<longrightarrow> t \<in> visited (fst st')"
proof -
  let ?T = "{t. \<exists>rel\<in>set rs. input_section (sym rel) = Some t}"
  let ?Q = "\<lambda>rel u. \<forall>t. input_section (sym rel) = Some t \<longrightarrow> t \<in> alive (fst st)
              \<longrightarrow> t \<in> visited (fst u)"
  have "fed_ext ?T st st' \<and> (\<forall>rel\<in>set rs. ?Q rel st')"
    using assms
  proof (rule for_each_all_inv [where I = "fed_ext ?T st" and Q = ?Q])
    show "fed_ext ?T st st" by simp
  next
    fix rel u u'
    assume rel: "rel \<in> set rs" and inv: "fed_ext ?T st u" and step: "visit_fde_rel rel u = Some u'"
    note e = visit_fde_rel_effect [OF step]
    have "fed_ext ?T u u'"
      using e(1) by (rule fed_ext_mono) (use rel in auto)
    then have "fed_ext ?T st u'" using inv fed_ext_trans by blast
    moreover have "?Q rel u'" using e(2) fed_ext_alive [OF inv] by simp
    ultimately show "fed_ext ?T st u' \<and> ?Q rel u'" by simp
  next
    fix x y u u'
    assume q: "?Q x u" and step: "visit_fde_rel y u = Some u'"
    have "visited (fst u) \<subseteq> visited (fst u')"
      using visit_fde_rel_effect(1) [OF step] by (rule fed_ext_visited)
    then show "?Q x u'" using q by blast
  qed
  then show "fed_ext ?T st st'" and "\<forall>rel\<in>set rs. ?Q rel st'" by simp_all
qed

lemma fde_targets_iff:
  "t \<in> set (fde_targets fde) \<longleftrightarrow> (\<exists>rel\<in>set (tl (fde_rels fde)). input_section (sym rel) = Some t)"
proof
  assume "t \<in> set (fde_targets fde)"
  then obtain rel where "rel \<in> set (tl (fde_rels fde))"
    and "t \<in> set (case input_section (sym rel) of None \<Rightarrow> [] | Some t \<Rightarrow> [t])"
    by (auto simp: fde_targets_def)
  then show "\<exists>rel\<in>set (tl (fde_rels fde)). input_section (sym rel) = Some t"
    by (cases "input_section (sym rel)") auto
next
  assume "\<exists>rel\<in>set (tl (fde_rels fde)). input_section (sym rel) = Some t"
  then show "t \<in> set (fde_targets fde)"
    by (auto simp: fde_targets_def intro!: bexI)
qed

lemma visit_fdes_body_SomeD:
  assumes "(case fde_rels fde of [] \<Rightarrow> None | rel0 # rest \<Rightarrow> for_each rest visit_fde_rel u) = Some u'"
  shows "fde_rels fde \<noteq> []" and "for_each (tl (fde_rels fde)) visit_fde_rel u = Some u'"
  using assms by (cases "fde_rels fde"; simp)+

lemma visit_fdes_effect:
  assumes "visit_fdes fs st = Some st'"
  shows "fed_ext (\<Union>fde\<in>set fs. set (fde_targets fde)) st st'"
    and "(\<Union>fde\<in>set fs. set (fde_targets fde)) \<inter> alive (fst st) \<subseteq> visited (fst st')"
    and "\<forall>fde\<in>set fs. fde_rels fde \<noteq> []"
proof -
  let ?T = "\<Union>fde\<in>set fs. set (fde_targets fde)"
  let ?Q = "\<lambda>fde u. fde_rels fde \<noteq> [] \<and> set (fde_targets fde) \<inter> alive (fst st) \<subseteq> visited (fst u)"
  have "fed_ext ?T st st' \<and> (\<forall>fde\<in>set fs. ?Q fde st')"
    using assms unfolding visit_fdes_def
  proof (rule for_each_all_inv [where I = "fed_ext ?T st" and Q = ?Q])
    show "fed_ext ?T st st" by simp
  next
    fix fde u u'
    assume fde: "fde \<in> set fs" and inv: "fed_ext ?T st u"
      and step: "(case fde_rels fde of [] \<Rightarrow> None
                  | rel0 # rest \<Rightarrow> for_each rest visit_fde_rel u) = Some u'"
    note ne = visit_fdes_body_SomeD(1) [OF step]
    note loop = visit_fdes_body_SomeD(2) [OF step]
    note e = visit_fde_rels_effect [OF loop]
    have "{t. \<exists>rel\<in>set (tl (fde_rels fde)). input_section (sym rel) = Some t} \<subseteq> ?T"
      using fde fde_targets_iff by blast
    with e(1) have "fed_ext ?T u u'"
      by (rule fed_ext_mono)
    then have "fed_ext ?T st u'" using inv fed_ext_trans by blast
    moreover have "set (fde_targets fde) \<inter> alive (fst st) \<subseteq> visited (fst u')"
      using e(2) fed_ext_alive [OF inv] by (auto simp: fde_targets_iff)
    ultimately show "fed_ext ?T st u' \<and> ?Q fde u'" using ne by simp
  next
    fix x y u u'
    assume q: "?Q x u" and step: "(case fde_rels y of [] \<Rightarrow> None
                  | rel0 # rest \<Rightarrow> for_each rest visit_fde_rel u) = Some u'"
    have "visited (fst u) \<subseteq> visited (fst u')"
      using visit_fdes_body_SomeD(2) [OF step, THEN visit_fde_rels_effect(1)]
      by (rule fed_ext_visited)
    then show "?Q x u'" using q by blast
  qed
  then show "fed_ext ?T st st'" and "?T \<inter> alive (fst st) \<subseteq> visited (fst st')"
    and "\<forall>fde\<in>set fs. fde_rels fde \<noteq> []"
    by auto
qed

section \<open>The traversal\<close>

text \<open>
  What holds while a call \<open>visit lim x depth\<close> that started in the state \<open>st\<close> runs: every
  section it has set \<^verbatim>\<open>is_visited\<close> of is pending in the feeder or closed, it is reachable
  from \<open>x\<close> over edges to sections that were alive and not visited, and every fragment it
  has set \<^verbatim>\<open>is_alive\<close> of is referred to by \<open>x\<close> or by one of these sections. When the call
  returns, \<open>x\<close> is closed as well.
\<close>

definition visit_inv ::
  "isec_ptr \<Rightarrow> heap \<times> isec_ptr list \<Rightarrow> heap \<times> isec_ptr list \<Rightarrow> bool" where
  "visit_inv x st u \<longleftrightarrow>
     mark_ext st u \<and>
     (\<forall>y\<in>visited (fst u) - visited (fst st). y \<in> set (snd u) \<or> closed (fst u) y) \<and>
     visited (fst u) - visited (fst st) \<subseteq> (reach_rel (fst st) (visited (fst st)))\<^sup>+ `` {x} \<and>
     alive_frags (fst u) - alive_frags (fst st)
       \<subseteq> frag_reach (fst st) (insert x (visited (fst u) - visited (fst st)))"

definition visit_post ::
  "isec_ptr \<Rightarrow> heap \<times> isec_ptr list \<Rightarrow> heap \<times> isec_ptr list \<Rightarrow> bool" where
  "visit_post x st st' \<longleftrightarrow> visit_inv x st st' \<and> closed (fst st') x"

definition rel_done :: "heap \<Rightarrow> InputSection \<Rightarrow> ElfRela \<Rightarrow> heap \<times> isec_ptr list \<Rightarrow> bool" where
  "rel_done h s rel u \<longleftrightarrow>
     set (reloc_section h s rel) \<inter> alive h \<subseteq> visited (fst u) \<and>
     set (reloc_fragment h s rel) \<subseteq> alive_frags (fst u)"

lemma mark_ext_heap_ext: "mark_ext st u \<Longrightarrow> heap_ext (fst st) (fst u)"
  by (simp add: mark_ext_def)

lemma mark_ext_feeder: "mark_ext st u \<Longrightarrow> set (snd st) \<subseteq> set (snd u)"
  by (auto simp: mark_ext_def)

lemma heap_ext_D:
  assumes "heap_ext h h'"
  shows "same_graph h h'" and "alive h' = alive h" and "visited h \<subseteq> visited h'"
    and "alive_frags h \<subseteq> alive_frags h'" and "files h' = files h"
    and "visited h' \<subseteq> visited h \<union> alive h"
  using assms same_graph_length(3) by (auto simp: heap_ext_def)

lemma rel_done_mono:
  assumes "rel_done h s rel u" and "mark_ext u u'"
  shows "rel_done h s rel u'"
  using assms(1) heap_ext_D(3,4) [OF mark_ext_heap_ext [OF assms(2)]]
  unfolding rel_done_def by blast

lemma rel_step_ext:
  assumes "rel_step lim depth s rel u = Some u'"
  shows "mark_ext u u'"
proof -
  obtain hu fu where u: "u = (hu, fu)" by (cases u)
  from assms have "rel_step lim depth s rel (hu, fu) = Some u'" by (simp add: u)
  then have "mark_ext (hu, fu) u'"
  proof (cases rule: rel_step_SomeE)
    case (fragment sy fr h')
    then show ?thesis using set_frag_alive_ext mark_ext_heap by simp
  next
    case (rejected sy h')
    then show ?thesis using mark_section_ext mark_ext_heap by simp
  next
    case (descend sy t h')
    have "mark_ext (hu, fu) (h', fu)"
      using mark_section_ext [OF descend(4)] by (rule mark_ext_heap)
    then show ?thesis using visit_ext [OF descend(6)] by (rule mark_ext_trans)
  next
    case (feed sy t h')
    then show ?thesis using mark_section_feed_ext [OF feed(4), of fu] by simp
  qed
  then show ?thesis by (simp add: u)
qed

lemma closed_from:
  assumes "heap_ext h h'" and "deref (isecs h) p = Some s"
    and "\<forall>fde\<in>set (fdes s). set (fde_targets fde) \<inter> alive h \<subseteq> visited h'"
    and "\<forall>rel\<in>set (rels s). set (reloc_section h s rel) \<inter> alive h \<subseteq> visited h'"
    and "\<forall>ref\<in>set (rel_fragments s). ref_frag ref \<in> alive_frags h'"
    and "\<forall>rel\<in>set (rels s). set (reloc_fragment h s rel) \<subseteq> alive_frags h'"
  shows "closed h' p"
proof -
  note d = heap_ext_D [OF assms(1)]
  have "set (section_edges h p) \<inter> alive h \<subseteq> visited h'"
    using assms(2,3,4) unfolding section_edges_def by auto
  moreover have "set (fragment_edges h p) \<subseteq> alive_frags h'"
    using assms(2,5,6) unfolding fragment_edges_def by auto
  ultimately show ?thesis
    unfolding closed_def section_edges_cong [OF d(1)] fragment_edges_cong [OF d(1)] d(2)
    by simp
qed

text \<open>After the first two loops of \<open>visit\<close>.\<close>

lemma visit_inv_fdes:
  assumes "deref (isecs h) x = Some s"
    and "visit_rel_fragments (rel_fragments s) h = Some h1"
    and "visit_fdes (fdes s) (h1, fd) = Some st2"
  shows "visit_inv x (h, fd) st2"
    and "\<forall>fde\<in>set (fdes s). set (fde_targets fde) \<inter> alive h \<subseteq> visited (fst st2)"
    and "\<forall>ref\<in>set (rel_fragments s). ref_frag ref \<in> alive_frags (fst st2)"
proof -
  let ?T = "\<Union>fde\<in>set (fdes s). set (fde_targets fde)"
  note f1 = visit_rel_fragments_effect [OF assms(2)]
  note e1 = heap_ext_D [OF visit_rel_fragments_ext [OF assms(2)]]
  note f2 = visit_fdes_effect [OF assms(3)]
  have v1: "visited h1 = visited h" using f1(1) by (rule visited_cong)
  have a1: "alive h1 = alive h" using f1(1) by (rule alive_cong)
  from f2(1) obtain new where new: "snd st2 = fd @ new" "distinct new"
      "set new = visited (fst st2) - visited h1" "set new \<subseteq> ?T"
    and e2: "heap_ext h1 (fst st2)" and fr2: "frags (fst st2) = frags h1"
    unfolding fed_ext_def by auto
  note d2 = heap_ext_D [OF e2]
  have m: "mark_ext (h, fd) st2"
    using mark_ext_heap [OF visit_rel_fragments_ext [OF assms(2)], of fd]
      fed_ext_mark_ext [OF f2(1)] by (rule mark_ext_trans)
  have nv: "visited (fst st2) - visited h = set new" using new(3) v1 by simp
  have b: "\<forall>y\<in>visited (fst st2) - visited h. y \<in> set (snd st2) \<or> closed (fst st2) y"
    using nv new(1) by auto
  have c: "visited (fst st2) - visited h \<subseteq> (reach_rel h (visited h))\<^sup>+ `` {x}"
  proof
    fix y assume y: "y \<in> visited (fst st2) - visited h"
    then have "y \<in> ?T" using nv new(4) by blast
    then have "y \<in> set (section_edges h x)"
      using assms(1) section_edges_fde by blast
    moreover have "y \<in> alive h" using y d2(6) v1 a1 by blast
    ultimately have "(x, y) \<in> reach_rel h (visited h)"
      using y by (simp add: reach_rel_def)
    then show "y \<in> (reach_rel h (visited h))\<^sup>+ `` {x}" by blast
  qed
  have af2: "alive_frags (fst st2) = alive_frags h1" using fr2 by (rule alive_frags_cong)
  have "ref_frag ` set (rel_fragments s) \<subseteq> set (fragment_edges h x)"
    using assms(1) fragment_edges_ref by blast
  then have d: "alive_frags (fst st2) - alive_frags h
      \<subseteq> frag_reach h (insert x (visited (fst st2) - visited h))"
    unfolding af2 f1(2) by (auto simp: frag_reach_def)
  show "visit_inv x (h, fd) st2"
    unfolding visit_inv_def using m b c d by simp
  show "\<forall>fde\<in>set (fdes s). set (fde_targets fde) \<inter> alive h \<subseteq> visited (fst st2)"
    using f2(2) a1 by auto
  show "\<forall>ref\<in>set (rel_fragments s). ref_frag ref \<in> alive_frags (fst st2)"
    unfolding af2 f1(2) by simp
qed

lemma visit_inv_D:
  assumes "visit_inv x st u"
  shows "mark_ext st u"
    and "\<forall>y\<in>visited (fst u) - visited (fst st). y \<in> set (snd u) \<or> closed (fst u) y"
    and "visited (fst u) - visited (fst st) \<subseteq> (reach_rel (fst st) (visited (fst st)))\<^sup>+ `` {x}"
    and "alive_frags (fst u) - alive_frags (fst st)
       \<subseteq> frag_reach (fst st) (insert x (visited (fst u) - visited (fst st)))"
  using assms by (simp_all add: visit_inv_def)

text \<open>A step of the third loop that changes no \<^verbatim>\<open>is_visited\<close> flag and leaves the feeder.\<close>

lemma visit_inv_same_visited:
  assumes "visit_inv x st (hu, fu)" and "heap_ext hu h'" and "visited h' = visited hu"
    and "alive_frags h' - alive_frags hu \<subseteq> set (fragment_edges (fst st) x)"
  shows "visit_inv x st (h', fu)"
proof -
  note i = visit_inv_D [OF assms(1), unfolded fst_conv snd_conv]
  have m: "mark_ext st (h', fu)"
    using i(1) mark_ext_heap [OF assms(2), of fu] by (rule mark_ext_trans)
  have b: "\<forall>y\<in>visited h' - visited (fst st). y \<in> set fu \<or> closed h' y"
    using i(2) closed_mono [OF _ assms(2)] unfolding assms(3) by auto
  have c: "visited h' - visited (fst st) \<subseteq> (reach_rel (fst st) (visited (fst st)))\<^sup>+ `` {x}"
    using i(3) unfolding assms(3) by simp
  have d: "alive_frags h' - alive_frags (fst st)
       \<subseteq> frag_reach (fst st) (insert x (visited h' - visited (fst st)))"
    using i(4) assms(4) unfolding assms(3) by (auto simp: frag_reach_def)
  show ?thesis unfolding visit_inv_def using m b c d by simp
qed

text \<open>A step of the third loop in which \<open>mark_section\<close> accepts the section \<open>t\<close>.\<close>

lemma visit_inv_accept:
  assumes "visit_inv x st (hu, fu)" and "mark_section (Some t) hu = Some (True, h')"
    and "t \<in> set (section_edges (fst st) x)"
  shows "visit_inv x st (h', fu @ [t])"
    and "(x, t) \<in> reach_rel (fst st) (visited (fst st))"
    and "visited h' = insert t (visited hu)" and "heap_ext hu h'"
    and "alive_frags h' = alive_frags hu"
proof -
  note i = visit_inv_D [OF assms(1), unfolded fst_conv snd_conv]
  note e = mark_section_effect [OF assms(2)]
  note d0 = heap_ext_D [OF mark_ext_heap_ext [OF i(1)]]
  have t: "t \<in> alive hu" "t \<notin> visited hu" using e(1) by simp_all
  show v: "visited h' = insert t (visited hu)" unfolding e(2) using t by auto
  show ext: "heap_ext hu h'" using assms(2) by (rule mark_section_ext)
  show af: "alive_frags h' = alive_frags hu" using e(5) by (rule alive_frags_cong)
  have "t \<in> alive (fst st)" "t \<notin> visited (fst st)" using t d0(2,3) by auto
  then show r: "(x, t) \<in> reach_rel (fst st) (visited (fst st))"
    using assms(3) by (simp add: reach_rel_def)
  have m: "mark_ext st (h', fu @ [t])"
    using i(1) mark_section_feed_ext [OF assms(2), of fu] mark_ext_trans by fastforce
  have b: "\<forall>y\<in>visited h' - visited (fst st). y \<in> set (fu @ [t]) \<or> closed h' y"
    using i(2) closed_mono [OF _ ext] unfolding v by auto
  have c: "visited h' - visited (fst st) \<subseteq> (reach_rel (fst st) (visited (fst st)))\<^sup>+ `` {x}"
    using i(3) r unfolding v by auto
  have d: "alive_frags h' - alive_frags (fst st)
       \<subseteq> frag_reach (fst st) (insert x (visited h' - visited (fst st)))"
    using i(4) unfolding v af by (auto simp: frag_reach_def)
  show "visit_inv x st (h', fu @ [t])" unfolding visit_inv_def using m b c d by simp
qed

text \<open>The step in which \<open>visit\<close> calls itself on the accepted section \<open>t\<close>.\<close>

lemma visit_inv_descend:
  assumes "visit_inv x st (hu, fu)" and "mark_section (Some t) hu = Some (True, h')"
    and "t \<in> set (section_edges (fst st) x)"
    and "visit_post t (h', fu) u'"
  shows "visit_inv x st u'" and "t \<in> visited (fst u')"
proof -
  let ?h = "fst st" and ?h'' = "fst u'"
  let ?R = "reach_rel ?h (visited ?h)"
  note i = visit_inv_D [OF assms(1), unfolded fst_conv snd_conv]
  note a = visit_inv_accept(2-5) [OF assms(1-3)]
  note p = visit_inv_D [OF assms(4) [unfolded visit_post_def, THEN conjunct1], unfolded fst_conv snd_conv]
  have ct: "closed ?h'' t" using assms(4) by (simp add: visit_post_def)
  note d0 = heap_ext_D [OF mark_ext_heap_ext [OF i(1)]]
  note d1 = heap_ext_D [OF a(3)]
  have e2: "heap_ext h' ?h''" using mark_ext_heap_ext [OF p(1)] by simp
  note d2 = heap_ext_D [OF e2]
  have e02: "heap_ext hu ?h''" using a(3) e2 by (rule heap_ext_trans)
  have sg: "same_graph ?h h'" using d0(1) d1(1) by (simp add: same_graph_trans)
  have al: "alive h' = alive ?h" using d0(2) d1(2) by simp
  have vs: "visited ?h \<subseteq> visited h'" using d0(3) d1(3) by auto
  show tv: "t \<in> visited ?h''" using a(2) d2(3) by auto
  have m: "mark_ext st u'"
  proof -
    have "mark_ext st (h', fu)"
      using i(1) mark_ext_heap [OF a(3), of fu] by (rule mark_ext_trans)
    then show ?thesis using p(1) by (rule mark_ext_trans)
  qed
  have split: "visited ?h'' - visited ?h
      \<subseteq> (visited hu - visited ?h) \<union> {t} \<union> (visited ?h'' - visited h')"
    using a(2) by auto
  have b: "\<forall>y\<in>visited ?h'' - visited ?h. y \<in> set (snd u') \<or> closed ?h'' y"
  proof
    fix y assume y: "y \<in> visited ?h'' - visited ?h"
    consider "y \<in> visited hu - visited ?h" | "y = t" | "y \<in> visited ?h'' - visited h'"
      using y split by blast
    then show "y \<in> set (snd u') \<or> closed ?h'' y"
    proof cases
      case 1
      then have "y \<in> set fu \<or> closed hu y" using i(2) by simp
      then show ?thesis
        using mark_ext_feeder [OF p(1)] closed_mono [OF _ e02] by auto
    next
      case 2
      then show ?thesis using ct by simp
    next
      case 3
      then show ?thesis using p(2) by simp
    qed
  qed
  have sub: "reach_rel h' (visited h') \<subseteq> ?R"
    using sg al vs by (rule reach_rel_mono)
  have c: "visited ?h'' - visited ?h \<subseteq> ?R\<^sup>+ `` {x}"
  proof
    fix y assume y: "y \<in> visited ?h'' - visited ?h"
    consider "y \<in> visited hu - visited ?h" | "y = t" | "y \<in> visited ?h'' - visited h'"
      using y split by blast
    then show "y \<in> ?R\<^sup>+ `` {x}"
    proof cases
      case 1
      then show ?thesis using i(3) by blast
    next
      case 2
      then show ?thesis using a(1) by blast
    next
      case 3
      then have "(t, y) \<in> (reach_rel h' (visited h'))\<^sup>+" using p(3) by auto
      then have "(t, y) \<in> ?R\<^sup>+" using trancl_mono [OF _ sub] by blast
      then have "(x, y) \<in> ?R\<^sup>+" using a(1) by (meson trancl_into_trancl2)
      then show ?thesis by blast
    qed
  qed
  have fr: "frag_reach h' S = frag_reach ?h S" for S
    using sg by (rule frag_reach_cong)
  have d: "alive_frags ?h'' - alive_frags ?h
       \<subseteq> frag_reach ?h (insert x (visited ?h'' - visited ?h))"
  proof
    fix f assume f: "f \<in> alive_frags ?h'' - alive_frags ?h"
    show "f \<in> frag_reach ?h (insert x (visited ?h'' - visited ?h))"
    proof (cases "f \<in> alive_frags hu")
      case True
      then have "f \<in> frag_reach ?h (insert x (visited hu - visited ?h))"
        using f i(4) by auto
      moreover have "insert x (visited hu - visited ?h) \<subseteq> insert x (visited ?h'' - visited ?h)"
        using heap_ext_D(3) [OF e02] by auto
      ultimately show ?thesis using frag_reach_mono by blast
    next
      case False
      then have "f \<in> alive_frags ?h'' - alive_frags h'" using f a(4) by simp
      then have "f \<in> frag_reach ?h (insert t (visited ?h'' - visited h'))"
        using p(4) fr by auto
      moreover have "insert t (visited ?h'' - visited h') \<subseteq> insert x (visited ?h'' - visited ?h)"
        using tv a(1) vs by (auto simp: reach_rel_def)
      ultimately show ?thesis using frag_reach_mono by blast
    qed
  qed
  show "visit_inv x st u'" unfolding visit_inv_def using m b c d by simp
qed

lemma reloc_of_symbol:
  assumes "rel_symbol h s rel = Some sy"
  shows "reloc_fragment h s rel = (case frag sy of Some fr \<Rightarrow> [fr] | None \<Rightarrow> [])"
    and "reloc_section h s rel =
      (case frag sy of Some fr \<Rightarrow> []
       | None \<Rightarrow> (case input_section sy of None \<Rightarrow> [] | Some t \<Rightarrow> [t]))"
  using assms by (simp_all add: reloc_fragment_def reloc_section_def)

lemma rel_step_inv:
  assumes step: "rel_step lim d s rel u = Some u'" and inv: "visit_inv x st u"
    and x: "deref (isecs (fst st)) x = Some s" and rel: "rel \<in> set (rels s)"
    and IH: "\<And>t v v'. d < lim \<Longrightarrow> visit lim t (d + 1) v = Some v' \<Longrightarrow> visit_post t v v'"
  shows "visit_inv x st u' \<and> rel_done (fst st) s rel u'"
proof -
  let ?h = "fst st"
  obtain hu fu where u: "u = (hu, fu)" by (cases u)
  have inv': "visit_inv x st (hu, fu)" using inv by (simp add: u)
  note d0 = heap_ext_D [OF mark_ext_heap_ext [OF visit_inv_D(1) [OF inv']], unfolded fst_conv]
  have rs: "rel_symbol hu s rel = rel_symbol ?h s rel"
    using d0(5) by (rule rel_symbol_cong)
  from step have "rel_step lim d s rel (hu, fu) = Some u'" by (simp add: u)
  then show ?thesis
  proof (cases rule: rel_step_SomeE)
    case (fragment sy fr h')
    note sy = fragment(1) [unfolded rs]
    note r = reloc_of_symbol [OF sy, unfolded fragment(2) option.case]
    note e = set_frag_alive_effect [OF fragment(3)]
    have v: "visited h' = visited hu" using e(4) by (rule visited_cong)
    have "fr \<in> set (fragment_edges ?h x)"
      using x rel r(1) fragment_edges_reloc by fastforce
    then have "alive_frags h' - alive_frags hu \<subseteq> set (fragment_edges ?h x)"
      unfolding e(3) by auto
    with inv' set_frag_alive_ext [OF fragment(3)] v have "visit_inv x st (h', fu)"
      by (rule visit_inv_same_visited)
    moreover have "rel_done ?h s rel (h', fu)"
      using e(3) by (auto simp: rel_done_def r)
    ultimately show ?thesis using fragment(4) by simp
  next
    case (rejected sy h')
    note sy = rejected(1) [unfolded rs]
    note r = reloc_of_symbol [OF sy, unfolded rejected(2) option.case]
    note e = mark_section_effect [OF rejected(3)]
    have old: "\<forall>t. input_section sy = Some t \<longrightarrow> t \<in> alive hu \<longrightarrow> t \<in> visited hu"
      using e(1) by auto
    then have v: "visited h' = visited hu" unfolding e(2) by auto
    have af: "alive_frags h' = alive_frags hu" using e(5) by (rule alive_frags_cong)
    have "visit_inv x st (h', fu)"
      using inv' mark_section_ext [OF rejected(3)] v
      by (rule visit_inv_same_visited) (simp add: af)
    moreover have "rel_done ?h s rel (h', fu)"
      using old v d0(2) by (auto simp: rel_done_def r split: option.splits)
    ultimately show ?thesis using rejected(4) by simp
  next
    case (descend sy t h')
    note sy = descend(1) [unfolded rs]
    note r = reloc_of_symbol [OF sy, unfolded descend(2,3) option.case]
    have t: "t \<in> set (section_edges ?h x)"
      using x rel r(2) section_edges_reloc by fastforce
    have post: "visit_post t (h', fu) u'"
      using descend(5,6) by (rule IH)
    note v = visit_inv_descend [OF inv' descend(4) t post]
    have "rel_done ?h s rel u'"
      using v(2) by (auto simp: rel_done_def r)
    then show ?thesis using v(1) by simp
  next
    case (feed sy t h')
    note sy = feed(1) [unfolded rs]
    note r = reloc_of_symbol [OF sy, unfolded feed(2,3) option.case]
    have t: "t \<in> set (section_edges ?h x)"
      using x rel r(2) section_edges_reloc by fastforce
    note a = visit_inv_accept [OF inv' feed(4) t]
    have "rel_done ?h s rel (h', fu @ [t])"
      using a(3) by (auto simp: rel_done_def r)
    then show ?thesis using a(1) feed(6) by simp
  qed
qed

text \<open>The result of a call of \<open>visit\<close>.\<close>

lemma visit_traverse:
  assumes "visit lim x depth st = Some st'"
  shows "visit_post x st st'"
  using assms
proof (induction "lim - depth" arbitrary: x depth st st' rule: less_induct)
  case less
  obtain h fd where st: "st = (h, fd)" by (cases st)
  from less.prems obtain s h1 st2 where s: "deref (isecs h) x = Some s"
    and frs: "visit_rel_fragments (rel_fragments s) h = Some h1"
    and fds: "visit_fdes (fdes s) (h1, fd) = Some st2"
    and loop: "for_each (rels s) (rel_step lim depth s) st2 = Some st'"
    unfolding st by (rule visit_SomeE)
  note f = visit_inv_fdes [OF s frs fds]
  have IH: "visit_post t v v'" if "depth < lim" and "visit lim t (depth + 1) v = Some v'" for t v v'
  proof -
    have "lim - (depth + 1) < lim - depth" using that(1) by simp
    then show ?thesis using that(2) by (rule less.hyps)
  qed
  have s': "deref (isecs (fst (h, fd))) x = Some s" using s by simp
  have res: "visit_inv x (h, fd) st' \<and> (\<forall>rel\<in>set (rels s). rel_done h s rel st')"
    using loop f(1)
  proof (rule for_each_all_inv [where I = "visit_inv x (h, fd)" and Q = "rel_done h s"])
    fix rel u u'
    assume "rel \<in> set (rels s)" and "visit_inv x (h, fd) u"
      and "rel_step lim depth s rel u = Some u'"
    then show "visit_inv x (h, fd) u' \<and> rel_done h s rel u'"
      using rel_step_inv [where st = "(h, fd)", OF _ _ s' _ IH] by simp
  next
    fix rel rel' u u'
    assume "rel_done h s rel u" and "rel_step lim depth s rel' u = Some u'"
    then show "rel_done h s rel u'"
      using rel_done_mono rel_step_ext by blast
  qed
  then have inv: "visit_inv x (h, fd) st'" and rd: "\<forall>rel\<in>set (rels s). rel_done h s rel st'"
    by simp_all
  have e: "heap_ext h (fst st')"
    using mark_ext_heap_ext [OF visit_inv_D(1) [OF inv]] by simp
  have "mark_ext st2 st'"
    using loop by (rule for_each_mark_ext) (rule rel_step_ext)
  then have e2: "heap_ext (fst st2) (fst st')"
    by (rule mark_ext_heap_ext)
  note d2 = heap_ext_D [OF e2]
  have "closed (fst st') x"
    using e s
  proof (rule closed_from)
    show "\<forall>fde\<in>set (fdes s). set (fde_targets fde) \<inter> alive h \<subseteq> visited (fst st')"
      using f(2) d2(3) by blast
    show "\<forall>rel\<in>set (rels s). set (reloc_section h s rel) \<inter> alive h \<subseteq> visited (fst st')"
      using rd by (simp add: rel_done_def)
    show "\<forall>ref\<in>set (rel_fragments s). ref_frag ref \<in> alive_frags (fst st')"
      using f(3) d2(4) by blast
    show "\<forall>rel\<in>set (rels s). set (reloc_fragment h s rel) \<subseteq> alive_frags (fst st')"
      using rd by (simp add: rel_done_def)
  qed
  then show ?case unfolding st visit_post_def using inv by simp
qed

text \<open>
  The invariant of the loop of \<open>mark\<close>, for the roots \<open>R0\<close> and the heap \<open>h1\<close> it started
  with: \<open>work\<close> holds the pending sections.
\<close>

definition mark_inv :: "isec_ptr set \<Rightarrow> heap \<Rightarrow> isec_ptr list \<Rightarrow> heap \<Rightarrow> bool" where
  "mark_inv R0 h1 work h \<longleftrightarrow>
     heap_ext h1 h \<and> set work \<subseteq> R0 \<union> (visited h - visited h1) \<and>
     (\<forall>y\<in>R0 \<union> (visited h - visited h1). y \<in> set work \<or> closed h y) \<and>
     visited h - visited h1 \<subseteq> (reach_rel h1 (visited h1))\<^sup>+ `` R0 \<and>
     alive_frags h - alive_frags h1 \<subseteq> frag_reach h1 (R0 \<union> (visited h - visited h1))"

lemma mark_inv_step:
  assumes inv: "mark_inv R0 h1 (x # w) h" and post: "visit_post x (h, w) (h2, w2)"
  shows "mark_inv R0 h1 w2 h2"
proof -
  let ?R = "reach_rel h1 (visited h1)"
  have i: "heap_ext h1 h" "set (x # w) \<subseteq> R0 \<union> (visited h - visited h1)"
    "\<forall>y\<in>R0 \<union> (visited h - visited h1). y \<in> set (x # w) \<or> closed h y"
    "visited h - visited h1 \<subseteq> ?R\<^sup>+ `` R0"
    "alive_frags h - alive_frags h1 \<subseteq> frag_reach h1 (R0 \<union> (visited h - visited h1))"
    using inv by (simp_all add: mark_inv_def)
  note p = visit_inv_D [OF post [unfolded visit_post_def, THEN conjunct1],
      unfolded fst_conv snd_conv]
  have cx: "closed h2 x" using post by (simp add: visit_post_def)
  note d1 = heap_ext_D [OF i(1)]
  have e2: "heap_ext h h2" using mark_ext_heap_ext [OF p(1)] by simp
  note d2 = heap_ext_D [OF e2]
  have e: "heap_ext h1 h2" using i(1) e2 by (rule heap_ext_trans)
  from p(1) obtain new where new: "w2 = w @ new" "set new \<subseteq> visited h2 - visited h"
    by (auto simp: mark_ext_def)
  have xin: "x \<in> R0 \<union> (visited h - visited h1)" using i(2) by simp
  have xr: "x \<in> R0 \<or> x \<in> ?R\<^sup>+ `` R0" using xin i(4) by blast
  have a: "set w2 \<subseteq> R0 \<union> (visited h2 - visited h1)"
    using i(2) new d1(3) d2(3) by auto
  have b: "\<forall>y\<in>R0 \<union> (visited h2 - visited h1). y \<in> set w2 \<or> closed h2 y"
  proof
    fix y assume y: "y \<in> R0 \<union> (visited h2 - visited h1)"
    show "y \<in> set w2 \<or> closed h2 y"
    proof (cases "y \<in> R0 \<union> (visited h - visited h1)")
      case True
      then have "y = x \<or> y \<in> set w \<or> closed h y" using i(3) by auto
      then show ?thesis using cx new(1) closed_mono [OF _ e2] by auto
    next
      case False
      then have "y \<in> visited h2 - visited h" using y by auto
      then show ?thesis using p(2) by simp
    qed
  qed
  have sub: "reach_rel h (visited h) \<subseteq> ?R"
    using d1(1,2,3) by (rule reach_rel_mono)
  have c: "visited h2 - visited h1 \<subseteq> ?R\<^sup>+ `` R0"
  proof
    fix y assume y: "y \<in> visited h2 - visited h1"
    show "y \<in> ?R\<^sup>+ `` R0"
    proof (cases "y \<in> visited h")
      case True
      then show ?thesis using y i(4) by auto
    next
      case False
      then have "(x, y) \<in> (reach_rel h (visited h))\<^sup>+" using y p(3) by auto
      then have xy: "(x, y) \<in> ?R\<^sup>+" using trancl_mono [OF _ sub] by blast
      from xr show ?thesis
      proof
        assume "x \<in> R0"
        then show ?thesis using xy by blast
      next
        assume "x \<in> ?R\<^sup>+ `` R0"
        then obtain r where "r \<in> R0" "(r, x) \<in> ?R\<^sup>+" by blast
        then have "(r, y) \<in> ?R\<^sup>+" using xy by (meson trancl_trans)
        then show ?thesis using \<open>r \<in> R0\<close> by blast
      qed
    qed
  qed
  have fr: "frag_reach h S = frag_reach h1 S" for S
    using d1(1) by (rule frag_reach_cong)
  have d: "alive_frags h2 - alive_frags h1 \<subseteq> frag_reach h1 (R0 \<union> (visited h2 - visited h1))"
  proof
    fix f assume f: "f \<in> alive_frags h2 - alive_frags h1"
    show "f \<in> frag_reach h1 (R0 \<union> (visited h2 - visited h1))"
    proof (cases "f \<in> alive_frags h")
      case True
      then have "f \<in> frag_reach h1 (R0 \<union> (visited h - visited h1))" using f i(5) by auto
      moreover have "R0 \<union> (visited h - visited h1) \<subseteq> R0 \<union> (visited h2 - visited h1)"
        using d2(3) by auto
      ultimately show ?thesis using frag_reach_mono by blast
    next
      case False
      then have "f \<in> frag_reach h1 (insert x (visited h2 - visited h))"
        using f p(4) fr by auto
      moreover have "insert x (visited h2 - visited h) \<subseteq> R0 \<union> (visited h2 - visited h1)"
        using xin d1(3) d2(3) by auto
      ultimately show ?thesis using frag_reach_mono by blast
    qed
  qed
  show ?thesis unfolding mark_inv_def using e a b c d by simp
qed

lemma mark_loop_inv:
  assumes "mark_loop lim work h = Some h'" and "mark_inv R0 h1 work h"
  shows "mark_inv R0 h1 [] h'"
  using assms
proof (induction lim work h rule: mark_loop.induct)
  case (1 lim h)
  then show ?case by simp
next
  case (2 lim isec work h)
  from "2.prems"(1) obtain h2 w2 where v: "visit lim isec 0 (h, work) = Some (h2, w2)"
    and rest: "mark_loop lim w2 h2 = Some h'"
    by (auto split: option.splits)
  have "visit_post isec (h, work) (h2, w2)" using v by (rule visit_traverse)
  with "2.prems"(2) have "mark_inv R0 h1 w2 h2" by (rule mark_inv_step)
  with v refl rest show ?case by (rule "2.IH")
qed

text \<open>
  The result of the loop of \<open>mark\<close>, for any bound of the recursion: the sections reached
  from the roots over edges to sections that are alive and were not visited become
  visited, and the fragments that the roots and these sections refer to become alive.
\<close>

lemma mark_loop_result:
  assumes "mark_loop lim roots h = Some h'"
  shows "heap_ext h h'"
    and "visited h' = visited h \<union> (reach_rel h (visited h))\<^sup>+ `` set roots"
    and "alive_frags h' = alive_frags h \<union>
           frag_reach h (set roots \<union> (reach_rel h (visited h))\<^sup>+ `` set roots)"
proof -
  let ?R = "reach_rel h (visited h)" and ?Rts = "set roots"
  let ?N = "visited h' - visited h"
  have "mark_inv ?Rts h roots h" by (simp add: mark_inv_def)
  with assms have "mark_inv ?Rts h [] h'" by (rule mark_loop_inv)
  then have i: "heap_ext h h'" "\<forall>y\<in>?Rts \<union> ?N. closed h' y" "?N \<subseteq> ?R\<^sup>+ `` ?Rts"
    "alive_frags h' - alive_frags h \<subseteq> frag_reach h (?Rts \<union> ?N)"
    by (simp_all add: mark_inv_def)
  note d = heap_ext_D [OF i(1)]
  show "heap_ext h h'" by (rule i(1))
  have adv: "z \<in> ?N" if y: "y \<in> ?Rts \<union> ?N" and yz: "(y, z) \<in> ?R" for y z
  proof -
    have "closed h' y" using i(2) y by blast
    then have "set (section_edges h y) \<inter> alive h \<subseteq> visited h'"
      unfolding closed_def section_edges_cong [OF d(1)] d(2) by simp
    then show ?thesis using yz by (auto simp: reach_rel_def)
  qed
  have "z \<in> ?N" if rz: "(r, z) \<in> ?R\<^sup>+" and r: "r \<in> ?Rts" for r z
    using rz
  proof (induction rule: trancl_induct)
    case (base y)
    show ?case using adv [of r y] r base by blast
  next
    case (step y z)
    show ?case using adv [of y z] step by blast
  qed
  then have N: "?N = ?R\<^sup>+ `` ?Rts" using i(3) by blast
  show "visited h' = visited h \<union> ?R\<^sup>+ `` ?Rts"
    using N d(3) by blast
  have "frag_reach h (?Rts \<union> ?N) \<subseteq> alive_frags h'"
  proof
    fix f assume "f \<in> frag_reach h (?Rts \<union> ?N)"
    then obtain y where y: "y \<in> ?Rts \<union> ?N" and f: "f \<in> set (fragment_edges h y)"
      by (auto simp: frag_reach_def)
    have "closed h' y" using i(2) y by blast
    then show "f \<in> alive_frags h'"
      using f unfolding closed_def fragment_edges_cong [OF d(1)] by blast
  qed
  then show "alive_frags h' = alive_frags h \<union> frag_reach h (?Rts \<union> ?R\<^sup>+ `` ?Rts)"
    using i(4) d(4) unfolding N by blast
qed

section \<open>Inputs without dangling references\<close>

text \<open>
  The collector assumes that every pointer it follows refers to an object, that every
  symbol index of a relocation is within the symbol table of its file, and that every FDE
  has a first relocation. \<open>wf_input\<close> states this for the files of the context, for the
  symbols that the entry and the undefined names resolve to, and for all sections.
\<close>

definition valid_isec_ref :: "heap \<Rightarrow> isec_ptr option \<Rightarrow> bool" where
  "valid_isec_ref h isec \<longleftrightarrow> (case isec of None \<Rightarrow> True | Some p \<Rightarrow> p < length (isecs h))"

definition valid_symbol :: "heap \<Rightarrow> Symbol \<Rightarrow> bool" where
  "valid_symbol h sy \<longleftrightarrow>
     (case frag sy of
        Some fr \<Rightarrow> fr < length (frags h)
      | None \<Rightarrow> valid_isec_ref h (input_section sy))"

definition valid_section :: "heap \<Rightarrow> InputSection \<Rightarrow> bool" where
  "valid_section h s \<longleftrightarrow>
     (\<forall>ref\<in>set (rel_fragments s). ref_frag ref < length (frags h)) \<and>
     (\<forall>fde\<in>set (fdes s). fde_rels fde \<noteq> [] \<and>
        (\<forall>rel\<in>set (tl (fde_rels fde)). valid_isec_ref h (input_section (sym rel)))) \<and>
     (\<forall>rel\<in>set (rels s).
        case rel_symbol h s rel of None \<Rightarrow> False | Some sy \<Rightarrow> valid_symbol h sy)"

definition valid_file :: "heap \<Rightarrow> ObjectFile \<Rightarrow> bool" where
  "valid_file h f \<longleftrightarrow>
     (\<forall>isec\<in>set (sections f). valid_isec_ref h isec) \<and>
     (\<forall>sy\<in>set (symbols f). valid_symbol h sy) \<and>
     (\<forall>fr\<in>set (fragments f). fr < length (frags h)) \<and>
     (\<forall>cie\<in>set (cies f). \<forall>rel\<in>set (cie_rels cie).
        valid_isec_ref h (input_section (sym rel)))"

definition valid_files :: "Context \<Rightarrow> heap \<Rightarrow> bool" where
  "valid_files ctx h \<longleftrightarrow>
     (\<forall>fl\<in>set (objs ctx). case deref (files h) fl of None \<Rightarrow> False | Some f \<Rightarrow> valid_file h f)"

definition valid_names :: "Context \<Rightarrow> heap \<Rightarrow> bool" where
  "valid_names ctx h \<longleftrightarrow>
     (\<forall>key\<in>set (arg_entry ctx # arg_undefined ctx).
        case intern ctx key of None \<Rightarrow> True | Some sy \<Rightarrow> valid_symbol h sy)"

definition valid_sections :: "heap \<Rightarrow> bool" where
  "valid_sections h \<longleftrightarrow> (\<forall>s\<in>set (isecs h). valid_section h s)"

definition wf_input :: "Context \<Rightarrow> heap \<Rightarrow> bool" where
  "wf_input ctx h \<longleftrightarrow> valid_files ctx h \<and> valid_names ctx h \<and> valid_sections h"

lemma valid_isec_ref_cong:
  "length (isecs h') = length (isecs h) \<Longrightarrow> valid_isec_ref h' isec = valid_isec_ref h isec"
  by (simp add: valid_isec_ref_def split: option.splits)

lemma valid_symbol_cong:
  assumes "same_graph h h'"
  shows "valid_symbol h' sy = valid_symbol h sy"
  using same_graph_length(1,2) [OF assms]
  by (simp add: valid_symbol_def valid_isec_ref_def split: option.splits)

lemma valid_section_static:
  assumes "same_graph h h'"
    and "rel_fragments s' = rel_fragments s" and "fdes s' = fdes s" and "rels s' = rels s"
    and "isec_file s' = isec_file s"
  shows "valid_section h' s' = valid_section h s"
proof -
  have f: "files h' = files h" using assms(1) by (rule same_graph_length)
  have rs: "rel_symbol h' s' rel = rel_symbol h s rel" for rel
    using f assms(5) by (simp add: rel_symbol_def)
  show ?thesis
    using same_graph_length(1,2) [OF assms(1)] assms(2,3,4)
    by (simp add: valid_section_def rs valid_symbol_cong [OF assms(1)]
        valid_isec_ref_cong [of h' h] cong: option.case_cong)
qed

lemma valid_sections_nth:
  "valid_sections h \<longleftrightarrow> (\<forall>p<length (isecs h). valid_section h (isecs h ! p))"
  by (simp add: valid_sections_def all_set_conv_all_nth)

lemma valid_sections_cong:
  assumes "same_graph h h'"
  shows "valid_sections h' = valid_sections h"
proof -
  have len: "length (isecs h') = length (isecs h)" using assms by (rule same_graph_length)
  have "valid_section h' (isecs h' ! p) = valid_section h (isecs h ! p)"
    if "p < length (isecs h)" for p
    using same_graph_isec [OF assms that] by (intro valid_section_static [OF assms]) simp_all
  then show ?thesis unfolding valid_sections_nth len by auto
qed

lemma valid_file_cong:
  assumes "same_graph h h'"
  shows "valid_file h' f = valid_file h f"
  using same_graph_length(1,2) [OF assms]
  by (simp add: valid_file_def valid_symbol_cong [OF assms] valid_isec_ref_cong [of h' h])

lemma valid_files_cong:
  assumes "same_graph h h'"
  shows "valid_files ctx h' = valid_files ctx h"
  using same_graph_length(3) [OF assms]
  by (simp add: valid_files_def valid_file_cong [OF assms] cong: option.case_cong)

lemma valid_names_cong:
  assumes "same_graph h h'"
  shows "valid_names ctx h' = valid_names ctx h"
  by (simp add: valid_names_def valid_symbol_cong [OF assms] cong: option.case_cong)

lemma wf_input_cong: "same_graph h h' \<Longrightarrow> wf_input ctx h' = wf_input ctx h"
  by (simp add: wf_input_def valid_files_cong valid_names_cong valid_sections_cong)

section \<open>The collector returns\<close>

lemma for_each_total:
  assumes "I s"
    and "\<And>x u. x \<in> set xs \<Longrightarrow> I u \<Longrightarrow> \<exists>u'. f x u = Some u' \<and> I u'"
  shows "\<exists>s'. for_each xs f s = Some s' \<and> I s'"
  using assms
proof (induction xs arbitrary: s)
  case Nil
  show ?case using Nil.prems(1) by simp
next
  case (Cons x xs)
  have "x \<in> set (x # xs)" by simp
  from Cons.prems(2) [OF this Cons.prems(1)] obtain u where u: "f x s = Some u" "I u" by blast
  have "\<exists>s'. for_each xs f u = Some s' \<and> I s'"
  proof (rule Cons.IH [OF u(2)])
    fix y v
    assume "y \<in> set xs" and v: "I v"
    then have "y \<in> set (x # xs)" by simp
    then show "\<exists>u'. f y v = Some u' \<and> I u'" using v by (rule Cons.prems(2))
  qed
  then show ?case using u(1) by simp
qed

text \<open>What \<open>mark_section\<close> returns, for a reference that does not dangle.\<close>

lemma mark_section_None: "mark_section None h = Some (False, h)"
  by (simp add: mark_section_def)

lemma mark_section_Some:
  assumes "p < length (isecs h)"
  shows "mark_section (Some p) h =
    Some (p \<in> alive h \<and> p \<notin> visited h, if p \<in> alive h then set_is_visited p h else h)"
  using assms by (simp add: mark_section_def deref_def alive_def visited_def)

lemma mark_section_dangling:
  "\<not> p < length (isecs h) \<Longrightarrow> mark_section (Some p) h = None"
  by (simp add: mark_section_def deref_def)

lemma mark_section_total:
  assumes "valid_isec_ref h isec"
  shows "\<exists>accepted h'. mark_section isec h = Some (accepted, h')"
proof (cases isec)
  case None
  then show ?thesis by (auto simp: mark_section_None)
next
  case (Some p)
  then have "p < length (isecs h)" using assms by (simp add: valid_isec_ref_def)
  then show ?thesis using Some by (simp add: mark_section_Some)
qed

lemma set_frag_alive_total:
  "fr < length (frags h) \<Longrightarrow> \<exists>h'. set_frag_alive fr h = Some h'"
  by (simp add: set_frag_alive_def)


lemma heap_ext_same_graph: "heap_ext h h' \<Longrightarrow> same_graph h h'"
  by (simp add: heap_ext_def)

lemma mark_ext_same_graph: "mark_ext st st' \<Longrightarrow> same_graph (fst st) (fst st')"
  by (simp add: mark_ext_def heap_ext_def)

lemma valid_filesD:
  assumes "valid_files ctx h" and "fl \<in> set (objs ctx)" and "same_graph h u"
  obtains f where "deref (files u) fl = Some f" and "valid_file u f"
proof -
  from assms(1,2) obtain f where f: "deref (files h) fl = Some f" and v: "valid_file h f"
    by (auto simp: valid_files_def split: option.splits)
  have "deref (files u) fl = Some f"
    using f same_graph_length(3) [OF assms(3)] by simp
  moreover have "valid_file u f"
    using v valid_file_cong [OF assms(3)] by simp
  ultimately show thesis by (rule that)
qed

lemma visit_rel_fragments_total:
  assumes "\<forall>ref\<in>set refs. ref_frag ref < length (frags h)"
  shows "\<exists>h'. visit_rel_fragments refs h = Some h'"
proof -
  have "\<exists>h'. for_each refs (\<lambda>ref h. set_frag_alive (ref_frag ref) h) h = Some h' \<and>
          length (frags h') = length (frags h)"
  proof (rule for_each_total [where I = "\<lambda>u::heap. length (frags u) = length (frags h)"])
    fix ref and u :: heap
    assume "ref \<in> set refs" and "length (frags u) = length (frags h)"
    then show "\<exists>u'. set_frag_alive (ref_frag ref) u = Some u' \<and>
        length (frags u') = length (frags h)"
      using assms by (simp add: set_frag_alive_def)
  qed simp
  then show ?thesis by (auto simp: visit_rel_fragments_def)
qed

lemma visit_fde_rel_total:
  assumes "valid_isec_ref (fst st) (input_section (sym rel))"
  shows "\<exists>st'. visit_fde_rel rel st = Some st'"
proof -
  obtain h fd where st: "st = (h, fd)" by (cases st)
  show ?thesis
  proof (cases "input_section (sym rel)")
    case None
    then show ?thesis by (simp add: visit_fde_rel_def st)
  next
    case (Some t)
    then have "t < length (isecs h)" using assms by (simp add: valid_isec_ref_def st)
    then show ?thesis using Some by (simp add: visit_fde_rel_def st mark_section_Some)
  qed
qed

lemma visit_fdes_total:
  assumes "\<forall>fde\<in>set fs. fde_rels fde \<noteq> [] \<and>
             (\<forall>rel\<in>set (tl (fde_rels fde)). valid_isec_ref (fst st) (input_section (sym rel)))"
  shows "\<exists>st'. visit_fdes fs st = Some st'"
proof -
  let ?I = "\<lambda>u::heap \<times> isec_ptr list. same_graph (fst st) (fst u)"
  have "\<exists>st'. for_each fs (\<lambda>fde st. case fde_rels fde of [] \<Rightarrow> None
            | rel0 # rest \<Rightarrow> for_each rest visit_fde_rel st) st = Some st' \<and> ?I st'"
  proof (rule for_each_total [where I = ?I])
    fix fde and u :: "heap \<times> isec_ptr list"
    assume fde: "fde \<in> set fs" and u: "same_graph (fst st) (fst u)"
    from assms fde obtain rel0 rest where r: "fde_rels fde = rel0 # rest"
      and v: "\<forall>rel\<in>set rest. valid_isec_ref (fst st) (input_section (sym rel))"
      by (cases "fde_rels fde") auto
    have "\<exists>u'. for_each rest visit_fde_rel u = Some u' \<and> ?I u'"
    proof (rule for_each_total [where I = ?I])
      fix rel and w :: "heap \<times> isec_ptr list"
      assume rel: "rel \<in> set rest" and w: "same_graph (fst st) (fst w)"
      have "valid_isec_ref (fst w) (input_section (sym rel))"
        using v rel valid_isec_ref_cong [OF same_graph_length(1) [OF w]] by simp
      then obtain w' where w': "visit_fde_rel rel w = Some w'"
        using visit_fde_rel_total by blast
      have "same_graph (fst w) (fst w')"
        using visit_fde_rel_ext [OF w'] by (rule mark_ext_same_graph)
      then have "same_graph (fst st) (fst w')" using w same_graph_trans by blast
      then show "\<exists>w'. visit_fde_rel rel w = Some w' \<and> same_graph (fst st) (fst w')"
        using w' by simp
    qed (rule u)
    then show "\<exists>u'. (case fde_rels fde of [] \<Rightarrow> None
            | rel0 # rest \<Rightarrow> for_each rest visit_fde_rel u) = Some u' \<and> ?I u'"
      by (simp add: r)
  qed simp
  then show ?thesis by (auto simp: visit_fdes_def)
qed

text \<open>
  \<open>visit\<close> returns when the section it is called on has \<^verbatim>\<open>is_visited\<close> set, so that the
  assertion holds, and no reference of a section dangles.
\<close>

lemma visit_total:
  assumes "valid_sections h" and "x \<in> visited h"
  shows "\<exists>st'. visit lim x depth (h, fd) = Some st'"
  using assms
proof (induction "lim - depth" arbitrary: x depth h fd rule: less_induct)
  case less
  let ?s = "isecs h ! x"
  have x: "x < length (isecs h)" and vis: "is_visited ?s"
    using less.prems(2) by (simp_all add: visited_def)
  have d: "deref (isecs h) x = Some ?s" using x by (simp add: deref_def)
  have vs: "valid_section h ?s"
    using less.prems(1) x by (simp add: valid_sections_nth)
  from vs obtain h1 where frs: "visit_rel_fragments (rel_fragments ?s) h = Some h1"
    using visit_rel_fragments_total [of "rel_fragments ?s" h] by (auto simp: valid_section_def)
  have g1: "same_graph h h1"
    using visit_rel_fragments_ext [OF frs] by (rule heap_ext_same_graph)
  have "\<forall>fde\<in>set (fdes ?s). fde_rels fde \<noteq> [] \<and>
          (\<forall>rel\<in>set (tl (fde_rels fde)). valid_isec_ref (fst (h1, fd)) (input_section (sym rel)))"
    using vs valid_isec_ref_cong [OF same_graph_length(1) [OF g1]]
    by (simp add: valid_section_def)
  then obtain st2 where fds: "visit_fdes (fdes ?s) (h1, fd) = Some st2"
    using visit_fdes_total by blast
  have g2: "same_graph h (fst st2)"
    using g1 mark_ext_same_graph [OF visit_fdes_ext [OF fds]] same_graph_trans by fastforce
  let ?I = "\<lambda>u::heap \<times> isec_ptr list. same_graph h (fst u)"
  have "\<exists>st'. for_each (rels ?s) (rel_step lim depth ?s) st2 = Some st' \<and> ?I st'"
  proof (rule for_each_total [where I = ?I])
    fix rel and u :: "heap \<times> isec_ptr list"
    assume rel: "rel \<in> set (rels ?s)" and u: "same_graph h (fst u)"
    obtain hu fu where uu: "u = (hu, fu)" by (cases u)
    have gu: "same_graph h hu" using u by (simp add: uu)
    from vs rel obtain sy where sy: "rel_symbol h ?s rel = Some sy" and v: "valid_symbol h sy"
      by (auto simp: valid_section_def split: option.splits)
    have syu: "rel_symbol hu ?s rel = Some sy"
      using sy rel_symbol_cong [OF same_graph_length(3) [OF gu]] by simp
    then obtain f where f: "deref (files hu) (isec_file ?s) = Some f"
      and fsy: "deref (symbols f) (r_sym rel) = Some sy"
      by (auto simp: rel_symbol_def split: option.splits)
    have vu: "valid_symbol hu sy" using v valid_symbol_cong [OF gu] by simp
    have "\<exists>u'. rel_step lim depth ?s rel (hu, fu) = Some u'"
    proof (cases "frag sy")
      case (Some fr)
      then have "fr < length (frags hu)" using vu by (simp add: valid_symbol_def)
      then show ?thesis
        using f fsy Some by (simp add: rel_step_def set_frag_alive_def)
    next
      case None
      then have r: "valid_isec_ref hu (input_section sy)" using vu by (simp add: valid_symbol_def)
      show ?thesis
      proof (cases "input_section sy")
        case n: None
        then show ?thesis using f fsy None by (simp add: rel_step_def mark_section_None)
      next
        case (Some t)
        then have t: "t < length (isecs hu)" using r by (simp add: valid_isec_ref_def)
        note m = mark_section_Some [OF t]
        show ?thesis
        proof (cases "t \<in> alive hu \<and> t \<notin> visited hu \<and> depth < lim")
          case False
          then show ?thesis
            using f fsy None Some m by (auto simp: rel_step_def)
        next
          case True
          let ?h' = "set_is_visited t hu"
          have g': "same_graph hu ?h'" and tv: "t \<in> visited ?h'"
            using set_is_visited_effect(1,2) [OF t] by simp_all
          have "same_graph h ?h'" using gu g' by (rule same_graph_trans)
          then have "valid_sections ?h'"
            using less.prems(1) valid_sections_cong by simp
          moreover have "lim - (depth + 1) < lim - depth" using True by auto
          ultimately have "\<exists>st'. visit lim t (depth + 1) (?h', fu) = Some st'"
            using tv less.hyps by blast
          then show ?thesis
            using f fsy None Some m True by (simp add: rel_step_def)
        qed
      qed
    qed
    then obtain u' where u': "rel_step lim depth ?s rel u = Some u'" by (auto simp: uu)
    have "same_graph (fst u) (fst u')"
      using rel_step_ext [OF u'] by (rule mark_ext_same_graph)
    then have "same_graph h (fst u')" using u same_graph_trans by blast
    then show "\<exists>u'. rel_step lim depth ?s rel u = Some u' \<and> same_graph h (fst u')"
      using u' by simp
  qed (rule g2)
  then obtain st' where "for_each (rels ?s) (rel_step lim depth ?s) st2 = Some st'" by blast
  then show ?case
    using d vis frs fds by (simp add: visit_unfold)
qed

lemma mark_loop_total:
  assumes "valid_sections h" and "set work \<subseteq> visited h"
  shows "\<exists>h'. mark_loop lim work h = Some h'"
  using assms
proof (induction lim work h rule: mark_loop.induct)
  case (1 lim h)
  show ?case by simp
next
  case (2 lim isec work h)
  have "isec \<in> visited h" using "2.prems"(2) by simp
  with "2.prems"(1) obtain st' where v: "visit lim isec 0 (h, work) = Some st'"
    using visit_total by blast
  obtain h' work' where st': "st' = (h', work')" by (cases st')
  have e: "mark_ext (h, work) (h', work')"
    using visit_ext [OF v] by (simp add: st')
  then have "same_graph h h'" using mark_ext_same_graph by fastforce
  then have vs: "valid_sections h'" using "2.prems"(1) valid_sections_cong by simp
  from e obtain new where new: "work' = work @ new" "set new \<subseteq> visited h' - visited h"
    and mono: "visited h \<subseteq> visited h'"
    by (auto simp: mark_ext_def heap_ext_def)
  have "set work' \<subseteq> visited h'"
    unfolding new(1) using new(2) mono "2.prems"(2) by auto
  then have "\<exists>h''. mark_loop lim work' h' = Some h''"
    using "2.IH" [OF v st' [symmetric] vs] by simp
  then show ?case using v st' by simp
qed

lemma sweep_section_total:
  assumes "valid_isec_ref h isec"
  shows "\<exists>h'. sweep_section ctx isec h = Some h' \<and> length (isecs h') = length (isecs h) \<and>
           files h' = files h"
  using assms
  by (auto simp: sweep_section_def valid_isec_ref_def deref_def kill_def Let_def
           split: option.splits)

lemma sweep_total:
  assumes "\<forall>fl\<in>set (objs ctx). fl < length (files h)"
    and "\<forall>p\<in>set (ctx_sections ctx h). p < length (isecs h)"
  shows "\<exists>h'. sweep ctx h = Some h'"
proof -
  let ?I = "\<lambda>u::heap. length (isecs u) = length (isecs h) \<and> files u = files h"
  have "\<exists>h'. for_each (objs ctx) (\<lambda>file h. case deref (files h) file of None \<Rightarrow> None
          | Some f \<Rightarrow> for_each (sections f) (sweep_section ctx) h) h = Some h' \<and> ?I h'"
  proof (rule for_each_total [where I = ?I])
    fix fl and u :: heap
    assume fl: "fl \<in> set (objs ctx)" and u: "?I u"
    from assms(1) fl obtain f where f: "deref (files h) fl = Some f"
      by (auto simp: deref_def)
    have "\<exists>u'. for_each (sections f) (sweep_section ctx) u = Some u' \<and> ?I u'"
    proof (rule for_each_total [where I = ?I])
      fix isec and w :: heap
      assume isec: "isec \<in> set (sections f)" and w: "?I w"
      have "p < length (isecs h)" if "isec = Some p" for p
        using assms(2) fl f isec that by (auto simp: ctx_sections_iff)
      then have "valid_isec_ref w isec"
        using w by (auto simp: valid_isec_ref_def split: option.splits)
      then show "\<exists>w'. sweep_section ctx isec w = Some w' \<and> ?I w'"
        using sweep_section_total [of w isec ctx] w by auto
    qed (rule u)
    then show "\<exists>u'. (case deref (files u) fl of None \<Rightarrow> None
          | Some f \<Rightarrow> for_each (sections f) (sweep_section ctx) u) = Some u' \<and> ?I u'"
      using f u by simp
  qed simp
  then show ?thesis by (auto simp: sweep_def)
qed

lemma valid_files_sweep:
  assumes "valid_files ctx h"
  shows "\<forall>fl\<in>set (objs ctx). fl < length (files h)"
    and "\<forall>p\<in>set (ctx_sections ctx h). p < length (isecs h)"
proof -
  show "\<forall>fl\<in>set (objs ctx). fl < length (files h)"
    using assms by (auto simp: valid_files_def deref_def split: option.splits if_splits)
  show "\<forall>p\<in>set (ctx_sections ctx h). p < length (isecs h)"
  proof
    fix p
    assume "p \<in> set (ctx_sections ctx h)"
    then obtain fl f where fl: "fl \<in> set (objs ctx)" and f: "deref (files h) fl = Some f"
      and p: "Some p \<in> set (sections f)"
      by (auto simp: ctx_sections_iff)
    from assms fl f have "valid_file h f" by (auto simp: valid_files_def)
    then have "valid_isec_ref h (Some p)" using p by (simp add: valid_file_def)
    then show "p < length (isecs h)" by (simp add: valid_isec_ref_def)
  qed
qed

lemma mark_nonalloc_fragments_total:
  assumes "valid_files ctx h"
  shows "\<exists>h'. mark_nonalloc_fragments ctx h = Some h'"
proof -
  let ?I = "\<lambda>u::heap. length (frags u) = length (frags h) \<and> files u = files h"
  let ?body = "\<lambda>fr (h::heap). case deref (frags h) fr of None \<Rightarrow> None
             | Some fg \<Rightarrow> if sh_flags (output_section_shdr fg) AND SHF_ALLOC = 0
                 then set_frag_alive fr h else Some h"
  have "\<exists>h'. for_each (objs ctx) (\<lambda>file h. case deref (files h) file of None \<Rightarrow> None
          | Some f \<Rightarrow> for_each (fragments f) ?body h) h = Some h' \<and> ?I h'"
  proof (rule for_each_total [where I = ?I])
    fix fl and u :: heap
    assume fl: "fl \<in> set (objs ctx)" and u: "?I u"
    from assms fl obtain f where f: "deref (files h) fl = Some f" and v: "valid_file h f"
      by (auto simp: valid_files_def split: option.splits)
    have "\<exists>u'. for_each (fragments f) ?body u = Some u' \<and> ?I u'"
    proof (rule for_each_total [where I = ?I])
      fix fr and w :: heap
      assume fr: "fr \<in> set (fragments f)" and w: "?I w"
      have "fr < length (frags w)" using v fr w by (simp add: valid_file_def)
      then show "\<exists>w'. ?body fr w = Some w' \<and> ?I w'"
        using w by (simp add: deref_def set_frag_alive_def)
    qed (rule u)
    then show "\<exists>u'. (case deref (files u) fl of None \<Rightarrow> None
          | Some f \<Rightarrow> for_each (fragments f) ?body u) = Some u' \<and> ?I u'"
      using f u by simp
  qed simp
  then show ?thesis by (auto simp: mark_nonalloc_fragments_def)
qed

lemma enqueue_section_total:
  assumes "valid_isec_ref (fst st) isec"
  shows "\<exists>st'. enqueue_section isec st = Some st'"
proof -
  obtain h rs where st: "st = (h, rs)" by (cases st)
  from assms obtain accepted h' where "mark_section isec h = Some (accepted, h')"
    using mark_section_total [of h isec] by (auto simp: st)
  then show ?thesis by (simp add: enqueue_section_def st split: option.splits)
qed

lemma enqueue_symbol_total:
  assumes "case sp of None \<Rightarrow> True | Some sy \<Rightarrow> valid_symbol (fst st) sy"
  shows "\<exists>st'. enqueue_symbol sp st = Some st'"
proof -
  obtain h rs where st: "st = (h, rs)" by (cases st)
  show ?thesis
  proof (cases sp)
    case None
    then show ?thesis by (simp add: enqueue_symbol_def st)
  next
    case (Some sy)
    then have v: "valid_symbol h sy" using assms by (simp add: st)
    show ?thesis
    proof (cases "frag sy")
      case f: None
      then have "valid_isec_ref (fst (h, rs)) (input_section sy)"
        using v by (simp add: valid_symbol_def)
      then show ?thesis
        using enqueue_section_total [of "(h, rs)" "input_section sy"] Some f
        by (simp add: enqueue_symbol_def st)
    next
      case (Some fr)
      then have "fr < length (frags h)" using v by (simp add: valid_symbol_def)
      then show ?thesis
        using Some \<open>sp = Some sy\<close> by (simp add: enqueue_symbol_def st set_frag_alive_def)
    qed
  qed
qed

lemma collect_section_total:
  assumes "valid_isec_ref (fst st) isec"
  shows "\<exists>st'. collect_section isec st = Some st'"
proof -
  obtain h rs where st: "st = (h, rs)" by (cases st)
  show ?thesis
  proof (cases isec)
    case None
    then show ?thesis by (simp add: collect_section_def st)
  next
    case (Some p)
    then have p: "p < length (isecs h)" using assms by (simp add: valid_isec_ref_def st)
    have "length (isecs (set_is_visited p h)) = length (isecs h)"
      by (simp add: set_is_visited_def)
    then have "valid_isec_ref (fst (h1, rs)) (Some p)"
      if "h1 = set_is_visited p h \<or> h1 = h" for h1
      using that p by (auto simp: valid_isec_ref_def)
    then have "\<exists>st'. enqueue_section (Some p) (h1, rs) = Some st'"
      if "h1 = set_is_visited p h \<or> h1 = h" for h1
      using that enqueue_section_total by blast
    then show ?thesis
      using Some p by (simp add: collect_section_def st deref_def Let_def)
  qed
qed

text \<open>A loop over the files of the context whose body returns on every valid file.\<close>

lemma for_each_files_total:
  fixes st :: "heap \<times> isec_ptr list"
  assumes "valid_files ctx (fst st)"
    and "\<And>fl f u. fl \<in> set (objs ctx) \<Longrightarrow> valid_file (fst u) f \<Longrightarrow>
           \<exists>u'. g fl f u = Some u' \<and> collect_ext u u'"
  shows "\<exists>st'. for_each (objs ctx) (\<lambda>file (h, roots). case deref (files h) file of
                None \<Rightarrow> None | Some f \<Rightarrow> g file f (h, roots)) st = Some st' \<and>
           same_graph (fst st) (fst st')"
proof (rule for_each_total [where I = "\<lambda>u. same_graph (fst st) (fst u)"])
  fix fl and u :: "heap \<times> isec_ptr list"
  assume fl: "fl \<in> set (objs ctx)" and u: "same_graph (fst st) (fst u)"
  obtain h rs where uu: "u = (h, rs)" by (cases u)
  from assms(1) fl u obtain f where f: "deref (files (fst u)) fl = Some f"
    and v: "valid_file (fst u) f"
    by (rule valid_filesD)
  from assms(2) [OF fl v] obtain u' where u': "g fl f u = Some u'" and e: "collect_ext u u'"
    by blast
  have "same_graph (fst st) (fst u')"
    using u collect_ext_same_graph [OF e] by (rule same_graph_trans)
  then show "\<exists>u'. (case u of (h, roots) \<Rightarrow> case deref (files h) fl of
                None \<Rightarrow> None | Some f \<Rightarrow> g fl f (h, roots)) = Some u' \<and>
           same_graph (fst st) (fst u')"
    using f u' by (simp add: uu)
qed simp

text \<open>An inner loop of the root collector whose body returns on every valid element.\<close>

lemma for_each_collect_total:
  fixes st :: "heap \<times> isec_ptr list"
  assumes "\<And>x u. x \<in> set xs \<Longrightarrow> same_graph (fst st) (fst u) \<Longrightarrow>
           \<exists>u'. f x u = Some u' \<and> collect_ext u u'"
  shows "\<exists>st'. for_each xs f st = Some st' \<and> collect_ext st st'"
proof -
  have "\<exists>st'. for_each xs f st = Some st' \<and> same_graph (fst st) (fst st')"
  proof (rule for_each_total [where I = "\<lambda>u. same_graph (fst st) (fst u)"])
    fix x and u :: "heap \<times> isec_ptr list"
    assume x: "x \<in> set xs" and u: "same_graph (fst st) (fst u)"
    from assms [OF x u] obtain u' where u': "f x u = Some u'" and e: "collect_ext u u'"
      by blast
    have "same_graph (fst st) (fst u')"
      using u collect_ext_same_graph [OF e] by (rule same_graph_trans)
    then show "\<exists>u'. f x u = Some u' \<and> same_graph (fst st) (fst u')"
      using u' by simp
  qed simp
  then obtain st' where l: "for_each xs f st = Some st'" by blast
  have "collect_ext st st'"
    using l
  proof (rule for_each_inv [where I = "\<lambda>u. collect_ext st u \<and> same_graph (fst st) (fst u)",
        THEN conjunct1])
    show "collect_ext st st \<and> same_graph (fst st) (fst st)" by simp
  next
    fix x u u'
    assume x: "x \<in> set xs" and u: "collect_ext st u \<and> same_graph (fst st) (fst u)"
      and s: "f x u = Some u'"
    from assms [OF x u [THEN conjunct2]] s have e: "collect_ext u u'" by simp
    have "collect_ext st u'" using u e collect_ext_trans by blast
    then show "collect_ext st u' \<and> same_graph (fst st) (fst u')"
      using collect_ext_same_graph by blast
  qed
  then show ?thesis using l by simp
qed

lemma collect_sections_total:
  assumes "valid_files ctx (fst st)"
  shows "\<exists>st'. collect_sections ctx st = Some st'"
proof -
  have "\<exists>st'. for_each (objs ctx) (\<lambda>file (h, roots). case deref (files h) file of
                None \<Rightarrow> None
              | Some f \<Rightarrow> (\<lambda>file f. for_each (sections f) collect_section) file f (h, roots)) st
            = Some st' \<and> same_graph (fst st) (fst st')"
    using assms
  proof (rule for_each_files_total)
    fix fl f and u :: "heap \<times> isec_ptr list"
    assume v: "valid_file (fst u) f"
    show "\<exists>u'. for_each (sections f) collect_section u = Some u' \<and> collect_ext u u'"
    proof (rule for_each_collect_total)
      fix isec and w :: "heap \<times> isec_ptr list"
      assume isec: "isec \<in> set (sections f)" and w: "same_graph (fst u) (fst w)"
      have "valid_isec_ref (fst w) isec"
        using v isec valid_isec_ref_cong [OF same_graph_length(1) [OF w]]
        by (simp add: valid_file_def)
      then obtain w' where "collect_section isec w = Some w'"
        using collect_section_total by blast
      then show "\<exists>w'. collect_section isec w = Some w' \<and> collect_ext w w'"
        using collect_section_ext by blast
    qed
  qed
  then show ?thesis by (auto simp: collect_sections_def)
qed

lemma collect_exported_total:
  assumes "valid_files ctx (fst st)"
  shows "\<exists>st'. collect_exported ctx st = Some st'"
proof -
  have "\<exists>st'. for_each (objs ctx) (\<lambda>file (h, roots). case deref (files h) file of
                None \<Rightarrow> None
              | Some f \<Rightarrow> (\<lambda>file f. for_each (symbols f) (\<lambda>sy st.
                    if sym_file sy = Some file \<and> is_exported sy then enqueue_symbol (Some sy) st
                    else Some st)) file f (h, roots)) st
            = Some st' \<and> same_graph (fst st) (fst st')"
    using assms
  proof (rule for_each_files_total)
    fix fl f and u :: "heap \<times> isec_ptr list"
    assume v: "valid_file (fst u) f"
    show "\<exists>u'. for_each (symbols f) (\<lambda>sy st.
                    if sym_file sy = Some fl \<and> is_exported sy then enqueue_symbol (Some sy) st
                    else Some st) u = Some u' \<and> collect_ext u u'"
    proof (rule for_each_collect_total)
      fix sy and w :: "heap \<times> isec_ptr list"
      assume sy: "sy \<in> set (symbols f)" and w: "same_graph (fst u) (fst w)"
      have "valid_symbol (fst w) sy"
        using v sy valid_symbol_cong [OF w] by (simp add: valid_file_def)
      then obtain w' where w': "enqueue_symbol (Some sy) w = Some w'"
        using enqueue_symbol_total [where sp = "Some sy" and st = w] by auto
      have e: "collect_ext w w'" using w' by (rule enqueue_symbol_ext)
      show "\<exists>w'. (if sym_file sy = Some fl \<and> is_exported sy
                        then enqueue_symbol (Some sy) w else Some w) = Some w' \<and>
                   collect_ext w w'"
      proof (cases "sym_file sy = Some fl \<and> is_exported sy")
        case True
        then show ?thesis using w' e by (intro exI [of _ w']) simp
      next
        case False
        then show ?thesis by (intro exI [of _ w]) auto
      qed
    qed
  qed
  then show ?thesis by (auto simp: collect_exported_def)
qed

lemma collect_cies_total:
  assumes "valid_files ctx (fst st)"
  shows "\<exists>st'. collect_cies ctx st = Some st'"
proof -
  have "\<exists>st'. for_each (objs ctx) (\<lambda>file (h, roots). case deref (files h) file of
                None \<Rightarrow> None
              | Some f \<Rightarrow> (\<lambda>file f. for_each (cies f) (\<lambda>cie.
                    for_each (cie_rels cie) (\<lambda>rel. enqueue_section (input_section (sym rel)))))
                  file f (h, roots)) st
            = Some st' \<and> same_graph (fst st) (fst st')"
    using assms
  proof (rule for_each_files_total)
    fix fl f and u :: "heap \<times> isec_ptr list"
    assume v: "valid_file (fst u) f"
    show "\<exists>u'. for_each (cies f) (\<lambda>cie.
                    for_each (cie_rels cie) (\<lambda>rel. enqueue_section (input_section (sym rel)))) u
               = Some u' \<and> collect_ext u u'"
    proof (rule for_each_collect_total)
      fix cie and w :: "heap \<times> isec_ptr list"
      assume cie: "cie \<in> set (cies f)" and w: "same_graph (fst u) (fst w)"
      show "\<exists>w'. for_each (cie_rels cie) (\<lambda>rel. enqueue_section (input_section (sym rel))) w
                 = Some w' \<and> collect_ext w w'"
      proof (rule for_each_collect_total)
        fix rel and z :: "heap \<times> isec_ptr list"
        assume rel: "rel \<in> set (cie_rels cie)" and z: "same_graph (fst w) (fst z)"
        have uz: "same_graph (fst u) (fst z)" using w z by (rule same_graph_trans)
        have "valid_isec_ref (fst z) (input_section (sym rel))"
          using v cie rel valid_isec_ref_cong [OF same_graph_length(1) [OF uz]]
          by (simp add: valid_file_def)
        then obtain z' where "enqueue_section (input_section (sym rel)) z = Some z'"
          using enqueue_section_total by blast
        then show "\<exists>z'. enqueue_section (input_section (sym rel)) z = Some z' \<and>
                     collect_ext z z'"
          using enqueue_section_ext by blast
      qed
    qed
  qed
  then show ?thesis by (auto simp: collect_cies_def)
qed

lemma collect_root_set_total:
  assumes "wf_input ctx h"
  shows "\<exists>st'. collect_root_set ctx h = Some st'"
proof -
  have vf: "valid_files ctx h" and vn: "valid_names ctx h"
    using assms by (simp_all add: wf_input_def)
  from vf obtain st1 where 1: "collect_sections ctx (h, []) = Some st1"
    using collect_sections_total [of ctx "(h, [])"] by auto
  have g1: "same_graph h (fst st1)"
    using collect_ext_same_graph [OF collect_sections_ext [OF 1]] by simp
  from vf obtain st2 where 2: "collect_exported ctx st1 = Some st2"
    using collect_exported_total [of ctx st1] valid_files_cong [OF g1] by auto
  have g2: "same_graph h (fst st2)"
    using g1 collect_ext_same_graph [OF collect_exported_ext [OF 2]] by (rule same_graph_trans)
  have "case intern ctx (arg_entry ctx) of None \<Rightarrow> True
        | Some sy \<Rightarrow> valid_symbol (fst st2) sy"
    using vn valid_symbol_cong [OF g2] by (simp add: valid_names_def cong: option.case_cong)
  then obtain st3 where 3: "enqueue_symbol (intern ctx (arg_entry ctx)) st2 = Some st3"
    using enqueue_symbol_total by blast
  have g3: "same_graph h (fst st3)"
    using g2 collect_ext_same_graph [OF enqueue_symbol_ext [OF 3]] by (rule same_graph_trans)
  have "\<exists>st4. for_each (arg_undefined ctx) (\<lambda>key. enqueue_symbol (intern ctx key)) st3
           = Some st4 \<and> collect_ext st3 st4"
  proof (rule for_each_collect_total)
    fix key and w :: "heap \<times> isec_ptr list"
    assume key: "key \<in> set (arg_undefined ctx)" and w: "same_graph (fst st3) (fst w)"
    have gw: "same_graph h (fst w)" using g3 w by (rule same_graph_trans)
    have "case intern ctx key of None \<Rightarrow> True | Some sy \<Rightarrow> valid_symbol (fst w) sy"
      using vn key valid_symbol_cong [OF gw] by (simp add: valid_names_def cong: option.case_cong)
    then obtain w' where "enqueue_symbol (intern ctx key) w = Some w'"
      using enqueue_symbol_total by blast
    then show "\<exists>w'. enqueue_symbol (intern ctx key) w = Some w' \<and> collect_ext w w'"
      using enqueue_symbol_ext by blast
  qed
  then obtain st4 where
    4: "for_each (arg_undefined ctx) (\<lambda>key. enqueue_symbol (intern ctx key)) st3 = Some st4"
    and e4: "collect_ext st3 st4" by blast
  have g4: "same_graph h (fst st4)"
    using g3 collect_ext_same_graph [OF e4] by (rule same_graph_trans)
  from vf obtain st5 where 5: "collect_cies ctx st4 = Some st5"
    using collect_cies_total [of ctx st4] valid_files_cong [OF g4] by auto
  show ?thesis
    using 1 2 3 4 5 by (simp add: collect_root_set_def)
qed

text \<open>The collector returns on every input without dangling references.\<close>

lemma gc_sections_total:
  assumes "wf_input ctx h"
  shows "\<exists>h0 h1 roots h2 h'. mark_nonalloc_fragments ctx h = Some h0 \<and>
           collect_root_set ctx h0 = Some (h1, roots) \<and> mark roots h1 = Some h2 \<and>
           sweep ctx h2 = Some h' \<and> gc_sections ctx h = Some h'"
proof -
  from assms obtain h0 where 0: "mark_nonalloc_fragments ctx h = Some h0"
    using mark_nonalloc_fragments_total by (auto simp: wf_input_def)
  have g0: "same_graph h h0"
    using mark_nonalloc_fragments_ext [OF 0] by (rule heap_ext_same_graph)
  have w0: "wf_input ctx h0" using assms wf_input_cong [OF g0] by simp
  then obtain st where "collect_root_set ctx h0 = Some st"
    using collect_root_set_total by blast
  then obtain h1 roots where 1: "collect_root_set ctx h0 = Some (h1, roots)"
    by (cases st) simp
  note e1 = collect_root_set_ext [OF 1]
  have g1: "same_graph h0 h1" using collect_ext_same_graph [OF e1] by simp
  have w1: "wf_input ctx h1" using w0 wf_input_cong [OF g1] by simp
  have "set roots \<subseteq> visited h1" using e1 by (auto simp: collect_ext_def)
  then obtain h2 where 2: "mark roots h1 = Some h2"
    using w1 mark_loop_total [of h1 roots 3] by (auto simp: wf_input_def mark_def)
  have g2: "same_graph h1 h2"
    using mark_loop_ext [OF 2 [unfolded mark_def]] by (rule heap_ext_same_graph)
  have "wf_input ctx h2" using w1 wf_input_cong [OF g2] by simp
  then have "valid_files ctx h2" by (simp add: wf_input_def)
  then obtain h' where 3: "sweep ctx h2 = Some h'"
    using sweep_total valid_files_sweep by blast
  show ?thesis
    using 0 1 2 3 by (simp add: gc_sections_def)
qed

section \<open>The sections accepted during a run\<close>

text \<open>
  To speak about all the calls of \<open>mark_section\<close> of one run, the collector is
  written once more with one more component of the state: the list of the sections that
  \<open>mark_section\<close> has accepted so far, in the order of the calls. Nothing reads this list.
  The functions below are the functions of the collector with \<open>mark_section\<close> replaced
  by \<open>mark_section_log\<close>; \<open>gc_sections_log_erase\<close> shows that, the list left out,
  they compute what the collector computes.
\<close>

definition mark_section_log ::
  "isec_ptr option \<Rightarrow> heap \<times> isec_ptr list \<Rightarrow> (bool \<times> heap \<times> isec_ptr list) option" where
  "mark_section_log isec = (\<lambda>(h, log).
     case mark_section isec h of
       None \<Rightarrow> None
     | Some (accepted, h') \<Rightarrow>
         Some (accepted, h',
           case isec of None \<Rightarrow> log | Some p \<Rightarrow> if accepted then log @ [p] else log))"

definition visit_fde_rel_log ::
  "EhReloc \<Rightarrow> (heap \<times> isec_ptr list) \<times> isec_ptr list \<Rightarrow>
     ((heap \<times> isec_ptr list) \<times> isec_ptr list) option" where
  "visit_fde_rel_log rel = (\<lambda>((h, feeder), log).
     case input_section (sym rel) of
       None \<Rightarrow> Some ((h, feeder), log)
     | Some isec \<Rightarrow>
         (case mark_section_log (Some isec) (h, log) of
            None \<Rightarrow> None
          | Some (accepted, h', log') \<Rightarrow>
              Some ((h', if accepted then feeder @ [isec] else feeder), log')))"

definition visit_fdes_log ::
  "FdeRecord list \<Rightarrow> (heap \<times> isec_ptr list) \<times> isec_ptr list \<Rightarrow>
     ((heap \<times> isec_ptr list) \<times> isec_ptr list) option" where
  "visit_fdes_log fs st =
     for_each fs (\<lambda>fde st.
       case fde_rels fde of
         [] \<Rightarrow> None
       | rel0 # rest \<Rightarrow> for_each rest visit_fde_rel_log st) st"

function visit_log ::
  "nat \<Rightarrow> isec_ptr \<Rightarrow> nat \<Rightarrow> (heap \<times> isec_ptr list) \<times> isec_ptr list \<Rightarrow>
     ((heap \<times> isec_ptr list) \<times> isec_ptr list) option" where
  "visit_log lim isec depth ((h, feeder), log) =
     (case deref (isecs h) isec of
        None \<Rightarrow> None
      | Some s \<Rightarrow>
          if \<not> is_visited s then None
          else
            (case visit_rel_fragments (rel_fragments s) h of
               None \<Rightarrow> None
             | Some h1 \<Rightarrow>
                 (case visit_fdes_log (fdes s) ((h1, feeder), log) of
                    None \<Rightarrow> None
                  | Some st2 \<Rightarrow>
                      for_each (rels s) (\<lambda>rel ((h, feeder), log).
                        case deref (files h) (isec_file s) of
                          None \<Rightarrow> None
                        | Some f \<Rightarrow>
                            (case deref (symbols f) (r_sym rel) of
                               None \<Rightarrow> None
                             | Some sy \<Rightarrow>
                                 (case frag sy of
                                    Some fr \<Rightarrow>
                                      (case set_frag_alive fr h of
                                         None \<Rightarrow> None
                                       | Some h' \<Rightarrow> Some ((h', feeder), log))
                                  | None \<Rightarrow>
                                      (case mark_section_log (input_section sy) (h, log) of
                                         None \<Rightarrow> None
                                       | Some (accepted, h', log') \<Rightarrow>
                                           (case input_section sy of
                                              None \<Rightarrow> Some ((h', feeder), log')
                                            | Some t \<Rightarrow>
                                                if \<not> accepted then Some ((h', feeder), log')
                                                else if depth < lim
                                                  then visit_log lim t (depth + 1)
                                                         ((h', feeder), log')
                                                else Some ((h', feeder @ [t]), log')))))) st2)))"
  by pat_completeness auto
termination
  by (relation "measure (\<lambda>(lim, isec, depth, st). lim - depth)") auto

declare visit_log.simps [simp del]

definition rel_step_log ::
  "nat \<Rightarrow> nat \<Rightarrow> InputSection \<Rightarrow> ElfRela \<Rightarrow> (heap \<times> isec_ptr list) \<times> isec_ptr list \<Rightarrow>
     ((heap \<times> isec_ptr list) \<times> isec_ptr list) option" where
  "rel_step_log lim depth s rel = (\<lambda>((h, feeder), log).
     case deref (files h) (isec_file s) of
       None \<Rightarrow> None
     | Some f \<Rightarrow>
         (case deref (symbols f) (r_sym rel) of
            None \<Rightarrow> None
          | Some sy \<Rightarrow>
              (case frag sy of
                 Some fr \<Rightarrow>
                   (case set_frag_alive fr h of
                      None \<Rightarrow> None
                    | Some h' \<Rightarrow> Some ((h', feeder), log))
               | None \<Rightarrow>
                   (case mark_section_log (input_section sy) (h, log) of
                      None \<Rightarrow> None
                    | Some (accepted, h', log') \<Rightarrow>
                        (case input_section sy of
                           None \<Rightarrow> Some ((h', feeder), log')
                         | Some t \<Rightarrow>
                             if \<not> accepted then Some ((h', feeder), log')
                             else if depth < lim
                               then visit_log lim t (depth + 1) ((h', feeder), log')
                             else Some ((h', feeder @ [t]), log'))))))"

lemma visit_log_unfold:
  "visit_log lim isec depth ((h, feeder), log) =
     (case deref (isecs h) isec of
        None \<Rightarrow> None
      | Some s \<Rightarrow>
          if \<not> is_visited s then None
          else
            (case visit_rel_fragments (rel_fragments s) h of
               None \<Rightarrow> None
             | Some h1 \<Rightarrow>
                 (case visit_fdes_log (fdes s) ((h1, feeder), log) of
                    None \<Rightarrow> None
                  | Some st2 \<Rightarrow> for_each (rels s) (rel_step_log lim depth s) st2)))"
  unfolding rel_step_log_def by (subst visit_log.simps) (rule refl)

text \<open>Leaving out the list of the accepted sections.\<close>

lemma for_each_erase:
  assumes "\<And>x st lg. x \<in> set xs \<Longrightarrow> map_option fst (g x (st, lg)) = f x st"
  shows "map_option fst (for_each xs g (st, lg)) = for_each xs f st"
  using assms
proof (induction xs arbitrary: st lg)
  case Nil
  show ?case by simp
next
  case (Cons x xs)
  have x: "map_option fst (g x (st, lg)) = f x st"
    by (rule Cons.prems) simp
  show ?case
  proof (cases "g x (st, lg)")
    case None
    then show ?thesis using x by simp
  next
    case (Some u)
    obtain st' lg' where u: "u = (st', lg')" by (cases u)
    have "f x st = Some st'" using x Some u by simp
    moreover have "map_option fst (for_each xs g (st', lg')) = for_each xs f st'"
      by (rule Cons.IH) (rule Cons.prems, simp)
    ultimately show ?thesis using Some u by simp
  qed
qed

lemma mark_section_log_erase:
  "map_option (\<lambda>(accepted, h', lg'). (accepted, h')) (mark_section_log isec (h, lg)) =
     mark_section isec h"
  by (simp add: mark_section_log_def split: option.splits)

lemma mark_section_log_cases:
  obtains (stop) "mark_section isec h = None" and "mark_section_log isec (h, lg) = None"
  | (return) accepted h' where "mark_section isec h = Some (accepted, h')"
      and "mark_section_log isec (h, lg) =
        Some (accepted, h', case isec of None \<Rightarrow> lg | Some p \<Rightarrow> if accepted then lg @ [p] else lg)"
  by (cases "mark_section isec h") (auto simp: mark_section_log_def)

lemma visit_fde_rel_log_erase:
  "map_option fst (visit_fde_rel_log rel (st, lg)) = visit_fde_rel rel st"
proof -
  obtain h fd where st: "st = (h, fd)" by (cases st)
  show ?thesis
  proof (cases "input_section (sym rel)")
    case None
    then show ?thesis by (simp add: visit_fde_rel_log_def visit_fde_rel_def st)
  next
    case (Some t)
    show ?thesis
      by (cases rule: mark_section_log_cases [of "Some t" h lg])
        (simp_all add: visit_fde_rel_log_def visit_fde_rel_def st Some)
  qed
qed

lemma visit_fdes_log_erase:
  "map_option fst (visit_fdes_log fs (st, lg)) = visit_fdes fs st"
  unfolding visit_fdes_log_def visit_fdes_def
proof (rule for_each_erase)
  fix fde and u :: "heap \<times> isec_ptr list" and l :: "isec_ptr list"
  show "map_option fst (case fde_rels fde of [] \<Rightarrow> None
            | rel0 # rest \<Rightarrow> for_each rest visit_fde_rel_log (u, l)) =
        (case fde_rels fde of [] \<Rightarrow> None | rel0 # rest \<Rightarrow> for_each rest visit_fde_rel u)"
  proof (cases "fde_rels fde")
    case Nil
    then show ?thesis by simp
  next
    case (Cons rel0 rest)
    have "map_option fst (for_each rest visit_fde_rel_log (u, l)) = for_each rest visit_fde_rel u"
      by (rule for_each_erase) (rule visit_fde_rel_log_erase)
    then show ?thesis using Cons by simp
  qed
qed

lemma visit_log_erase:
  "map_option fst (visit_log lim x depth (st, lg)) = visit lim x depth st"
proof (induction "lim - depth" arbitrary: x depth st lg rule: less_induct)
  case less
  obtain h fd where st: "st = (h, fd)" by (cases st)
  show ?case
  proof (cases "deref (isecs h) x")
    case None
    then show ?thesis by (simp add: st visit_log_unfold visit_unfold)
  next
    case (Some s)
    note s = Some
    show ?thesis
    proof (cases "is_visited s")
      case False
      then show ?thesis using s by (simp add: st visit_log_unfold visit_unfold)
    next
      case vis: True
      show ?thesis
      proof (cases "visit_rel_fragments (rel_fragments s) h")
        case None
        then show ?thesis using s vis by (simp add: st visit_log_unfold visit_unfold)
      next
        case (Some h1)
        note h1 = Some
        have fd: "map_option fst (visit_fdes_log (fdes s) ((h1, fd), lg)) =
            visit_fdes (fdes s) (h1, fd)"
          by (rule visit_fdes_log_erase)
        show ?thesis
        proof (cases "visit_fdes_log (fdes s) ((h1, fd), lg)")
          case None
          then show ?thesis
            using s vis h1 fd by (simp add: st visit_log_unfold visit_unfold)
        next
          case (Some u2)
          obtain st2 lg2 where u2: "u2 = (st2, lg2)" by (cases u2)
          have f2: "visit_fdes (fdes s) (h1, fd) = Some st2"
            using fd Some u2 by simp
          have "map_option fst (for_each (rels s) (rel_step_log lim depth s) (st2, lg2)) =
              for_each (rels s) (rel_step lim depth s) st2"
          proof (rule for_each_erase)
            fix rel and u :: "heap \<times> isec_ptr list" and l :: "isec_ptr list"
            obtain hu fu where u: "u = (hu, fu)" by (cases u)
            show "map_option fst (rel_step_log lim depth s rel (u, l)) =
                rel_step lim depth s rel u"
            proof (cases "deref (files hu) (isec_file s)")
              case None
              then show ?thesis by (simp add: u rel_step_log_def rel_step_def)
            next
              case (Some f)
              note f = Some
              show ?thesis
              proof (cases "deref (symbols f) (r_sym rel)")
                case None
                then show ?thesis using f by (simp add: u rel_step_log_def rel_step_def)
              next
                case (Some sy)
                note sy = Some
                show ?thesis
                proof (cases "frag sy")
                  case (Some fr)
                  then show ?thesis
                    using f sy
                    by (cases "set_frag_alive fr hu")
                      (simp_all add: u rel_step_log_def rel_step_def)
                next
                  case None
                  note nf = None
                  show ?thesis
                  proof (cases rule: mark_section_log_cases [of "input_section sy" hu l])
                    case stop
                    then show ?thesis
                      using f sy nf by (simp add: u rel_step_log_def rel_step_def)
                  next
                    case (return accepted h')
                    show ?thesis
                    proof (cases "input_section sy")
                      case None
                      then show ?thesis
                        using f sy nf return by (simp add: u rel_step_log_def rel_step_def)
                    next
                      case (Some t)
                      show ?thesis
                      proof (cases "accepted \<and> depth < lim")
                        case False
                        then show ?thesis
                          using f sy nf return Some
                          by (auto simp: u rel_step_log_def rel_step_def)
                      next
                        case True
                        then have "lim - (depth + 1) < lim - depth" by auto
                        then have "map_option fst (visit_log lim t (depth + 1) ((h', fu), l @ [t]))
                            = visit lim t (depth + 1) (h', fu)"
                          by (rule less.hyps)
                        then show ?thesis
                          using f sy nf return Some True
                          by (simp add: u rel_step_log_def rel_step_def)
                      qed
                    qed
                  qed
                qed
              qed
            qed
          qed
          then show ?thesis
            using s vis h1 Some u2 f2 by (simp add: st visit_log_unfold visit_unfold)
        qed
      qed
    qed
  qed
qed

lemma visit_log_SomeD:
  assumes "visit_log lim x depth ((h, fd), lg) = Some ((h', fd'), lg')"
  shows "visit lim x depth (h, fd) = Some (h', fd')"
  using visit_log_erase [of lim x depth "(h, fd)" lg] assms by simp

text \<open>\<^verbatim>\<open>mark\<close>, with the list of the accepted sections.\<close>

function mark_loop_log ::
  "nat \<Rightarrow> isec_ptr list \<Rightarrow> heap \<times> isec_ptr list \<Rightarrow> (heap \<times> isec_ptr list) option" where
  "mark_loop_log lim [] (h, log) = Some (h, log)"
| "mark_loop_log lim (isec # work) (h, log) =
     (case visit_log lim isec 0 ((h, work), log) of
        None \<Rightarrow> None
      | Some ((h', work'), log') \<Rightarrow> mark_loop_log lim work' (h', log'))"
  by pat_completeness auto
termination
proof (relation "measure (\<lambda>(lim, work, h, log). length work + pending h)")
  fix lim isec work h log x2 x y h' work' log'
  assume "visit_log lim isec 0 ((h, work), log) = Some x2" and "(x, log') = x2"
    and "(h', work') = x"
  then have "visit lim isec 0 (h, work) = Some (h', work')"
    using visit_log_SomeD by blast
  then have "mark_ext (h, work) (h', work')" by (rule visit_ext)
  then have "length work' + pending h' \<le> length work + pending h" by (rule mark_ext_measure)
  then show "((lim, work', h', log'), (lim, isec # work, h, log))
      \<in> measure (\<lambda>(lim, work, h, log). length work + pending h)"
    by simp
qed simp

definition mark_log :: "isec_ptr list \<Rightarrow> heap \<times> isec_ptr list \<Rightarrow> (heap \<times> isec_ptr list) option" where
  "mark_log roots st = mark_loop_log 3 roots st"

lemma mark_loop_log_erase:
  "map_option fst (mark_loop_log lim work (h, lg)) = mark_loop lim work h"
proof (induction lim work h arbitrary: lg rule: mark_loop.induct)
  case (1 lim h)
  show ?case by simp
next
  case (2 lim isec work h)
  note e = visit_log_erase [of lim isec 0 "(h, work)" lg]
  show ?case
  proof (cases "visit_log lim isec 0 ((h, work), lg)")
    case None
    then show ?thesis using e by simp
  next
    case (Some u)
    obtain h' work' lg' where u: "u = ((h', work'), lg')" by (cases u) auto
    have v: "visit lim isec 0 (h, work) = Some (h', work')"
      using e Some u by simp
    have "map_option fst (mark_loop_log lim work' (h', lg')) = mark_loop lim work' h'"
      using v by (rule "2.IH") simp
    then show ?thesis using Some u v by simp
  qed
qed

text \<open>\<^verbatim>\<open>collect_root_set\<close> and \<^verbatim>\<open>gc_sections\<close>, with the list of the accepted sections.\<close>

definition enqueue_section_log ::
  "isec_ptr option \<Rightarrow> (heap \<times> isec_ptr list) \<times> isec_ptr list \<Rightarrow>
     ((heap \<times> isec_ptr list) \<times> isec_ptr list) option" where
  "enqueue_section_log isec = (\<lambda>((h, roots), log).
     case mark_section_log isec (h, log) of
       None \<Rightarrow> None
     | Some (accepted, h', log') \<Rightarrow>
         (case isec of
            None \<Rightarrow> Some ((h', roots), log')
          | Some p \<Rightarrow> Some ((h', if accepted then roots @ [p] else roots), log')))"

definition enqueue_symbol_log ::
  "Symbol option \<Rightarrow> (heap \<times> isec_ptr list) \<times> isec_ptr list \<Rightarrow>
     ((heap \<times> isec_ptr list) \<times> isec_ptr list) option" where
  "enqueue_symbol_log sy_ptr = (\<lambda>((h, roots), log).
     case sy_ptr of
       None \<Rightarrow> Some ((h, roots), log)
     | Some sy \<Rightarrow>
         (case frag sy of
            Some fr \<Rightarrow>
              (case set_frag_alive fr h of
                 None \<Rightarrow> None
               | Some h' \<Rightarrow> Some ((h', roots), log))
          | None \<Rightarrow> enqueue_section_log (input_section sy) ((h, roots), log)))"

definition collect_section_log ::
  "isec_ptr option \<Rightarrow> (heap \<times> isec_ptr list) \<times> isec_ptr list \<Rightarrow>
     ((heap \<times> isec_ptr list) \<times> isec_ptr list) option" where
  "collect_section_log isec = (\<lambda>((h, roots), log).
     case isec of
       None \<Rightarrow> Some ((h, roots), log)
     | Some p \<Rightarrow>
         (case deref (isecs h) p of
            None \<Rightarrow> None
          | Some s \<Rightarrow>
              let h1 = (if sh_flags (shdr s) AND SHF_ALLOC = 0 then set_is_visited p h else h)
              in if is_init_fini s \<or> sh_type (shdr s) = SHT_NOTE
                 then enqueue_section_log (Some p) ((h1, roots), log)
                 else Some ((h1, roots), log)))"

definition collect_sections_log ::
  "Context \<Rightarrow> (heap \<times> isec_ptr list) \<times> isec_ptr list \<Rightarrow>
     ((heap \<times> isec_ptr list) \<times> isec_ptr list) option" where
  "collect_sections_log ctx st =
     for_each (objs ctx) (\<lambda>file ((h, roots), log).
       case deref (files h) file of
         None \<Rightarrow> None
       | Some f \<Rightarrow> for_each (sections f) collect_section_log ((h, roots), log)) st"

definition collect_exported_log ::
  "Context \<Rightarrow> (heap \<times> isec_ptr list) \<times> isec_ptr list \<Rightarrow>
     ((heap \<times> isec_ptr list) \<times> isec_ptr list) option" where
  "collect_exported_log ctx st =
     for_each (objs ctx) (\<lambda>file ((h, roots), log).
       case deref (files h) file of
         None \<Rightarrow> None
       | Some f \<Rightarrow>
           for_each (symbols f) (\<lambda>sy st.
             if sym_file sy = Some file \<and> is_exported sy then enqueue_symbol_log (Some sy) st
             else Some st) ((h, roots), log)) st"

definition collect_cies_log ::
  "Context \<Rightarrow> (heap \<times> isec_ptr list) \<times> isec_ptr list \<Rightarrow>
     ((heap \<times> isec_ptr list) \<times> isec_ptr list) option" where
  "collect_cies_log ctx st =
     for_each (objs ctx) (\<lambda>file ((h, roots), log).
       case deref (files h) file of
         None \<Rightarrow> None
       | Some f \<Rightarrow>
           for_each (cies f) (\<lambda>cie.
             for_each (cie_rels cie) (\<lambda>rel. enqueue_section_log (input_section (sym rel))))
             ((h, roots), log)) st"

definition collect_root_set_log ::
  "Context \<Rightarrow> heap \<times> isec_ptr list \<Rightarrow> ((heap \<times> isec_ptr list) \<times> isec_ptr list) option" where
  "collect_root_set_log ctx = (\<lambda>(h, log).
     case collect_sections_log ctx ((h, []), log) of
       None \<Rightarrow> None
     | Some st1 \<Rightarrow>
         (case collect_exported_log ctx st1 of
            None \<Rightarrow> None
          | Some st2 \<Rightarrow>
              (case enqueue_symbol_log (intern ctx (arg_entry ctx)) st2 of
                 None \<Rightarrow> None
               | Some st3 \<Rightarrow>
                   (case for_each (arg_undefined ctx)
                           (\<lambda>key. enqueue_symbol_log (intern ctx key)) st3 of
                      None \<Rightarrow> None
                    | Some st4 \<Rightarrow> collect_cies_log ctx st4))))"

definition gc_sections_log :: "Context \<Rightarrow> heap \<Rightarrow> (heap \<times> isec_ptr list) option" where
  "gc_sections_log ctx h =
     (case mark_nonalloc_fragments ctx h of
        None \<Rightarrow> None
      | Some h0 \<Rightarrow>
          (case collect_root_set_log ctx (h0, []) of
             None \<Rightarrow> None
           | Some ((h1, roots), log1) \<Rightarrow>
               (case mark_log roots (h1, log1) of
                  None \<Rightarrow> None
                | Some (h2, log2) \<Rightarrow>
                    (case sweep ctx h2 of
                       None \<Rightarrow> None
                     | Some h' \<Rightarrow> Some (h', log2)))))"

lemma enqueue_section_log_erase:
  "map_option fst (enqueue_section_log isec (st, lg)) = enqueue_section isec st"
proof -
  obtain h rs where st: "st = (h, rs)" by (cases st)
  show ?thesis
    by (cases rule: mark_section_log_cases [of isec h lg])
      (simp_all add: enqueue_section_log_def enqueue_section_def st split: option.splits)
qed

lemma enqueue_symbol_log_erase:
  "map_option fst (enqueue_symbol_log sp (st, lg)) = enqueue_symbol sp st"
proof -
  obtain h rs where st: "st = (h, rs)" by (cases st)
  show ?thesis
  proof (cases sp)
    case None
    then show ?thesis by (simp add: enqueue_symbol_log_def enqueue_symbol_def st)
  next
    case (Some sy)
    show ?thesis
    proof (cases "frag sy")
      case None
      then show ?thesis
        using Some enqueue_section_log_erase [of "input_section sy" "(h, rs)" lg]
        by (simp add: enqueue_symbol_log_def enqueue_symbol_def st)
    next
      case f: (Some fr)
      then show ?thesis
        using Some
        by (cases "set_frag_alive fr h") (simp_all add: enqueue_symbol_log_def enqueue_symbol_def st)
    qed
  qed
qed

lemma collect_section_log_erase:
  "map_option fst (collect_section_log isec (st, lg)) = collect_section isec st"
proof -
  obtain h rs where st: "st = (h, rs)" by (cases st)
  show ?thesis
  proof (cases isec)
    case None
    then show ?thesis by (simp add: collect_section_log_def collect_section_def st)
  next
    case (Some p)
    show ?thesis
    proof (cases "deref (isecs h) p")
      case None
      then show ?thesis using Some by (simp add: collect_section_log_def collect_section_def st)
    next
      case s: (Some s)
      show ?thesis
        using Some s enqueue_section_log_erase [of "Some p" _ lg]
        by (simp add: collect_section_log_def collect_section_def st Let_def)
    qed
  qed
qed

lemma for_each_files_erase:
  fixes g' :: "file_ptr \<Rightarrow> ObjectFile \<Rightarrow> (heap \<times> isec_ptr list) \<times> isec_ptr list \<Rightarrow>
      ((heap \<times> isec_ptr list) \<times> isec_ptr list) option"
    and g :: "file_ptr \<Rightarrow> ObjectFile \<Rightarrow> heap \<times> isec_ptr list \<Rightarrow> (heap \<times> isec_ptr list) option"
  assumes "\<And>fl f u l. map_option fst (g' fl f (u, l)) = g fl f u"
  shows "map_option fst (for_each fs (\<lambda>file ((h, roots), log). case deref (files h) file of
                None \<Rightarrow> None | Some f \<Rightarrow> g' file f ((h, roots), log)) (st, lg)) =
         for_each fs (\<lambda>file (h, roots). case deref (files h) file of
                None \<Rightarrow> None | Some f \<Rightarrow> g file f (h, roots)) st"
  by (rule for_each_erase) (simp add: assms split: option.splits prod.splits)

lemma collect_sections_log_erase:
  "map_option fst (collect_sections_log ctx (st, lg)) = collect_sections ctx st"
  unfolding collect_sections_log_def collect_sections_def
  by (rule for_each_files_erase [where g' = "\<lambda>file f. for_each (sections f) collect_section_log"
        and g = "\<lambda>file f. for_each (sections f) collect_section"])
     (rule for_each_erase, rule collect_section_log_erase)

lemma collect_exported_log_erase:
  "map_option fst (collect_exported_log ctx (st, lg)) = collect_exported ctx st"
  unfolding collect_exported_log_def collect_exported_def
proof (rule for_each_files_erase [where
      g' = "\<lambda>file f. for_each (symbols f) (\<lambda>sy st.
             if sym_file sy = Some file \<and> is_exported sy then enqueue_symbol_log (Some sy) st
             else Some st)"
      and g = "\<lambda>file f. for_each (symbols f) (\<lambda>sy st.
             if sym_file sy = Some file \<and> is_exported sy then enqueue_symbol (Some sy) st
             else Some st)"])
  fix fl f and u :: "heap \<times> isec_ptr list" and l :: "isec_ptr list"
  show "map_option fst (for_each (symbols f) (\<lambda>sy st.
             if sym_file sy = Some fl \<and> is_exported sy then enqueue_symbol_log (Some sy) st
             else Some st) (u, l)) =
        for_each (symbols f) (\<lambda>sy st.
             if sym_file sy = Some fl \<and> is_exported sy then enqueue_symbol (Some sy) st
             else Some st) u"
    by (rule for_each_erase) (auto simp: enqueue_symbol_log_erase)
qed

lemma collect_cies_log_erase:
  "map_option fst (collect_cies_log ctx (st, lg)) = collect_cies ctx st"
  unfolding collect_cies_log_def collect_cies_def
proof (rule for_each_files_erase [where
      g' = "\<lambda>file f. for_each (cies f) (\<lambda>cie.
             for_each (cie_rels cie) (\<lambda>rel. enqueue_section_log (input_section (sym rel))))"
      and g = "\<lambda>file f. for_each (cies f) (\<lambda>cie.
             for_each (cie_rels cie) (\<lambda>rel. enqueue_section (input_section (sym rel))))"])
  fix fl f and u :: "heap \<times> isec_ptr list" and l :: "isec_ptr list"
  show "map_option fst (for_each (cies f) (\<lambda>cie.
             for_each (cie_rels cie) (\<lambda>rel. enqueue_section_log (input_section (sym rel))))
             (u, l)) =
        for_each (cies f) (\<lambda>cie.
             for_each (cie_rels cie) (\<lambda>rel. enqueue_section (input_section (sym rel)))) u"
    by (rule for_each_erase, rule for_each_erase, rule enqueue_section_log_erase)
qed

lemma collect_root_set_log_erase:
  "map_option fst (collect_root_set_log ctx (h, lg)) = collect_root_set ctx h"
proof -
  note e1 = collect_sections_log_erase [of ctx "(h, [])" lg]
  show ?thesis
  proof (cases "collect_sections_log ctx ((h, []), lg)")
    case None
    then show ?thesis using e1 by (simp add: collect_root_set_log_def collect_root_set_def)
  next
    case (Some u1)
    obtain st1 l1 where u1: "u1 = (st1, l1)" by (cases u1)
    have c1: "collect_sections ctx (h, []) = Some st1" using e1 Some u1 by simp
    note e2 = collect_exported_log_erase [of ctx st1 l1]
    show ?thesis
    proof (cases "collect_exported_log ctx (st1, l1)")
      case None
      then show ?thesis
        using Some u1 c1 e2 by (simp add: collect_root_set_log_def collect_root_set_def)
    next
      case s2: (Some u2)
      obtain st2 l2 where u2: "u2 = (st2, l2)" by (cases u2)
      have c2: "collect_exported ctx st1 = Some st2" using e2 s2 u2 by simp
      note e3 = enqueue_symbol_log_erase [of "intern ctx (arg_entry ctx)" st2 l2]
      show ?thesis
      proof (cases "enqueue_symbol_log (intern ctx (arg_entry ctx)) (st2, l2)")
        case None
        then show ?thesis
          using Some u1 c1 s2 u2 c2 e3
          by (simp add: collect_root_set_log_def collect_root_set_def)
      next
        case s3: (Some u3)
        obtain st3 l3 where u3: "u3 = (st3, l3)" by (cases u3)
        have c3: "enqueue_symbol (intern ctx (arg_entry ctx)) st2 = Some st3"
          using e3 s3 u3 by simp
        have e4: "map_option fst (for_each (arg_undefined ctx)
                     (\<lambda>key. enqueue_symbol_log (intern ctx key)) (st3, l3)) =
                  for_each (arg_undefined ctx) (\<lambda>key. enqueue_symbol (intern ctx key)) st3"
          by (rule for_each_erase) (rule enqueue_symbol_log_erase)
        show ?thesis
        proof (cases "for_each (arg_undefined ctx)
                     (\<lambda>key. enqueue_symbol_log (intern ctx key)) (st3, l3)")
          case None
          then show ?thesis
            using Some u1 c1 s2 u2 c2 s3 u3 c3 e4
            by (simp add: collect_root_set_log_def collect_root_set_def)
        next
          case s4: (Some u4)
          obtain st4 l4 where u4: "u4 = (st4, l4)" by (cases u4)
          have c4: "for_each (arg_undefined ctx) (\<lambda>key. enqueue_symbol (intern ctx key)) st3
              = Some st4"
            using e4 s4 u4 by simp
          show ?thesis
            using Some u1 c1 s2 u2 c2 s3 u3 c3 s4 u4 c4 collect_cies_log_erase [of ctx st4 l4]
            by (simp add: collect_root_set_log_def collect_root_set_def)
        qed
      qed
    qed
  qed
qed

lemma gc_sections_log_erase: "map_option fst (gc_sections_log ctx h) = gc_sections ctx h"
proof (cases "mark_nonalloc_fragments ctx h")
  case None
  then show ?thesis by (simp add: gc_sections_log_def gc_sections_def)
next
  case (Some h0)
  note e1 = collect_root_set_log_erase [of ctx h0 "[]"]
  show ?thesis
  proof (cases "collect_root_set_log ctx (h0, [])")
    case None
    then show ?thesis using Some e1 by (simp add: gc_sections_log_def gc_sections_def)
  next
    case s1: (Some u1)
    obtain h1 roots l1 where u1: "u1 = ((h1, roots), l1)" by (cases u1) auto
    have c1: "collect_root_set ctx h0 = Some (h1, roots)" using e1 s1 u1 by simp
    note e2 = mark_loop_log_erase [of 3 roots h1 l1]
    show ?thesis
    proof (cases "mark_log roots (h1, l1)")
      case None
      then show ?thesis
        using Some s1 u1 c1 e2 by (simp add: gc_sections_log_def gc_sections_def mark_log_def mark_def)
    next
      case s2: (Some u2)
      obtain h2 l2 where u2: "u2 = (h2, l2)" by (cases u2)
      have c2: "mark roots h1 = Some h2" using e2 s2 u2 by (simp add: mark_log_def mark_def)
      show ?thesis
        using Some s1 u1 c1 s2 u2 c2
        by (cases "sweep ctx h2") (simp_all add: gc_sections_log_def gc_sections_def)
    qed
  qed
qed

text \<open>
  The list of the accepted sections only grows, and what is added are distinct sections
  whose \<^verbatim>\<open>is_visited\<close> has changed from false to true in between. So no section is in
  the list twice.
\<close>

definition acc_ext ::
  "(heap \<times> isec_ptr list) \<times> isec_ptr list \<Rightarrow> (heap \<times> isec_ptr list) \<times> isec_ptr list \<Rightarrow> bool" where
  "acc_ext u u' \<longleftrightarrow> collect_ext (fst (fst u), snd u) (fst (fst u'), snd u')"

lemma acc_ext_refl [simp]: "acc_ext u u"
  by (simp add: acc_ext_def)

lemma acc_ext_trans: "acc_ext u v \<Longrightarrow> acc_ext v w \<Longrightarrow> acc_ext u w"
  unfolding acc_ext_def by (rule collect_ext_trans)

lemma for_each_acc_ext:
  assumes "for_each xs f u = Some u'"
    and "\<And>x v v'. x \<in> set xs \<Longrightarrow> f x v = Some v' \<Longrightarrow> acc_ext v v'"
  shows "acc_ext u u'"
  using assms(1) by (rule for_each_rel) (simp, erule (1) acc_ext_trans, erule (1) assms(2))

lemma acc_ext_heap: "flags_mono h h' \<Longrightarrow> acc_ext ((h, xs), lg) ((h', xs'), lg)"
  by (simp add: acc_ext_def collect_ext_def)

lemma mark_section_log_ext:
  assumes "mark_section_log isec (h, lg) = Some (accepted, h', lg')"
  shows "collect_ext (h, lg) (h', lg')"
proof -
  from assms have m: "mark_section isec h = Some (accepted, h')"
    and lg': "lg' = (case isec of None \<Rightarrow> lg | Some p \<Rightarrow> if accepted then lg @ [p] else lg)"
    by (auto simp: mark_section_log_def split: option.splits)
  show ?thesis
  proof (cases isec)
    case None
    then show ?thesis
      using mark_section_ext [OF m] by (simp add: lg' collect_ext_heap heap_ext_flags_mono)
  next
    case (Some p)
    have "mark_ext (h, lg) (h', if accepted then lg @ [p] else lg)"
      using m unfolding Some by (rule mark_section_feed_ext)
    then show ?thesis
      unfolding lg' Some by (simp add: mark_ext_collect_ext)
  qed
qed

lemma mark_section_log_acc_ext:
  assumes "mark_section_log isec (h, lg) = Some (accepted, h', lg')"
  shows "acc_ext ((h, xs), lg) ((h', xs'), lg')"
  using mark_section_log_ext [OF assms] by (simp add: acc_ext_def)

lemma set_frag_alive_acc_ext:
  assumes "set_frag_alive fr h = Some h'"
  shows "acc_ext ((h, xs), lg) ((h', xs'), lg)"
  using set_frag_alive_ext [OF assms] by (simp add: acc_ext_heap heap_ext_flags_mono)

lemma visit_fde_rel_log_ext:
  assumes "visit_fde_rel_log rel u = Some u'"
  shows "acc_ext u u'"
proof -
  obtain h fd lg where u: "u = ((h, fd), lg)" by (cases u) auto
  show ?thesis
    using assms mark_section_log_acc_ext
    by (auto simp: u visit_fde_rel_log_def split: option.splits)
qed

lemma visit_fdes_log_ext:
  assumes "visit_fdes_log fs u = Some u'"
  shows "acc_ext u u'"
  using assms unfolding visit_fdes_log_def
proof (rule for_each_acc_ext)
  fix fde v v'
  assume "(case fde_rels fde of [] \<Rightarrow> None
           | rel0 # rest \<Rightarrow> for_each rest visit_fde_rel_log v) = Some v'"
  then obtain rel0 rest where "for_each rest visit_fde_rel_log v = Some v'"
    by (auto split: list.splits)
  then show "acc_ext v v'"
    by (rule for_each_acc_ext) (rule visit_fde_rel_log_ext)
qed

lemma visit_log_ext:
  assumes "visit_log lim x depth u = Some u'"
  shows "acc_ext u u'"
  using assms
proof (induction "lim - depth" arbitrary: x depth u u' rule: less_induct)
  case less
  obtain h fd lg where u: "u = ((h, fd), lg)" by (cases u) auto
  from less.prems obtain s h1 st2 where
    frs: "visit_rel_fragments (rel_fragments s) h = Some h1"
    and fds: "visit_fdes_log (fdes s) ((h1, fd), lg) = Some st2"
    and loop: "for_each (rels s) (rel_step_log lim depth s) st2 = Some u'"
    unfolding u visit_log_unfold by (auto split: option.splits if_splits)
  have 1: "acc_ext ((h, fd), lg) ((h1, fd), lg)"
    using visit_rel_fragments_ext [OF frs] by (simp add: acc_ext_heap heap_ext_flags_mono)
  have 2: "acc_ext ((h1, fd), lg) st2"
    using fds by (rule visit_fdes_log_ext)
  have 3: "acc_ext st2 u'"
    using loop
  proof (rule for_each_acc_ext)
    fix rel v v'
    assume step: "rel_step_log lim depth s rel v = Some v'"
    obtain hv fv lv where v: "v = ((hv, fv), lv)" by (cases v) auto
    from step obtain sy where sy: "rel_symbol hv s rel = Some sy"
      by (auto simp: v rel_step_log_def rel_symbol_def split: option.splits)
    then obtain f where f: "deref (files hv) (isec_file s) = Some f"
      and fsy: "deref (symbols f) (r_sym rel) = Some sy"
      by (auto simp: rel_symbol_def split: option.splits)
    show "acc_ext v v'"
    proof (cases "frag sy")
      case (Some fr)
      then show ?thesis
        using step f fsy set_frag_alive_acc_ext
        by (auto simp: v rel_step_log_def split: option.splits)
    next
      case None
      from step f fsy None obtain accepted h' l' where
        m: "mark_section_log (input_section sy) (hv, lv) = Some (accepted, h', l')"
        by (auto simp: v rel_step_log_def split: option.splits)
      have a: "acc_ext ((hv, fv), lv) ((h', xs'), l')" for xs'
        using m by (rule mark_section_log_acc_ext)
      show ?thesis
      proof (cases "input_section sy")
        case n: None
        then show ?thesis
          using step f fsy None m a by (auto simp: v rel_step_log_def)
      next
        case (Some t)
        show ?thesis
        proof (cases "accepted \<and> depth < lim")
          case False
          then show ?thesis
            using step f fsy None m a Some
            by (auto simp: v rel_step_log_def split: if_splits)
        next
          case True
          then have r: "visit_log lim t (depth + 1) ((h', fv), l') = Some v'"
            using step f fsy None m Some by (simp add: v rel_step_log_def)
          have "lim - (depth + 1) < lim - depth" using True by auto
          then have "acc_ext ((h', fv), l') v'"
            using r by (rule less.hyps)
          then show ?thesis
            unfolding v using a acc_ext_trans by blast
        qed
      qed
    qed
  qed
  show ?case
    unfolding u using 1 2 3 acc_ext_trans by blast
qed

lemma mark_loop_log_ext:
  assumes "mark_loop_log lim work st = Some st'"
  shows "collect_ext st st'"
  using assms
proof (induction lim work st arbitrary: st' rule: mark_loop_log.induct)
  case (1 lim h lg)
  then show ?case by simp
next
  case (2 lim isec work h lg)
  from "2.prems" obtain h' work' lg' where
    v: "visit_log lim isec 0 ((h, work), lg) = Some ((h', work'), lg')"
    and rest: "mark_loop_log lim work' (h', lg') = Some st'"
    by (auto split: option.splits)
  have a: "collect_ext (h, lg) (h', lg')"
    using visit_log_ext [OF v] by (simp add: acc_ext_def)
  have "collect_ext (h', lg') st'"
    using v _ _ rest by (rule "2.IH") simp_all
  with a show ?case by (rule collect_ext_trans)
qed

lemma enqueue_section_log_ext:
  assumes "enqueue_section_log isec u = Some u'"
  shows "acc_ext u u'"
proof -
  obtain h rs lg where u: "u = ((h, rs), lg)" by (cases u) auto
  show ?thesis
    using assms mark_section_log_acc_ext
    by (auto simp: u enqueue_section_log_def split: option.splits)
qed

lemma enqueue_symbol_log_ext:
  assumes "enqueue_symbol_log sp u = Some u'"
  shows "acc_ext u u'"
proof -
  obtain h rs lg where u: "u = ((h, rs), lg)" by (cases u) auto
  show ?thesis
    using assms set_frag_alive_acc_ext enqueue_section_log_ext
    by (auto simp: u enqueue_symbol_log_def split: option.splits)
qed

lemma collect_section_log_ext:
  assumes "collect_section_log isec u = Some u'"
  shows "acc_ext u u'"
proof -
  obtain h rs lg where u: "u = ((h, rs), lg)" by (cases u) auto
  show ?thesis
  proof (cases isec)
    case None
    then show ?thesis using assms by (simp add: u collect_section_log_def)
  next
    case (Some p)
    from assms Some obtain s where s: "deref (isecs h) p = Some s"
      by (auto simp: u collect_section_log_def split: option.splits)
    let ?h1 = "if sh_flags (shdr s) AND SHF_ALLOC = 0 then set_is_visited p h else h"
    have 1: "acc_ext ((h, rs), lg) ((?h1, rs), lg)"
      by (rule acc_ext_heap) (simp add: set_is_visited_flags_mono)
    have "acc_ext ((?h1, rs), lg) u'"
    proof (cases "is_init_fini s \<or> sh_type (shdr s) = SHT_NOTE")
      case True
      then have "enqueue_section_log (Some p) ((?h1, rs), lg) = Some u'"
        using assms Some s by (simp add: u collect_section_log_def Let_def)
      then show ?thesis by (rule enqueue_section_log_ext)
    next
      case False
      then have "u' = ((?h1, rs), lg)"
        using assms Some s by (simp add: u collect_section_log_def Let_def)
      then show ?thesis by simp
    qed
    with 1 show ?thesis unfolding u by (rule acc_ext_trans)
  qed
qed

lemma for_each_files_acc_ext:
  fixes g :: "file_ptr \<Rightarrow> ObjectFile \<Rightarrow> (heap \<times> isec_ptr list) \<times> isec_ptr list \<Rightarrow>
      ((heap \<times> isec_ptr list) \<times> isec_ptr list) option"
  assumes "for_each fs (\<lambda>file ((h, roots), log). case deref (files h) file of
                None \<Rightarrow> None | Some f \<Rightarrow> g file f ((h, roots), log)) u = Some u'"
    and "\<And>fl f v v'. g fl f v = Some v' \<Longrightarrow> acc_ext v v'"
  shows "acc_ext u u'"
  using assms(1)
proof (rule for_each_acc_ext)
  fix fl v v'
  assume a: "(\<lambda>((h, roots), log). case deref (files h) fl of
                None \<Rightarrow> None | Some f \<Rightarrow> g fl f ((h, roots), log)) v = Some v'"
  obtain h rs lg where v: "v = ((h, rs), lg)" by (cases v) auto
  from a obtain f where "g fl f v = Some v'"
    by (auto simp: v split: option.splits)
  then show "acc_ext v v'" by (rule assms(2))
qed

lemma collect_sections_log_ext:
  assumes "collect_sections_log ctx u = Some u'"
  shows "acc_ext u u'"
  using assms unfolding collect_sections_log_def
  by (rule for_each_files_acc_ext [where g = "\<lambda>file f. for_each (sections f) collect_section_log"])
     (erule for_each_acc_ext, erule collect_section_log_ext)

lemma collect_exported_log_ext:
  assumes "collect_exported_log ctx u = Some u'"
  shows "acc_ext u u'"
  using assms unfolding collect_exported_log_def
proof (rule for_each_files_acc_ext [where g = "\<lambda>file f. for_each (symbols f) (\<lambda>sy st.
             if sym_file sy = Some file \<and> is_exported sy then enqueue_symbol_log (Some sy) st
             else Some st)"])
  fix fl f v v'
  assume "for_each (symbols f) (\<lambda>sy st.
             if sym_file sy = Some fl \<and> is_exported sy then enqueue_symbol_log (Some sy) st
             else Some st) v = Some v'"
  then show "acc_ext v v'"
    by (rule for_each_acc_ext) (auto split: if_splits dest: enqueue_symbol_log_ext)
qed

lemma collect_cies_log_ext:
  assumes "collect_cies_log ctx u = Some u'"
  shows "acc_ext u u'"
  using assms unfolding collect_cies_log_def
proof (rule for_each_files_acc_ext [where g = "\<lambda>file f. for_each (cies f) (\<lambda>cie.
             for_each (cie_rels cie) (\<lambda>rel. enqueue_section_log (input_section (sym rel))))"])
  fix fl f v v'
  assume "for_each (cies f) (\<lambda>cie.
             for_each (cie_rels cie) (\<lambda>rel. enqueue_section_log (input_section (sym rel)))) v
          = Some v'"
  then show "acc_ext v v'"
    by (rule for_each_acc_ext) (erule for_each_acc_ext, erule enqueue_section_log_ext)
qed

lemma collect_root_set_log_ext:
  assumes "collect_root_set_log ctx (h, lg) = Some u'"
  shows "acc_ext ((h, []), lg) u'"
proof -
  from assms obtain st1 st2 st3 st4 where 1: "collect_sections_log ctx ((h, []), lg) = Some st1"
    and 2: "collect_exported_log ctx st1 = Some st2"
    and 3: "enqueue_symbol_log (intern ctx (arg_entry ctx)) st2 = Some st3"
    and 4: "for_each (arg_undefined ctx) (\<lambda>key. enqueue_symbol_log (intern ctx key)) st3
              = Some st4"
    and 5: "collect_cies_log ctx st4 = Some u'"
    by (auto simp: collect_root_set_log_def split: option.splits)
  have "acc_ext st3 st4"
    using 4 by (rule for_each_acc_ext) (erule enqueue_symbol_log_ext)
  then show ?thesis
    using collect_sections_log_ext [OF 1] collect_exported_log_ext [OF 2]
      enqueue_symbol_log_ext [OF 3] collect_cies_log_ext [OF 5] acc_ext_trans by blast
qed

lemma mark_nonalloc_fragments_isecs:
  assumes "mark_nonalloc_fragments ctx h = Some h'"
  shows "isecs h' = isecs h"
  using assms unfolding mark_nonalloc_fragments_def
proof (rule for_each_inv [where I = "\<lambda>u. isecs u = isecs h"])
  fix fl and u u' :: heap
  assume u: "isecs u = isecs h"
    and "(case deref (files u) fl of None \<Rightarrow> None
          | Some f \<Rightarrow> for_each (fragments f) (\<lambda>fr (h::heap). case deref (frags h) fr of
               None \<Rightarrow> None
             | Some fg \<Rightarrow> if sh_flags (output_section_shdr fg) AND SHF_ALLOC = 0
                 then set_frag_alive fr h else Some h) u) = Some u'"
  then obtain f :: ObjectFile where "for_each (fragments f) (\<lambda>fr (h::heap). case deref (frags h) fr of
               None \<Rightarrow> None
             | Some fg \<Rightarrow> if sh_flags (output_section_shdr fg) AND SHF_ALLOC = 0
                 then set_frag_alive fr h else Some h) u = Some u'"
    by (auto split: option.splits)
  then show "isecs u' = isecs h"
    using u
    by (rule for_each_inv)
      (auto split: option.splits if_splits dest: set_frag_alive_effect(4))
qed simp

lemma gc_sections_log_distinct:
  assumes "gc_sections_log ctx h = Some (h', lg)"
  shows "distinct lg" and "set lg \<subseteq> visited h' - visited h"
proof -
  from assms obtain h0 h1 roots l1 h2 where 0: "mark_nonalloc_fragments ctx h = Some h0"
    and 1: "collect_root_set_log ctx (h0, []) = Some ((h1, roots), l1)"
    and 2: "mark_log roots (h1, l1) = Some (h2, lg)"
    and 3: "sweep ctx h2 = Some h'"
    by (auto simp: gc_sections_log_def split: option.splits)
  have a: "collect_ext (h0, []) (h1, l1)"
    using collect_root_set_log_ext [OF 1] by (simp add: acc_ext_def)
  have b: "collect_ext (h1, l1) (h2, lg)"
    using 2 unfolding mark_log_def by (rule mark_loop_log_ext)
  have c: "collect_ext (h0, []) (h2, lg)" using a b by (rule collect_ext_trans)
  have v0: "visited h \<subseteq> visited h0"
    using mark_nonalloc_fragments_ext [OF 0] by (simp add: heap_ext_def)
  have v3: "visited h' = visited h2" using 3 by (rule sweep_effect(2))
  show "distinct lg" using c by (simp add: collect_ext_def)
  have "set lg \<subseteq> visited h2 - visited h0" using c by (simp add: collect_ext_def)
  moreover have "visited h0 = visited h"
    using mark_nonalloc_fragments_isecs [OF 0] by (rule visited_cong)
  ultimately show "set lg \<subseteq> visited h' - visited h" using v3 by simp
qed

section \<open>Marking with a pure queue\<close>

text \<open>
  The marker as the specification describes it for the bound 0: \<open>visit_queue\<close> never calls
  itself, it hands every section that \<open>mark_section\<close> accepts to the feeder, and
  \<open>mark_queue\<close> takes the pending sections first in, first out.
\<close>

definition visit_queue ::
  "isec_ptr \<Rightarrow> heap \<times> isec_ptr list \<Rightarrow> (heap \<times> isec_ptr list) option" where
  "visit_queue isec = (\<lambda>(h, feeder).
     case deref (isecs h) isec of
       None \<Rightarrow> None
     | Some s \<Rightarrow>
         if \<not> is_visited s then None
         else
           (case visit_rel_fragments (rel_fragments s) h of
              None \<Rightarrow> None
            | Some h1 \<Rightarrow>
                (case visit_fdes (fdes s) (h1, feeder) of
                   None \<Rightarrow> None
                 | Some st2 \<Rightarrow>
                     for_each (rels s) (\<lambda>rel (h, feeder).
                       case rel_symbol h s rel of
                         None \<Rightarrow> None
                       | Some sy \<Rightarrow>
                           (case frag sy of
                              Some fr \<Rightarrow>
                                (case set_frag_alive fr h of
                                   None \<Rightarrow> None
                                 | Some h' \<Rightarrow> Some (h', feeder))
                            | None \<Rightarrow>
                                (case input_section sy of
                                   None \<Rightarrow> Some (h, feeder)
                                 | Some t \<Rightarrow>
                                     (case mark_section (Some t) h of
                                        None \<Rightarrow> None
                                      | Some (accepted, h') \<Rightarrow>
                                          Some (h', if accepted then feeder @ [t] else feeder)))))
                       st2)))"

lemma rel_step_0:
  "rel_step 0 depth s rel (h, feeder) =
     (case rel_symbol h s rel of
        None \<Rightarrow> None
      | Some sy \<Rightarrow>
          (case frag sy of
             Some fr \<Rightarrow>
               (case set_frag_alive fr h of
                  None \<Rightarrow> None
                | Some h' \<Rightarrow> Some (h', feeder))
           | None \<Rightarrow>
               (case input_section sy of
                  None \<Rightarrow> Some (h, feeder)
                | Some t \<Rightarrow>
                    (case mark_section (Some t) h of
                       None \<Rightarrow> None
                     | Some (accepted, h') \<Rightarrow>
                         Some (h', if accepted then feeder @ [t] else feeder)))))"
  by (auto simp: rel_step_def rel_symbol_def mark_section_None split: option.splits)

lemma visit_queue_eq: "visit 0 isec depth st = visit_queue isec st"
proof -
  obtain h fd where st: "st = (h, fd)" by (cases st)
  have loop: "for_each xs (rel_step 0 depth s) u =
      for_each xs (\<lambda>rel (h, feeder).
                       case rel_symbol h s rel of
                         None \<Rightarrow> None
                       | Some sy \<Rightarrow>
                           (case frag sy of
                              Some fr \<Rightarrow>
                                (case set_frag_alive fr h of
                                   None \<Rightarrow> None
                                 | Some h' \<Rightarrow> Some (h', feeder))
                            | None \<Rightarrow>
                                (case input_section sy of
                                   None \<Rightarrow> Some (h, feeder)
                                 | Some t \<Rightarrow>
                                     (case mark_section (Some t) h of
                                        None \<Rightarrow> None
                                      | Some (accepted, h') \<Rightarrow>
                                          Some (h', if accepted then feeder @ [t] else feeder)))))
                       u" for xs s and u :: "heap \<times> isec_ptr list"
    by (rule for_each_cong) (auto simp: rel_step_0)
  show ?thesis
    by (simp add: st visit_unfold visit_queue_def loop cong: option.case_cong if_cong)
qed

function mark_queue :: "isec_ptr list \<Rightarrow> heap \<Rightarrow> heap option" where
  "mark_queue [] h = Some h"
| "mark_queue (isec # work) h =
     (case visit_queue isec (h, work) of
        None \<Rightarrow> None
      | Some (h', work') \<Rightarrow> mark_queue work' h')"
  by pat_completeness auto
termination
proof (relation "measure (\<lambda>(work, h). length work + pending h)")
  fix isec work h x2 h' work'
  assume "visit_queue isec (h, work) = Some x2" and "(h', work') = x2"
  then have "visit 0 isec 0 (h, work) = Some (h', work')" by (simp add: visit_queue_eq)
  then have "mark_ext (h, work) (h', work')" by (rule visit_ext)
  then have "length work' + pending h' \<le> length work + pending h" by (rule mark_ext_measure)
  then show "((work', h'), (isec # work, h)) \<in> measure (\<lambda>(work, h). length work + pending h)"
    by simp
qed simp

lemma mark_queue_eq: "mark_loop 0 work h = mark_queue work h"
proof (induction work h rule: mark_queue.induct)
  case (1 h)
  show ?case by simp
next
  case (2 isec work h)
  show ?case
  proof (cases "visit_queue isec (h, work)")
    case None
    then show ?thesis by (simp add: visit_queue_eq)
  next
    case (Some u)
    obtain h' work' where u: "u = (h', work')" by (cases u)
    have "mark_loop 0 work' h' = mark_queue work' h'"
      using Some u by (intro "2.IH") simp_all
    then show ?thesis using Some u by (simp add: visit_queue_eq)
  qed
qed

lemma mark_loop_bound:
  assumes "mark_loop lim roots h = Some a" and "mark_loop lim' roots h = Some b"
  shows "a = b"
proof -
  note ra = mark_loop_result [OF assms(1)] and rb = mark_loop_result [OF assms(2)]
  note da = heap_ext_D [OF ra(1)] and db = heap_ext_D [OF rb(1)]
  have "same_graph b a"
    using same_graph_sym [OF db(1)] da(1) by (rule same_graph_trans)
  moreover have "visited a = visited b" using ra(2) rb(2) by simp
  moreover have "alive a = alive b" using da(2) db(2) by simp
  moreover have "alive_frags a = alive_frags b" using ra(3) rb(3) by simp
  moreover have "counter a = counter b" "out a = out b"
    using ra(1) rb(1) by (simp_all add: heap_ext_def)
  ultimately show ?thesis by (rule heap_eqI)
qed

section \<open>The edges that one call of \<^verbatim>\<open>visit\<close> follows\<close>

lemma rel_step_total:
  assumes "valid_sections h" and "rel_symbol h s rel = Some sy" and "valid_symbol h sy"
  shows "\<exists>u'. rel_step lim depth s rel (h, fd) = Some u'"
proof -
  from assms(2) obtain f where f: "deref (files h) (isec_file s) = Some f"
    and fsy: "deref (symbols f) (r_sym rel) = Some sy"
    by (auto simp: rel_symbol_def split: option.splits)
  show ?thesis
  proof (cases "frag sy")
    case (Some fr)
    then have "fr < length (frags h)" using assms(3) by (simp add: valid_symbol_def)
    then show ?thesis
      using f fsy Some by (simp add: rel_step_def set_frag_alive_def)
  next
    case None
    then have r: "valid_isec_ref h (input_section sy)"
      using assms(3) by (simp add: valid_symbol_def)
    show ?thesis
    proof (cases "input_section sy")
      case n: None
      then show ?thesis using f fsy None by (simp add: rel_step_def mark_section_None)
    next
      case (Some t)
      then have t: "t < length (isecs h)" using r by (simp add: valid_isec_ref_def)
      note m = mark_section_Some [OF t]
      show ?thesis
      proof (cases "t \<in> alive h \<and> t \<notin> visited h \<and> depth < lim")
        case False
        then show ?thesis
          using f fsy None Some m by (auto simp: rel_step_def)
      next
        case True
        let ?h' = "set_is_visited t h"
        have g': "same_graph h ?h'" and tv: "t \<in> visited ?h'"
          using set_is_visited_effect(1,2) [OF t] by simp_all
        have "valid_sections ?h'"
          using assms(1) valid_sections_cong [OF g'] by simp
        then have "\<exists>st'. visit lim t (depth + 1) (?h', fd) = Some st'"
          using tv by (rule visit_total)
        then show ?thesis
          using f fsy None Some m True by (simp add: rel_step_def)
      qed
    qed
  qed
qed

lemma rel_step_edge:
  assumes "rel_step lim depth s rel (h, feeder) = Some (h', feeder')"
  shows "\<exists>sy. rel_symbol h s rel = Some sy \<and>
         (\<forall>fr. frag sy = Some fr \<longrightarrow>
            isecs h' = isecs h \<and> feeder' = feeder \<and>
            alive_frags h' = insert fr (alive_frags h)) \<and>
         (frag sy = None \<longrightarrow>
            (\<exists>accepted h1. mark_section (input_section sy) h = Some (accepted, h1) \<and>
               (\<not> accepted \<longrightarrow> h' = h1 \<and> feeder' = feeder) \<and>
               (accepted \<longrightarrow>
                  (\<exists>t. input_section sy = Some t \<and> t \<in> visited h' \<and>
                     (if depth < lim
                      then visit lim t (depth + 1) (h1, feeder) = Some (h', feeder')
                      else h' = h1 \<and> feeder' = feeder @ [t])))))"
  using assms
proof (cases rule: rel_step_SomeE)
  case (fragment sy fr h1)
  note e = set_frag_alive_effect [OF fragment(3)]
  show ?thesis
    using fragment e(3,4) by (intro exI [of _ sy]) simp
next
  case (rejected sy h1)
  then show ?thesis by (intro exI [of _ sy]) auto
next
  case (descend sy t h1)
  have "t \<in> visited h1"
    using mark_section_effect(2) [OF descend(4)] mark_section_effect(1) [OF descend(4)] by simp
  moreover have "visited h1 \<subseteq> visited h'"
    using heap_ext_D(3) [OF mark_ext_heap_ext [OF visit_ext [OF descend(6)]]] by simp
  ultimately have "t \<in> visited h'" by blast
  then show ?thesis
    using descend by (intro exI [of _ sy]) auto
next
  case (feed sy t h1)
  have "t \<in> visited h1"
    using mark_section_effect(2) [OF feed(4)] mark_section_effect(1) [OF feed(4)] by simp
  then show ?thesis
    using feed by (intro exI [of _ sy]) auto
qed

lemma visit_edges:
  assumes v: "visit lim x depth (g, fd) = Some (g', fd')"
    and r: "r \<in> set (rels (isecs g ! x))"
  shows "\<exists>sy. rel_symbol g (isecs g ! x) r = Some sy \<and>
         (\<forall>fr. frag sy = Some fr \<longrightarrow> fr \<in> alive_frags g') \<and>
         (frag sy = None \<longrightarrow>
            (\<forall>t. input_section sy = Some t \<and> t \<in> alive g \<longrightarrow> t \<in> visited g'))"
proof -
  from v obtain s h1 st2 where s: "deref (isecs g) x = Some s"
    and loop: "for_each (rels s) (rel_step lim depth s) st2 = Some (g', fd')"
    and fds: "visit_fdes (fdes s) (h1, fd) = Some st2"
    and frs: "visit_rel_fragments (rel_fragments s) g = Some h1"
    by (rule visit_SomeE)
  have ss: "isecs g ! x = s" using s by (simp add: deref_def split: if_splits)
  have c: "closed g' x" using visit_traverse [OF v] by (simp add: visit_post_def)
  have e: "heap_ext g g'" using mark_ext_heap_ext [OF visit_ext [OF v]] by simp
  note d = heap_ext_D [OF e]
  have c': "set (section_edges g x) \<inter> alive g \<subseteq> visited g'"
    "set (fragment_edges g x) \<subseteq> alive_frags g'"
    using c unfolding closed_def section_edges_cong [OF d(1)] fragment_edges_cong [OF d(1)] d(2)
    by simp_all
  have e2: "heap_ext g (fst st2)"
    using visit_rel_fragments_ext [OF frs] mark_ext_heap_ext [OF visit_fdes_ext [OF fds]]
    by (auto intro: heap_ext_trans)
  have "\<exists>sy. rel_symbol g s r = Some sy"
  proof -
    have f2: "files (fst st2) = files g" using heap_ext_D(5) [OF e2] .
    have "files (fst (g', fd')) = files g \<and>
        (\<forall>rel\<in>set (rels s). \<exists>sy. rel_symbol g s rel = Some sy)"
      using loop f2
    proof (rule for_each_all_inv [where I = "\<lambda>u. files (fst u) = files g"
          and Q = "\<lambda>rel u. \<exists>sy. rel_symbol g s rel = Some sy"])
      fix rel u u'
      assume f: "files (fst u) = files g" and st: "rel_step lim depth s rel u = Some u'"
      obtain hu fu where u: "u = (hu, fu)" by (cases u)
      have "files (fst u') = files (fst u)"
        using heap_ext_D(5) [OF mark_ext_heap_ext [OF rel_step_ext [OF st]]] .
      moreover have "\<exists>sy. rel_symbol hu s rel = Some sy"
        using st [unfolded u] by (cases rule: rel_step_SomeE) auto
      ultimately show "files (fst u') = files g \<and> (\<exists>sy. rel_symbol g s rel = Some sy)"
        using f rel_symbol_cong [of hu g s rel] by (simp add: u)
    qed
    then show ?thesis using r ss by simp
  qed
  then obtain sy where sy: "rel_symbol g s r = Some sy" by blast
  note rr = reloc_of_symbol [OF sy]
  have 1: "\<forall>fr. frag sy = Some fr \<longrightarrow> fr \<in> alive_frags g'"
    using fragment_edges_reloc [OF s r [unfolded ss], of _ ] rr(1) c'(2)
    by (auto split: option.splits)
  have 2: "frag sy = None \<longrightarrow> (\<forall>t. input_section sy = Some t \<and> t \<in> alive g \<longrightarrow> t \<in> visited g')"
    using section_edges_reloc [OF s r [unfolded ss]] rr(2) c'(1)
    by (auto split: option.splits)
  show ?thesis
    unfolding ss by (rule exI [of _ sy]) (use sy 1 2 in simp)
qed

lemma visit_fdes_targets:
  assumes "visit_fdes fs (h, feeder) = Some (h', feeder')"
  shows "visited h' = visited h \<union> ((\<Union>fde\<in>set fs. set (fde_targets fde)) \<inter> alive h) \<and>
         (\<exists>new. feeder' = feeder @ new \<and> distinct new \<and>
            set new = ((\<Union>fde\<in>set fs. set (fde_targets fde)) \<inter> alive h) - visited h) \<and>
         alive h' = alive h \<and> frags h' = frags h \<and>
         (\<forall>fde\<in>set fs. \<exists>rel0 rest. fde_rels fde = rel0 # rest \<and>
            set (fde_targets fde) = {t. \<exists>rel\<in>set rest. input_section (sym rel) = Some t} \<and>
            (\<forall>t. input_section (sym rel0) = Some t \<and>
                 t \<notin> (\<Union>fde\<in>set fs. set (fde_targets fde))
                 \<longrightarrow> (t \<in> visited h') = (t \<in> visited h)))"
proof -
  let ?T = "\<Union>fde\<in>set fs. set (fde_targets fde)"
  note e = visit_fdes_effect [OF assms, unfolded fst_conv]
  from e(1) obtain new where new: "feeder' = feeder @ new" "distinct new"
      "set new = visited h' - visited h" "set new \<subseteq> ?T"
    and ext: "heap_ext h h'" and fr: "frags h' = frags h"
    unfolding fed_ext_def by auto
  note d = heap_ext_D [OF ext]
  have v: "visited h' = visited h \<union> (?T \<inter> alive h)"
    using new(3,4) e(2) d(3,6) by blast
  have n: "set new = (?T \<inter> alive h) - visited h"
    unfolding new(3) v by blast
  have r: "\<exists>rel0 rest. fde_rels fde = rel0 # rest \<and>
            set (fde_targets fde) = {t. \<exists>rel\<in>set rest. input_section (sym rel) = Some t} \<and>
            (\<forall>t. input_section (sym rel0) = Some t \<and> t \<notin> ?T
                 \<longrightarrow> (t \<in> visited h') = (t \<in> visited h))"
    if "fde \<in> set fs" for fde
  proof -
    from e(3) that obtain rel0 rest where c: "fde_rels fde = rel0 # rest"
      by (cases "fde_rels fde") auto
    have "set (fde_targets fde) = {t. \<exists>rel\<in>set rest. input_section (sym rel) = Some t}"
      using fde_targets_iff [of _ fde] c by auto
    moreover have "\<forall>t. input_section (sym rel0) = Some t \<and> t \<notin> ?T
                 \<longrightarrow> (t \<in> visited h') = (t \<in> visited h)"
      unfolding v by blast
    ultimately show ?thesis using c by blast
  qed
  show ?thesis using v new(1,2) n d(2) fr r by blast
qed

section \<open>The sections that survive\<close>

text \<open>
  \<open>spec_reachable\<close> is reachability as the specification states it: from a root, along
  FDE edges over \<^verbatim>\<open>rels[1..]\<close> and relocation edges. \<open>live_edges\<close> are the edges that the
  marker can take in a run that starts with no \<^verbatim>\<open>is_visited\<close> flag set: to a section that
  is alive and is not one of the sections without \<^verbatim>\<open>SHF_ALLOC\<close> that the root collector
  has set aside.
\<close>

definition spec_reachable :: "heap \<Rightarrow> isec_ptr list \<Rightarrow> isec_ptr set" where
  "spec_reachable h roots = {(a, b). b \<in> set (section_edges h a)}\<^sup>* `` set roots"

definition live_edges :: "Context \<Rightarrow> heap \<Rightarrow> (isec_ptr \<times> isec_ptr) set" where
  "live_edges ctx h =
     {(a, b). b \<in> set (section_edges h a) \<and> b \<in> alive h \<and> b \<notin> nonalloc_sections ctx h}"

lemma rtrancl_Image_without:
  assumes "R1 = {(a, b). (a, b) \<in> E \<and> b \<notin> S}"
  shows "S \<union> R1\<^sup>+ `` S = E\<^sup>* `` S"
proof (intro equalityI subsetI)
  fix x
  assume "x \<in> S \<union> R1\<^sup>+ `` S"
  then show "x \<in> E\<^sup>* `` S"
  proof
    assume "x \<in> S"
    then show ?thesis by auto
  next
    assume "x \<in> R1\<^sup>+ `` S"
    then obtain r where r: "r \<in> S" and p: "(r, x) \<in> R1\<^sup>+" by auto
    have "R1 \<subseteq> E" using assms by auto
    then have "(r, x) \<in> E\<^sup>+" using p trancl_mono by blast
    then have "(r, x) \<in> E\<^sup>*" by (rule trancl_into_rtrancl)
    then show ?thesis using r by auto
  qed
next
  fix x
  assume "x \<in> E\<^sup>* `` S"
  then obtain r where r: "r \<in> S" and p: "(r, x) \<in> E\<^sup>*" by auto
  from p show "x \<in> S \<union> R1\<^sup>+ `` S"
  proof (induction rule: rtrancl_induct)
    case base
    show ?case using r by simp
  next
    case (step y z)
    show ?case
    proof (cases "z \<in> S")
      case True
      then show ?thesis by simp
    next
      case False
      then have e: "(y, z) \<in> R1" using step.hyps(2) assms by simp
      from step.IH show ?thesis
      proof
        assume "y \<in> S"
        then have "z \<in> R1\<^sup>+ `` S" using e by auto
        then show ?thesis by simp
      next
        assume "y \<in> R1\<^sup>+ `` S"
        then obtain q where "q \<in> S" and "(q, y) \<in> R1\<^sup>+" by auto
        then have "(q, z) \<in> R1\<^sup>+" using e by (meson trancl.trancl_into_trancl)
        then show ?thesis using \<open>q \<in> S\<close> by auto
      qed
    qed
  qed
qed

lemma nonalloc_sections_cong:
  assumes "isecs h' = isecs h" and "files h' = files h"
  shows "nonalloc_sections ctx h' = nonalloc_sections ctx h"
  using assms ctx_sections_cong [OF assms(2), of ctx]
  by (simp add: nonalloc_sections_def lacks_alloc_def)

text \<open>
  What is alive after a run that starts with no \<^verbatim>\<open>is_visited\<close> flag set: sweep removes the
  sections of the input that are neither without \<^verbatim>\<open>SHF_ALLOC\<close> nor reached from a root.
\<close>

lemma gc_sections_alive:
  assumes 0: "mark_nonalloc_fragments ctx h = Some h0"
    and 1: "collect_root_set ctx h0 = Some (h1, roots)"
    and 2: "mark roots h1 = Some h2"
    and 3: "sweep ctx h2 = Some h'"
    and v: "visited h = {}"
  shows "alive h' = alive h -
           (set (ctx_sections ctx h) -
              (nonalloc_sections ctx h \<union> (live_edges ctx h)\<^sup>* `` set roots))"
proof -
  let ?NA = "nonalloc_sections ctx h"
  have i0: "isecs h0 = isecs h" using 0 by (rule mark_nonalloc_fragments_isecs)
  have g0: "same_graph h h0"
    using mark_nonalloc_fragments_ext [OF 0] by (rule heap_ext_same_graph)
  have f0: "files h0 = files h" using g0 by (rule same_graph_length)
  have v0: "visited h0 = {}" using v visited_cong [OF i0] by simp
  have a0: "alive h0 = alive h" using i0 by (rule alive_cong)
  have n0: "nonalloc_sections ctx h0 = ?NA" using i0 f0 by (rule nonalloc_sections_cong)
  note c = collect_root_set_effect [OF 1]
  have g1: "same_graph h0 h1" and a1: "alive h1 = alive h0"
    using c(1) by (simp_all add: flags_mono_def)
  have v1: "visited h1 = ?NA \<union> set roots" using c(4) v0 n0 by simp
  have gh1: "same_graph h h1" using g0 g1 by (rule same_graph_trans)
  note m = mark_loop_result [OF 2 [unfolded mark_def]]
  note d = heap_ext_D [OF m(1)]
  have gh2: "same_graph h h2" using gh1 d(1) by (rule same_graph_trans)
  have e1: "section_edges h1 p = section_edges h p" for p
    using gh1 by (rule section_edges_cong)
  let ?R1 = "{(a, b). (a, b) \<in> live_edges ctx h \<and> b \<notin> set roots}"
  have "reach_rel h1 (visited h1) = ?R1"
    unfolding reach_rel_def live_edges_def v1 e1 a1 a0 by auto
  then have "visited h2 = ?NA \<union> (set roots \<union> ?R1\<^sup>+ `` set roots)"
    using m(2) v1 by auto
  also have "set roots \<union> ?R1\<^sup>+ `` set roots = (live_edges ctx h)\<^sup>* `` set roots"
    by (rule rtrancl_Image_without) (rule refl)
  finally have v2: "visited h2 = ?NA \<union> (live_edges ctx h)\<^sup>* `` set roots" .
  have a2: "alive h2 = alive h" using d(2) a1 a0 by simp
  have "files h2 = files h" using gh2 by (rule same_graph_length)
  then have l2: "ctx_sections ctx h2 = ctx_sections ctx h" by (rule ctx_sections_cong)
  show ?thesis
    using sweep_effect(4) [OF 3] unfolding l2 a2 v2 .
qed

section \<open>Running the collector again\<close>

text \<open>
  A heap \<open>t\<close> is later than \<open>u\<close> when it has the graph of \<open>u\<close>, every \<^verbatim>\<open>is_visited\<close> flag and
  every alive fragment of \<open>u\<close>, and no section alive that is not alive in \<open>u\<close>. A step of
  the root collector or of \<open>mark_nonalloc_fragments\<close> that has been done before a heap
  later than its result changes nothing when it is done again on that heap.
\<close>

definition later :: "heap \<Rightarrow> heap \<Rightarrow> bool" where
  "later u t \<longleftrightarrow>
     same_graph u t \<and> visited u \<subseteq> visited t \<and> alive t \<subseteq> alive u \<and>
     alive_frags u \<subseteq> alive_frags t"

lemma later_flags_mono:
  assumes "flags_mono a b" and "later b t"
  shows "later a t"
  using assms same_graph_trans [of a b t] unfolding flags_mono_def later_def by auto

lemma for_each_back:
  assumes "for_each xs f s = Some s'" and "L s'"
    and "\<And>x u u'. x \<in> set xs \<Longrightarrow> f x u = Some u' \<Longrightarrow> L u' \<Longrightarrow> L u"
  shows "L s"
  using assms
proof (induction xs arbitrary: s)
  case Nil
  then show ?case by simp
next
  case (Cons x xs)
  from Cons.prems(1) obtain u where u: "f x s = Some u" and rest: "for_each xs f u = Some s'"
    by (auto split: option.splits)
  have "L u"
    using rest Cons.prems(2) by (rule Cons.IH) (rule Cons.prems(3), simp_all)
  then show ?case using Cons.prems(3) [of x s u] u by simp
qed

lemma for_each_rerun:
  assumes "for_each xs f s = Some s'" and "L s'"
    and "\<And>x u u'. x \<in> set xs \<Longrightarrow> f x u = Some u' \<Longrightarrow> L u' \<Longrightarrow> L u"
    and "\<And>x u u'. x \<in> set xs \<Longrightarrow> f x u = Some u' \<Longrightarrow> L u' \<Longrightarrow> f x T = Some T"
  shows "for_each xs f T = Some T"
  using assms
proof (induction xs arbitrary: s)
  case Nil
  show ?case by simp
next
  case (Cons x xs)
  from Cons.prems(1) obtain u where u: "f x s = Some u" and rest: "for_each xs f u = Some s'"
    by (auto split: option.splits)
  have "L u"
    using rest Cons.prems(2) by (rule for_each_back) (rule Cons.prems(3), simp_all)
  then have "f x T = Some T" using Cons.prems(4) [of x s u] u by simp
  moreover have "for_each xs f T = Some T"
    using rest Cons.prems(2)
  proof (rule Cons.IH)
    show "\<And>y v v'. y \<in> set xs \<Longrightarrow> f y v = Some v' \<Longrightarrow> L v' \<Longrightarrow> L v"
      by (rule Cons.prems(3)) simp_all
    show "\<And>y v v'. y \<in> set xs \<Longrightarrow> f y v = Some v' \<Longrightarrow> L v' \<Longrightarrow> f y T = Some T"
      by (rule Cons.prems(4)) simp_all
  qed
  ultimately show ?case by simp
qed

lemma set_frag_alive_id:
  assumes "f \<in> alive_frags h"
  shows "set_frag_alive f h = Some h"
proof -
  have f: "f < length (frags h)" and a: "frag_is_alive (frags h ! f)"
    using assms by (simp_all add: alive_frags_def)
  have "(frags h ! f)\<lparr>frag_is_alive := True\<rparr> = frags h ! f" using a by simp
  then have "(frags h)[f := (frags h ! f)\<lparr>frag_is_alive := True\<rparr>] = frags h" by simp
  then show ?thesis using f by (simp add: set_frag_alive_def)
qed

lemma set_frag_alive_rerun:
  assumes "set_frag_alive f u = Some u'" and "later u' t"
  shows "set_frag_alive f t = Some t"
proof -
  have "f \<in> alive_frags u'" using set_frag_alive_effect(3) [OF assms(1)] by simp
  then have "f \<in> alive_frags t" using assms(2) by (auto simp: later_def)
  then show ?thesis by (rule set_frag_alive_id)
qed

lemma mark_section_rerun:
  assumes "mark_section isec u = Some (accepted, u')" and "later u' t"
  shows "mark_section isec t = Some (False, t)"
proof (cases isec)
  case None
  then show ?thesis by (simp add: mark_section_None)
next
  case (Some p)
  note e = mark_section_effect [OF assms(1)]
  have g: "same_graph u t"
    using e(3) assms(2) same_graph_trans unfolding later_def by blast
  have p: "p < length (isecs t)"
    using e(8) Some same_graph_length(1) [OF g] by simp
  have v: "p \<in> visited t" if "p \<in> alive t"
  proof -
    from that have "p \<in> alive u" using assms(2) e(4) by (auto simp: later_def)
    then have "p \<in> visited u'" unfolding e(2) using Some by simp
    then show ?thesis using assms(2) by (auto simp: later_def)
  qed
  show ?thesis
    using v set_is_visited_id [of p t] by (simp add: Some mark_section_Some [OF p])
qed

lemma enqueue_section_rerun:
  assumes "enqueue_section isec u = Some u'" and "later (fst u') t"
  shows "enqueue_section isec (t, rs) = Some (t, rs)"
proof -
  obtain h roots where u: "u = (h, roots)" by (cases u)
  from assms(1) obtain accepted h' where m: "mark_section isec h = Some (accepted, h')"
    and u': "u' = (h', roots @ (case isec of Some p \<Rightarrow> if accepted then [p] else [] | None \<Rightarrow> []))"
    unfolding u by (rule enqueue_section_SomeE)
  have "mark_section isec t = Some (False, t)"
    using m assms(2) unfolding u' by (simp add: mark_section_rerun)
  then show ?thesis by (simp add: enqueue_section_def split: option.splits)
qed

lemma enqueue_symbol_rerun:
  assumes "enqueue_symbol sp u = Some u'" and "later (fst u') t"
  shows "enqueue_symbol sp (t, rs) = Some (t, rs)"
proof -
  obtain h roots where u: "u = (h, roots)" by (cases u)
  from assms(1) [unfolded u] show ?thesis
  proof (cases rule: enqueue_symbol_SomeE)
    case null
    then show ?thesis by (simp add: enqueue_symbol_def)
  next
    case (fragment sy fr h')
    have "set_frag_alive fr t = Some t"
      using fragment(3) assms(2) unfolding fragment(4) by (simp add: set_frag_alive_rerun)
    then show ?thesis using fragment(1,2) by (simp add: enqueue_symbol_def)
  next
    case (isection sy)
    have "enqueue_section (input_section sy) (t, rs) = Some (t, rs)"
      using isection(3) assms(2) by (rule enqueue_section_rerun)
    then show ?thesis using isection(1,2) by (simp add: enqueue_symbol_def)
  qed
qed

lemma collect_section_rerun:
  assumes "collect_section isec u = Some u'" and "later (fst u') t"
  shows "collect_section isec (t, rs) = Some (t, rs)"
proof (cases isec)
  case None
  then show ?thesis by (simp add: collect_section_def)
next
  case (Some p)
  obtain h roots where u: "u = (h, roots)" by (cases u)
  from assms(1) Some obtain s where s: "deref (isecs h) p = Some s"
    by (auto simp: u collect_section_def split: option.splits)
  then have p: "p < length (isecs h)" and sp: "s = isecs h ! p"
    by (auto simp: deref_def split: if_splits)
  let ?na = "sh_flags (shdr s) AND SHF_ALLOC = 0"
  let ?h1 = "if ?na then set_is_visited p h else h"
  let ?en = "is_init_fini s \<or> sh_type (shdr s) = SHT_NOTE"
  have run: "(if ?en then enqueue_section (Some p) (?h1, roots) else Some (?h1, roots)) = Some u'"
    using assms(1) Some s by (simp add: u collect_section_def Let_def)
  have m1: "flags_mono ?h1 (fst u')"
  proof (cases ?en)
    case True
    then have "enqueue_section (Some p) (?h1, roots) = Some u'" using run by simp
    then show ?thesis using enqueue_section_ext by (fastforce simp: collect_ext_def)
  next
    case False
    then show ?thesis using run by auto
  qed
  have l1: "later ?h1 t" using m1 assms(2) by (rule later_flags_mono)
  have g1: "same_graph h ?h1" using set_is_visited_effect(1) [OF p] by simp
  have g: "same_graph h t"
    using g1 l1 same_graph_trans unfolding later_def by blast
  have pt: "p < length (isecs t)" using p same_graph_length(1) [OF g] by simp
  note st = same_graph_isec [OF g p]
  have dt: "deref (isecs t) p = Some (isecs t ! p)" using pt by (simp add: deref_def)
  have shdr: "shdr (isecs t ! p) = shdr s" and name: "name (isecs t ! p) = name s"
    using st(2,3) sp by simp_all
  have fin: "is_init_fini (isecs t ! p) = is_init_fini s"
    by (simp add: is_init_fini_def shdr name)
  have vis: "set_is_visited p t = t" if ?na
  proof -
    have "p \<in> visited ?h1" using that set_is_visited_effect(2) [OF p] by simp
    then have "p \<in> visited t" using l1 by (auto simp: later_def)
    then show ?thesis by (simp add: set_is_visited_id)
  qed
  have en: "enqueue_section (Some p) (t, rs) = Some (t, rs)" if ?en
  proof -
    have "enqueue_section (Some p) (?h1, roots) = Some u'" using run that by simp
    then show ?thesis using assms(2) by (rule enqueue_section_rerun)
  qed
  show ?thesis
    using vis en by (auto simp: Some collect_section_def dt shdr fin Let_def)
qed

text \<open>The loops of the root collector over the files of the context.\<close>

lemma for_each_files_rerun:
  fixes g :: "file_ptr \<Rightarrow> ObjectFile \<Rightarrow> heap \<times> isec_ptr list \<Rightarrow> (heap \<times> isec_ptr list) option"
  assumes "for_each fs (\<lambda>file (h, roots). case deref (files h) file of
                None \<Rightarrow> None | Some f \<Rightarrow> g file f (h, roots)) st = Some st'"
    and "later (fst st') t"
    and "\<And>fl f u u'. g fl f u = Some u' \<Longrightarrow> collect_ext u u'"
    and "\<And>fl f u u'. g fl f u = Some u' \<Longrightarrow> later (fst u') t \<Longrightarrow> g fl f (t, rs) = Some (t, rs)"
  shows "for_each fs (\<lambda>file (h, roots). case deref (files h) file of
                None \<Rightarrow> None | Some f \<Rightarrow> g file f (h, roots)) (t, rs) = Some (t, rs)"
  using assms(1)
proof (rule for_each_rerun [where L = "\<lambda>u. later (fst u) t"])
  show "later (fst st') t" by (rule assms(2))
next
  fix fl and u u' :: "heap \<times> isec_ptr list"
  assume a: "(\<lambda>(h, roots). case deref (files h) fl of
                None \<Rightarrow> None | Some f \<Rightarrow> g fl f (h, roots)) u = Some u'"
    and l: "later (fst u') t"
  obtain h roots where u: "u = (h, roots)" by (cases u)
  from a obtain f where f: "deref (files h) fl = Some f" and r: "g fl f u = Some u'"
    by (auto simp: u split: option.splits)
  have m: "flags_mono (fst u) (fst u')"
    using assms(3) [OF r] by (simp add: collect_ext_def)
  show lu: "later (fst u) t" using m l by (rule later_flags_mono)
  have "files t = files h"
    using lu same_graph_length(3) by (auto simp: later_def u)
  then have "deref (files t) fl = Some f" using f by simp
  then show "(\<lambda>(h, roots). case deref (files h) fl of
                None \<Rightarrow> None | Some f \<Rightarrow> g fl f (h, roots)) (t, rs) = Some (t, rs)"
    using assms(4) [OF r l] by simp
qed

lemma for_each_collect_rerun:
  fixes st :: "heap \<times> isec_ptr list"
  assumes "for_each xs f st = Some st'" and "later (fst st') t"
    and "\<And>x u u'. f x u = Some u' \<Longrightarrow> collect_ext u u'"
    and "\<And>x u u'. f x u = Some u' \<Longrightarrow> later (fst u') t \<Longrightarrow> f x (t, rs) = Some (t, rs)"
  shows "for_each xs f (t, rs) = Some (t, rs)"
  using assms(1)
proof (rule for_each_rerun [where L = "\<lambda>u. later (fst u) t"])
  show "later (fst st') t" by (rule assms(2))
next
  fix x and u u' :: "heap \<times> isec_ptr list"
  assume r: "f x u = Some u'" and l: "later (fst u') t"
  have "flags_mono (fst u) (fst u')"
    using assms(3) [OF r] by (simp add: collect_ext_def)
  then show "later (fst u) t" using l by (rule later_flags_mono)
  show "f x (t, rs) = Some (t, rs)" using r l by (rule assms(4))
qed

lemma collect_sections_rerun:
  assumes "collect_sections ctx st = Some st'" and "later (fst st') t"
  shows "collect_sections ctx (t, rs) = Some (t, rs)"
  using assms unfolding collect_sections_def
proof (rule for_each_files_rerun [where g = "\<lambda>file f. for_each (sections f) collect_section"])
  fix fl f and u u' :: "heap \<times> isec_ptr list"
  assume r: "for_each (sections f) collect_section u = Some u'"
  show "collect_ext u u'"
    using r by (rule for_each_collect_ext) (erule collect_section_ext)
  assume "later (fst u') t"
  with r show "for_each (sections f) collect_section (t, rs) = Some (t, rs)"
    by (rule for_each_collect_rerun) (erule collect_section_ext, erule (1) collect_section_rerun)
qed

lemma collect_exported_rerun:
  assumes "collect_exported ctx st = Some st'" and "later (fst st') t"
  shows "collect_exported ctx (t, rs) = Some (t, rs)"
  using assms unfolding collect_exported_def
proof (rule for_each_files_rerun [where g = "\<lambda>file f. for_each (symbols f) (\<lambda>sy st.
             if sym_file sy = Some file \<and> is_exported sy then enqueue_symbol (Some sy) st
             else Some st)"])
  fix fl f and u u' :: "heap \<times> isec_ptr list"
  let ?body = "\<lambda>sy (st :: heap \<times> isec_ptr list).
             if sym_file sy = Some fl \<and> is_exported sy then enqueue_symbol (Some sy) st
             else Some st"
  have ext: "collect_ext v v'" if "?body sy v = Some v'" for sy v v'
    using that enqueue_symbol_ext by (auto split: if_splits)
  have again: "?body sy (t, rs) = Some (t, rs)"
    if "?body sy v = Some v'" and "later (fst v') t" for sy v v'
    using that enqueue_symbol_rerun by (auto split: if_splits)
  assume r: "for_each (symbols f) ?body u = Some u'"
  show "collect_ext u u'"
    using r by (rule for_each_collect_ext) (erule ext)
  assume "later (fst u') t"
  with r show "for_each (symbols f) ?body (t, rs) = Some (t, rs)"
    by (rule for_each_collect_rerun) (erule ext, erule (1) again)
qed

lemma collect_cies_rerun:
  assumes "collect_cies ctx st = Some st'" and "later (fst st') t"
  shows "collect_cies ctx (t, rs) = Some (t, rs)"
  using assms unfolding collect_cies_def
proof (rule for_each_files_rerun [where g = "\<lambda>file f. for_each (cies f) (\<lambda>cie.
             for_each (cie_rels cie) (\<lambda>rel. enqueue_section (input_section (sym rel))))"])
  fix fl f and u u' :: "heap \<times> isec_ptr list"
  let ?inner = "\<lambda>cie. for_each (cie_rels cie) (\<lambda>rel. enqueue_section (input_section (sym rel)))"
  have ext: "collect_ext v v'" if "?inner cie v = Some v'" for cie v v'
    using that by (rule for_each_collect_ext) (erule enqueue_section_ext)
  have again: "?inner cie (t, rs) = Some (t, rs)"
    if "?inner cie v = Some v'" and "later (fst v') t" for cie v v'
    using that
    by (rule for_each_collect_rerun) (erule enqueue_section_ext, erule (1) enqueue_section_rerun)
  assume r: "for_each (cies f) ?inner u = Some u'"
  show "collect_ext u u'"
    using r by (rule for_each_collect_ext) (erule ext)
  assume "later (fst u') t"
  with r show "for_each (cies f) ?inner (t, rs) = Some (t, rs)"
    by (rule for_each_collect_rerun) (erule ext, erule (1) again)
qed

lemma collect_root_set_rerun:
  assumes "collect_root_set ctx h = Some (h1, roots)" and "later h1 t"
  shows "collect_root_set ctx t = Some (t, [])"
proof -
  from assms(1) obtain st1 st2 st3 st4 where 1: "collect_sections ctx (h, []) = Some st1"
    and 2: "collect_exported ctx st1 = Some st2"
    and 3: "enqueue_symbol (intern ctx (arg_entry ctx)) st2 = Some st3"
    and 4: "for_each (arg_undefined ctx) (\<lambda>key. enqueue_symbol (intern ctx key)) st3 = Some st4"
    and 5: "collect_cies ctx st4 = Some (h1, roots)"
    by (rule collect_root_set_SomeE)
  have e4: "collect_ext st3 st4"
    using 4 by (rule for_each_collect_ext) (erule enqueue_symbol_ext)
  have earlier: "later (fst a) t" if "collect_ext a b" and "later (fst b) t"
    for a b :: "heap \<times> isec_ptr list"
    using that later_flags_mono by (auto simp: collect_ext_def)
  have l4: "later (fst st4) t"
    using collect_cies_ext [OF 5] assms(2) earlier by fastforce
  have l3: "later (fst st3) t" using e4 l4 by (rule earlier)
  have l2: "later (fst st2) t" using enqueue_symbol_ext [OF 3] l3 by (rule earlier)
  have l1: "later (fst st1) t" using collect_exported_ext [OF 2] l2 by (rule earlier)
  have r1: "collect_sections ctx (t, []) = Some (t, [])"
    using 1 l1 by (rule collect_sections_rerun)
  have r2: "collect_exported ctx (t, []) = Some (t, [])"
    using 2 l2 by (rule collect_exported_rerun)
  have r3: "enqueue_symbol (intern ctx (arg_entry ctx)) (t, []) = Some (t, [])"
    using 3 l3 by (rule enqueue_symbol_rerun)
  have r4: "for_each (arg_undefined ctx) (\<lambda>key. enqueue_symbol (intern ctx key)) (t, [])
      = Some (t, [])"
    using 4 l4
    by (rule for_each_collect_rerun) (erule enqueue_symbol_ext, erule (1) enqueue_symbol_rerun)
  have r5: "collect_cies ctx (t, []) = Some (t, [])"
    using 5 by (rule collect_cies_rerun) (simp add: assms(2))
  show ?thesis
    by (simp add: collect_root_set_def r1 r2 r3 r4 r5)
qed

lemma mark_nonalloc_fragments_rerun:
  assumes "mark_nonalloc_fragments ctx h = Some h0" and "later h0 t"
  shows "mark_nonalloc_fragments ctx t = Some t"
  using assms unfolding mark_nonalloc_fragments_def
proof (rule for_each_rerun [where L = "\<lambda>u. later u t"])
  let ?body = "\<lambda>fr (h::heap). case deref (frags h) fr of
               None \<Rightarrow> None
             | Some fg \<Rightarrow> if sh_flags (output_section_shdr fg) AND SHF_ALLOC = 0
                 then set_frag_alive fr h else Some h"
  fix fl and u u' :: heap
  assume a: "(case deref (files u) fl of None \<Rightarrow> None
          | Some f \<Rightarrow> for_each (fragments f) ?body u) = Some u'" and l: "later u' t"
  then obtain f :: ObjectFile where f: "deref (files u) fl = Some f"
    and r: "for_each (fragments f) ?body u = Some u'"
    by (auto split: option.splits)
  have step_ext: "heap_ext v v'" if "?body fr v = Some v'" for fr v v'
    using that by (auto split: option.splits if_splits dest: set_frag_alive_ext)
  have "heap_ext u u'"
    using r by (rule for_each_heap_ext) (erule step_ext)
  then have m: "flags_mono u u'" by (rule heap_ext_flags_mono)
  show lu: "later u t" using m l by (rule later_flags_mono)
  have "files t = files u"
    using lu same_graph_length(3) by (auto simp: later_def)
  then have ft: "deref (files t) fl = Some f" using f by simp
  have "for_each (fragments f) ?body t = Some t"
    using r l
  proof (rule for_each_rerun [where L = "\<lambda>u. later u t"])
    fix fr and v v' :: heap
    assume s: "?body fr v = Some v'" and lv: "later v' t"
    show lvv: "later v t"
      using heap_ext_flags_mono [OF step_ext [OF s]] lv by (rule later_flags_mono)
    from s obtain fg where fg: "deref (frags v) fr = Some fg"
      by (auto split: option.splits)
    then have frv: "fr < length (frags v)" and fgv: "fg = frags v ! fr"
      by (auto simp: deref_def split: if_splits)
    have gv: "same_graph v t" using lvv by (simp add: later_def)
    have frt: "fr < length (frags t)" using frv same_graph_length(2) [OF gv] by simp
    have sh: "output_section_shdr (frags t ! fr) = output_section_shdr fg"
      using same_graph_frag [OF gv frv] fgv by simp
    show "?body fr t = Some t"
    proof (cases "sh_flags (output_section_shdr fg) AND SHF_ALLOC = 0")
      case True
      then have "set_frag_alive fr v = Some v'" using s fg by simp
      then have "set_frag_alive fr t = Some t" using lv by (rule set_frag_alive_rerun)
      then show ?thesis using frt sh True by (simp add: deref_def)
    next
      case False
      then show ?thesis using frt sh by (simp add: deref_def)
    qed
  qed
  then show "(case deref (files t) fl of None \<Rightarrow> None
          | Some f \<Rightarrow> for_each (fragments f) ?body t) = Some t"
    using ft by simp
qed

lemma for_each_fixed:
  assumes "\<And>x. x \<in> set xs \<Longrightarrow> f x t = Some t"
  shows "for_each xs f t = Some t"
  using assms by (induction xs) simp_all

lemma sweep_again:
  assumes "sweep ctx h = Some t"
  shows "sweep ctx t = Some t"
proof -
  have gt: "same_graph h t" using assms by (rule sweep_effect(1))
  have "files t = files h" using gt by (rule same_graph_length)
  then have cs: "ctx_sections ctx t = ctx_sections ctx h" by (rule ctx_sections_cong)
  have sw: "swept t p" if "p \<in> set (ctx_sections ctx t)" for p
    using sweep_swept [OF assms, of p] that unfolding cs by simp
  show ?thesis
    using assms unfolding sweep_def
  proof (rule for_each_rerun [where L = "\<lambda>u. same_graph u t"])
    show "same_graph t t" by simp
  next
    fix fl and u u' :: heap
    assume fl: "fl \<in> set (objs ctx)"
      and a: "(case deref (files u) fl of None \<Rightarrow> None
            | Some f \<Rightarrow> for_each (sections f) (sweep_section ctx) u) = Some u'"
      and g: "same_graph u' t"
    from a obtain f where f: "deref (files u) fl = Some f"
      and r: "for_each (sections f) (sweep_section ctx) u = Some u'"
      by (rule sweep_body_SomeE)
    have step: "same_graph v v'" if "sweep_section ctx isec v = Some v'" for isec v v'
      using that by (cases rule: sweep_section_SomeE) simp_all
    have "same_graph u u'"
      using r by (rule for_each_rel) (simp, erule (1) same_graph_trans, erule step)
    then show gu: "same_graph u t" using g by (rule same_graph_trans)
    have ft: "deref (files t) fl = Some f"
      using f same_graph_length(3) [OF gu] by simp
    have "for_each (sections f) (sweep_section ctx) t = Some t"
    proof (rule for_each_fixed)
      fix isec
      assume isec: "isec \<in> set (sections f)"
      show "sweep_section ctx isec t = Some t"
      proof (cases isec)
        case None
        then show ?thesis by (simp add: sweep_section_def)
      next
        case (Some p)
        have "p \<in> set (ctx_sections ctx t)"
          using fl ft isec Some by (auto simp: ctx_sections_iff)
        then have "swept t p" by (rule sw)
        then show ?thesis
          by (auto simp: Some sweep_section_def swept_def deref_def alive_def visited_def)
      qed
    qed
    then show "(case deref (files t) fl of None \<Rightarrow> None
            | Some f \<Rightarrow> for_each (sections f) (sweep_section ctx) t) = Some t"
      using ft by simp
  qed
qed

text \<open>A second run on the result of a run returns the heap it is given.\<close>

lemma gc_sections_again:
  assumes "gc_sections ctx h = Some h'"
  shows "gc_sections ctx h' = Some h'"
proof -
  from assms obtain h0 h1 roots h2 where 0: "mark_nonalloc_fragments ctx h = Some h0"
    and 1: "collect_root_set ctx h0 = Some (h1, roots)" and 2: "mark roots h1 = Some h2"
    and 3: "sweep ctx h2 = Some h'"
    by (auto simp: gc_sections_def split: option.splits)
  note e2 = mark_loop_ext [OF 2 [unfolded mark_def]]
  note s = sweep_effect [OF 3]
  have l2: "later h2 h'"
    unfolding later_def using s(1,2,4) alive_frags_cong [OF s(3)] by auto
  have l1: "later h1 h'"
    using heap_ext_flags_mono [OF e2] l2 by (rule later_flags_mono)
  have m1: "flags_mono h0 h1"
    using collect_root_set_ext [OF 1] by (simp add: collect_ext_def)
  have l0: "later h0 h'" using m1 l1 by (rule later_flags_mono)
  have r0: "mark_nonalloc_fragments ctx h' = Some h'"
    using 0 l0 by (rule mark_nonalloc_fragments_rerun)
  have r1: "collect_root_set ctx h' = Some (h', [])"
    using 1 l1 by (rule collect_root_set_rerun)
  have r3: "sweep ctx h' = Some h'" using 3 by (rule sweep_again)
  show ?thesis
    by (simp add: gc_sections_def r0 r1 r3 mark_def)
qed

section \<open>A worked example\<close>

text \<open>
  One object file with sixteen sections: an \<^verbatim>\<open>.init_array\<close> section with relocations, a
  fragment reference and an FDE; sections without \<^verbatim>\<open>SHF_ALLOC\<close>; a chain of text sections
  longer than the recursion bound of \<open>visit\<close>; a section that only \<^verbatim>\<open>rels[0]\<close> of the FDE
  refers to; sections kept by a CIE, by an exported symbol and by the entry symbol; and two
  sections that are not alive on entry. \<open>gc_eval\<close> are the equations that evaluate
  the collector on it.
\<close>

lemmas gc_eval = deref_def mark_section_def set_is_visited_def set_frag_alive_def
  visit_unfold rel_step_def visit_rel_fragments_def visit_fde_rel_def visit_fdes_def
  mark_def enqueue_section_def enqueue_symbol_def intern_def collect_section_def
  collect_sections_def collect_exported_def collect_cies_def collect_root_set_def
  kill_def sweep_section_def sweep_def mark_nonalloc_fragments_def gc_sections_def
  is_init_fini_def SHF_ALLOC_def SHT_NOTE_def SHT_INIT_ARRAY_def SHT_FINI_ARRAY_def
  SHT_PREINIT_ARRAY_def Let_def

definition ex_sym :: "isec_ptr \<Rightarrow> Symbol" where
  "ex_sym t = \<lparr>sym_file = Some 0, input_section = Some t, frag = None, is_exported = False\<rparr>"

definition ex_frag_sym :: "frag_ptr \<Rightarrow> Symbol" where
  "ex_frag_sym fr = \<lparr>sym_file = Some 0, input_section = None, frag = Some fr, is_exported = False\<rparr>"

definition ex_isec :: "64 word \<Rightarrow> 32 word \<Rightarrow> string \<Rightarrow> nat list \<Rightarrow> bool \<Rightarrow> InputSection" where
  "ex_isec fl ty nm rs al =
     \<lparr>isec_file = 0, shdr = \<lparr>sh_type = ty, sh_flags = fl\<rparr>, name = nm,
      rels = map (\<lambda>i. \<lparr>r_sym = i\<rparr>) rs, rel_fragments = [], fdes = [],
      is_alive = al, is_visited = False\<rparr>"

definition ex_isecs :: "InputSection list" where
  "ex_isecs =
     [(ex_isec 3 14 ''.init_array'' [1, 4, 5, 16] True)
        \<lparr>rel_fragments := [\<lparr>ref_frag = 1\<rparr>],
         fdes := [\<lparr>fde_rels = [\<lparr>sym = ex_sym 11\<rparr>, \<lparr>sym = ex_sym 6\<rparr>]\<rparr>]\<rparr>,
      ex_isec 0 1 ''.debug_info'' [2] True,
      ex_isec 6 1 ''.text.x'' [] True,
      ex_isec 0 1 ''.comment'' [] True,
      ex_isec 6 1 ''.text.t'' [7] True,
      ex_isec 6 1 ''.text.d'' [] False,
      ex_isec 2 1 ''.gcc_except_table'' [] True,
      ex_isec 6 1 ''.text.a'' [8] True,
      ex_isec 6 1 ''.text.b'' [9] True,
      ex_isec 6 1 ''.text.c'' [10] True,
      ex_isec 6 1 ''.text.e'' [4] True,
      ex_isec 6 1 ''.text.f'' [] True,
      ex_isec 6 1 ''.text.personality'' [] True,
      ex_isec 6 1 ''.text.exported'' [] True,
      ex_isec 6 1 ''.text.start'' [] True,
      ex_isec 0 1 ''.debug_old'' [] False]"

definition ex_files :: "ObjectFile list" where
  "ex_files =
     [\<lparr>sections = [None, Some 0, Some 1, Some 2, Some 3, Some 4, Some 5, Some 6, Some 7,
                   Some 8, Some 9, Some 10, Some 11, Some 12, Some 13, Some 14, Some 15],
       symbols = map ex_sym [0, 1, 2, 3, 4, 5, 6, 7, 8, 9, 10, 11, 12] @
                 [(ex_sym 13)\<lparr>is_exported := True\<rparr>, ex_sym 14,
                  (ex_frag_sym 2)\<lparr>is_exported := True\<rparr>, ex_frag_sym 0],
       fragments = [0, 1, 2, 3],
       cies = [\<lparr>cie_rels = [\<lparr>sym = ex_sym 12\<rparr>]\<rparr>]\<rparr>]"

definition ex_frags :: "SectionFragment list" where
  "ex_frags =
     [\<lparr>output_section_shdr = \<lparr>sh_type = 1, sh_flags = 2\<rparr>, frag_is_alive = False\<rparr>,
      \<lparr>output_section_shdr = \<lparr>sh_type = 1, sh_flags = 2\<rparr>, frag_is_alive = False\<rparr>,
      \<lparr>output_section_shdr = \<lparr>sh_type = 1, sh_flags = 2\<rparr>, frag_is_alive = False\<rparr>,
      \<lparr>output_section_shdr = \<lparr>sh_type = 1, sh_flags = 0\<rparr>, frag_is_alive = False\<rparr>,
      \<lparr>output_section_shdr = \<lparr>sh_type = 1, sh_flags = 2\<rparr>, frag_is_alive = False\<rparr>]"

definition ex_heap :: heap where
  "ex_heap = \<lparr>isecs = ex_isecs, frags = ex_frags, files = ex_files, counter = 0, out = []\<rparr>"

definition ex_ctx :: Context where
  "ex_ctx = \<lparr>objs = [0], arg_entry = ''_start'', arg_undefined = [''missing''],
     arg_print_gc_sections = True,
     symbol_table = (\<lambda>key. if key = ''_start'' then Some (ex_sym 14) else None)\<rparr>"

lemmas ex_defs = ex_heap_def ex_ctx_def ex_isecs_def ex_files_def ex_frags_def ex_isec_def
  ex_sym_def ex_frag_sym_def

text \<open>
  The heaps between the phases: the flags \<^verbatim>\<open>(is_alive, is_visited)\<close> of the sections, the
  flags of the fragments, the counter and the diagnostic lines.
\<close>

definition ex_state :: "(bool \<times> bool) list \<Rightarrow> bool list \<Rightarrow> nat \<Rightarrow> diag list \<Rightarrow> heap" where
  "ex_state sec_flags frag_flags c ds =
     \<lparr>isecs = map (\<lambda>(s, a, v). s\<lparr>is_alive := a, is_visited := v\<rparr>) (zip ex_isecs sec_flags),
      frags = map (\<lambda>(f, a). f\<lparr>frag_is_alive := a\<rparr>) (zip ex_frags frag_flags),
      files = ex_files, counter = c, out = ds\<rparr>"

definition ex_premarked :: heap where
  "ex_premarked =
     ex_state
       [(True, False), (True, False), (True, False), (True, False), (True, False),
        (False, False), (True, False), (True, False), (True, False), (True, False),
        (True, False), (True, False), (True, False), (True, False), (True, False),
        (False, False)]
       [False, False, False, True, False] 0 []"

definition ex_collected :: heap where
  "ex_collected =
     ex_state
       [(True, True), (True, True), (True, False), (True, True), (True, False),
        (False, False), (True, False), (True, False), (True, False), (True, False),
        (True, False), (True, False), (True, True), (True, True), (True, True),
        (False, True)]
       [False, False, True, True, False] 0 []"

definition ex_marked :: heap where
  "ex_marked =
     ex_state
       [(True, True), (True, True), (True, False), (True, True), (True, True),
        (False, False), (True, True), (True, True), (True, True), (True, True),
        (True, True), (True, False), (True, True), (True, True), (True, True),
        (False, True)]
       [True, True, True, True, False] 0 []"

definition ex_final :: heap where
  "ex_final =
     ex_state
       [(True, True), (True, True), (False, False), (True, True), (True, True),
        (False, False), (True, True), (True, True), (True, True), (True, True),
        (True, True), (False, False), (True, True), (True, True), (True, True),
        (False, True)]
       [True, True, True, True, False] 2
       [RemovingUnusedSection 2, RemovingUnusedSection 11]"

lemmas ex_states = ex_state_def ex_premarked_def ex_collected_def ex_marked_def ex_final_def

lemma ex_mark_nonalloc_fragments: "mark_nonalloc_fragments ex_ctx ex_heap = Some ex_premarked"
  by (simp add: gc_eval ex_defs ex_states)

lemma ex_collect_root_set:
  "collect_root_set ex_ctx ex_premarked = Some (ex_collected, [0, 13, 14, 12])"
  by (simp add: gc_eval ex_defs ex_states)

lemma ex_mark: "mark [0, 13, 14, 12] ex_collected = Some ex_marked"
  by (simp add: gc_eval ex_defs ex_states)

lemma ex_sweep: "sweep ex_ctx ex_marked = Some ex_final"
  by (simp add: gc_eval ex_defs ex_states)

lemma ex_gc_sections: "gc_sections ex_ctx ex_heap = Some ex_final"
  by (simp add: gc_sections_def ex_mark_nonalloc_fragments ex_collect_root_set ex_mark ex_sweep)

lemma ex_ctx_sections:
  "ctx_sections ex_ctx ex_heap = [0, 1, 2, 3, 4, 5, 6, 7, 8, 9, 10, 11, 12, 13, 14, 15]"
  "ctx_sections ex_ctx ex_marked = [0, 1, 2, 3, 4, 5, 6, 7, 8, 9, 10, 11, 12, 13, 14, 15]"
  by (simp_all add: ctx_sections_def file_sections_def deref_def ex_defs ex_states)

lemma ex_wf_input: "wf_input ex_ctx ex_heap"
  by (simp add: wf_input_def valid_files_def valid_names_def valid_sections_def valid_file_def
      valid_section_def valid_symbol_def valid_isec_ref_def rel_symbol_def deref_def intern_def
      ex_defs)

lemmas gc_log_eval = mark_section_log_def visit_fde_rel_log_def visit_fdes_log_def
  visit_log_unfold rel_step_log_def mark_log_def enqueue_section_log_def enqueue_symbol_log_def
  collect_section_log_def collect_sections_log_def collect_exported_log_def
  collect_cies_log_def collect_root_set_log_def

lemma ex_collect_root_set_log:
  "collect_root_set_log ex_ctx (ex_premarked, []) =
     Some ((ex_collected, [0, 13, 14, 12]), [0, 13, 14, 12])"
  by (simp add: gc_log_eval gc_eval ex_defs ex_states)

lemma ex_mark_log:
  "mark_log [0, 13, 14, 12] (ex_collected, [0, 13, 14, 12]) =
     Some (ex_marked, [0, 13, 14, 12, 6, 4, 7, 8, 9, 10])"
  by (simp add: gc_log_eval gc_eval ex_defs ex_states)

lemma ex_gc_sections_log:
  "gc_sections_log ex_ctx ex_heap = Some (ex_final, [0, 13, 14, 12, 6, 4, 7, 8, 9, 10])"
  by (simp add: gc_sections_log_def ex_mark_nonalloc_fragments ex_collect_root_set_log
      ex_mark_log ex_sweep)

lemma ex_wf_premarked: "wf_input ex_ctx ex_premarked"
  using ex_wf_input
    wf_input_cong [OF heap_ext_same_graph [OF mark_nonalloc_fragments_ext
        [OF ex_mark_nonalloc_fragments]], of ex_ctx]
  by simp

lemma ex_wf_collected: "wf_input ex_ctx ex_collected"
  using ex_wf_premarked
    wf_input_cong [OF collect_ext_same_graph [OF collect_root_set_ext [OF ex_collect_root_set]],
      of ex_ctx]
  by simp

definition ex_fragment_marked :: heap where
  "ex_fragment_marked =
     ex_state
       [(True, True), (True, True), (True, False), (True, True), (True, False),
        (False, False), (True, False), (True, False), (True, False), (True, False),
        (True, False), (True, False), (True, True), (True, True), (True, True),
        (False, True)]
       [True, False, True, True, False] 0 []"

definition ex_root_visited :: heap where
  "ex_root_visited =
     ex_state
       [(True, True), (True, True), (True, False), (True, True), (True, True),
        (False, False), (True, True), (True, True), (True, True), (True, True),
        (True, False), (True, False), (True, True), (True, True), (True, True),
        (False, True)]
       [True, True, True, True, False] 0 []"

lemma ex_visit_fdes:
  "visit_fdes (fdes (isecs ex_collected ! 0)) (ex_collected, []) =
     Some (set_is_visited 6 ex_collected, [6])"
  by (simp add: gc_eval ex_defs ex_states)

lemma ex_rel_step:
  "rel_step 3 0 (isecs ex_collected ! 0) \<lparr>r_sym = 16\<rparr> (ex_collected, []) =
     Some (ex_fragment_marked, [])"
  by (simp add: gc_eval ex_defs ex_states ex_fragment_marked_def)

lemma ex_visit: "visit 3 0 0 (ex_collected, []) = Some (ex_root_visited, [6, 9])"
  by (simp add: gc_eval ex_defs ex_states ex_root_visited_def)

lemma ex_visited_empty: "visited ex_heap = {}"
  by (auto simp: visited_def ex_defs nth_Cons split: nat.splits)

lemma ex_edges:
  "1 \<in> set (section_edges ex_heap 0)" "2 \<in> set (section_edges ex_heap 1)"
  by (simp_all add: section_edges_def fde_targets_def reloc_section_def rel_symbol_def
      deref_def ex_defs)

lemma ex_no_edge_to_comment: "3 \<notin> set (section_edges ex_heap a)"
proof (cases "a < 16")
  case True
  then have "a \<in> {0, 1, 2, 3, 4, 5, 6, 7, 8, 9, 10, 11, 12, 13, 14, 15}"
    by (simp only: insert_iff empty_iff) arith
  then show ?thesis
    by (auto simp: section_edges_def fde_targets_def reloc_section_def rel_symbol_def
        deref_def ex_defs)
next
  case False
  then show ?thesis by (simp add: section_edges_def deref_def ex_defs)
qed

section \<open>The phases of \<^verbatim>\<open>gc_sections\<close> and the claims about them\<close>

lemma gc_sections_SomeE:
  assumes "gc_sections ctx h = Some h'"
  obtains h0 h1 roots h2 where "mark_nonalloc_fragments ctx h = Some h0"
    and "collect_root_set ctx h0 = Some (h1, roots)"
    and "mark roots h1 = Some h2" and "sweep ctx h2 = Some h'"
  using assms by (auto simp: gc_sections_def split: option.splits)

lemma gc_sections_flags_mono:
  assumes "mark_nonalloc_fragments ctx h = Some h0"
    and "collect_root_set ctx h0 = Some (h1, roots)"
    and "mark roots h1 = Some h2"
  shows "flags_mono h h0" and "flags_mono h0 h1" and "flags_mono h1 h2" and "flags_mono h h2"
proof -
  show 0: "flags_mono h h0"
    using mark_nonalloc_fragments_ext [OF assms(1)] by (rule heap_ext_flags_mono)
  show 1: "flags_mono h0 h1"
    using collect_root_set_ext [OF assms(2)] by (simp add: collect_ext_def)
  show 2: "flags_mono h1 h2"
    using mark_loop_ext [OF assms(3) [unfolded mark_def]] by (rule heap_ext_flags_mono)
  show "flags_mono h h2"
    using 0 1 2 flags_mono_trans by blast
qed

lemma same_graph_isec_eq:
  assumes "same_graph h h'" and "p < length (isecs h)"
    and "is_visited (isecs h' ! p) = is_visited (isecs h ! p)"
    and "is_alive (isecs h' ! p) = is_alive (isecs h ! p)"
  shows "isecs h' ! p = isecs h ! p"
  using same_graph_isec [OF assms(1,2)] assms(3,4) by (intro InputSection.equality) simp_all

text \<open>
  C7 (no resurrection): a section whose \<^verbatim>\<open>is_alive\<close> is false on entry to \<open>gc_sections\<close> still has
  \<^verbatim>\<open>is_alive\<close> false when \<open>gc_sections\<close> returns.
\<close>

theorem gc_sections_no_resurrection:
  assumes "gc_sections ctx h = Some h'"
    and "p < length (isecs h)" and "\<not> is_alive (isecs h ! p)"
  shows "p < length (isecs h') \<and> \<not> is_alive (isecs h' ! p)"
proof -
  from assms(1) obtain h0 h1 roots h2 where ph: "mark_nonalloc_fragments ctx h = Some h0"
    "collect_root_set ctx h0 = Some (h1, roots)" "mark roots h1 = Some h2"
    and sw: "sweep ctx h2 = Some h'"
    by (rule gc_sections_SomeE)
  have m: "flags_mono h h2" using ph by (rule gc_sections_flags_mono)
  have "same_graph h h'"
    using m sweep_effect(1) [OF sw] same_graph_trans unfolding flags_mono_def by blast
  then have len: "length (isecs h') = length (isecs h)" by (rule same_graph_length)
  have "alive h' \<subseteq> alive h"
    using m sweep_effect(4) [OF sw] unfolding flags_mono_def by auto
  moreover have "p \<notin> alive h" using assms(3) by (simp add: alive_def)
  ultimately have "p \<notin> alive h'" by blast
  then show ?thesis using assms(2) len by (simp add: alive_def)
qed

theorem gc_sections_no_resurrection_witness:
  "gc_sections ex_ctx ex_heap = Some ex_final \<and> 5 < length (isecs ex_heap) \<and>
   \<not> is_alive (isecs ex_heap ! 5) \<and> 5 < length (isecs ex_final) \<and>
   \<not> is_alive (isecs ex_final ! 5)"
proof -
  have a: "5 < length (isecs ex_heap)" and b: "\<not> is_alive (isecs ex_heap ! 5)"
    by (simp_all add: ex_defs)
  show ?thesis
    using gc_sections_no_resurrection [OF ex_gc_sections a b] ex_gc_sections a b by simp
qed

text \<open>
  C2 (sweep): when the files of the context and the sections they list exist, \<open>sweep\<close>
  returns, and for the sections of the input it turns \<^verbatim>\<open>is_alive\<close> from true to false
  exactly for those that are alive and not visited; the counter grows by the number of
  sections killed; the diagnostic stream gets one line for each of them when
  \<^verbatim>\<open>print_gc_sections\<close> is set and nothing otherwise; a section that is not alive, and
  every other part of the heap, is left as it was.
\<close>

theorem sweep_kills_alive_unvisited:
  assumes "\<forall>fl\<in>set (objs ctx). fl < length (files h)"
    and "\<forall>p\<in>set (ctx_sections ctx h). p < length (isecs h)"
  shows "\<exists>h'. sweep ctx h = Some h' \<and>
         (\<forall>p\<in>set (ctx_sections ctx h).
            (p \<in> alive h \<and> p \<notin> alive h') = (p \<in> alive h \<and> p \<notin> visited h)) \<and>
         (\<exists>ks. distinct ks \<and>
            set ks = {p \<in> set (ctx_sections ctx h). p \<in> alive h \<and> p \<notin> visited h} \<and>
            counter h' = counter h + length ks \<and>
            out h' = out h @ (if arg_print_gc_sections ctx
                              then map RemovingUnusedSection ks else [])) \<and>
         (\<forall>p. p < length (isecs h) \<and>
            (\<not> is_alive (isecs h ! p) \<or> p \<notin> set (ctx_sections ctx h))
            \<longrightarrow> isecs h' ! p = isecs h ! p) \<and>
         length (isecs h') = length (isecs h) \<and> visited h' = visited h \<and>
         frags h' = frags h \<and> files h' = files h"
proof -
  from assms obtain h' where sw: "sweep ctx h = Some h'"
    using sweep_total by blast
  note e = sweep_effect [OF sw]
  let ?L = "set (ctx_sections ctx h)"
  have len: "length (isecs h') = length (isecs h)"
    using e(1) by (rule same_graph_length)
  have 1: "\<forall>p\<in>?L. (p \<in> alive h \<and> p \<notin> alive h') = (p \<in> alive h \<and> p \<notin> visited h)"
    unfolding e(4) by auto
  have "{p \<in> ?L. p \<in> alive h \<and> p \<notin> visited h} = (alive h \<inter> ?L) - visited h" by auto
  then have 2: "\<exists>ks. distinct ks \<and>
            set ks = {p \<in> ?L. p \<in> alive h \<and> p \<notin> visited h} \<and>
            counter h' = counter h + length ks \<and>
            out h' = out h @ (if arg_print_gc_sections ctx
                              then map RemovingUnusedSection ks else [])"
    using e(5) by simp
  have 3: "isecs h' ! p = isecs h ! p"
    if p: "p < length (isecs h)" and c: "\<not> is_alive (isecs h ! p) \<or> p \<notin> ?L" for p
  proof -
    have v: "is_visited (isecs h' ! p) = is_visited (isecs h ! p)"
      using e(2) p len by (auto simp: visited_def)
    have "p \<in> alive h' \<longleftrightarrow> p \<in> alive h"
      unfolding e(4) using c p by (auto simp: alive_def)
    then have a: "is_alive (isecs h' ! p) = is_alive (isecs h ! p)"
      using p len by (simp add: alive_def)
    show ?thesis using e(1) p v a by (rule same_graph_isec_eq)
  qed
  have "(\<forall>p\<in>?L. (p \<in> alive h \<and> p \<notin> alive h') = (p \<in> alive h \<and> p \<notin> visited h)) \<and>
         (\<exists>ks. distinct ks \<and>
            set ks = {p \<in> ?L. p \<in> alive h \<and> p \<notin> visited h} \<and>
            counter h' = counter h + length ks \<and>
            out h' = out h @ (if arg_print_gc_sections ctx
                              then map RemovingUnusedSection ks else [])) \<and>
         (\<forall>p. p < length (isecs h) \<and>
            (\<not> is_alive (isecs h ! p) \<or> p \<notin> ?L)
            \<longrightarrow> isecs h' ! p = isecs h ! p) \<and>
         length (isecs h') = length (isecs h) \<and> visited h' = visited h \<and>
         frags h' = frags h \<and> files h' = files h"
    using 1 2 3 len e(2,3) same_graph_length(3) [OF e(1)] by blast
  then show ?thesis using sw by blast
qed

theorem sweep_kills_alive_unvisited_witness:
  "sweep ex_ctx ex_marked = Some ex_final \<and>
   0 < length (files ex_marked) \<and> objs ex_ctx = [0] \<and>
   length (isecs ex_marked) = 16 \<and>
   ctx_sections ex_ctx ex_marked = [0, 1, 2, 3, 4, 5, 6, 7, 8, 9, 10, 11, 12, 13, 14, 15] \<and>
   2 \<in> alive ex_marked \<and> 2 \<notin> visited ex_marked \<and> 2 \<notin> alive ex_final \<and>
   4 \<in> alive ex_marked \<and> 4 \<in> visited ex_marked \<and> 4 \<in> alive ex_final \<and>
   \<not> is_alive (isecs ex_marked ! 5) \<and> isecs ex_final ! 5 = isecs ex_marked ! 5 \<and>
   counter ex_final = counter ex_marked + 2 \<and>
   out ex_final = out ex_marked @ [RemovingUnusedSection 2, RemovingUnusedSection 11]"
proof -
  have o: "objs ex_ctx = [0]" and lf: "0 < length (files ex_marked)"
    and li: "length (isecs ex_marked) = 16"
    by (simp_all add: ex_states ex_defs)
  have a: "\<forall>fl\<in>set (objs ex_ctx). fl < length (files ex_marked)"
    using o lf by simp
  have b: "\<forall>p\<in>set (ctx_sections ex_ctx ex_marked). p < length (isecs ex_marked)"
    unfolding ex_ctx_sections using li by simp
  from sweep_kills_alive_unvisited [OF a b] obtain h' where sw: "sweep ex_ctx ex_marked = Some h'"
    and t: "\<forall>p\<in>set (ctx_sections ex_ctx ex_marked).
            (p \<in> alive ex_marked \<and> p \<notin> alive h') = (p \<in> alive ex_marked \<and> p \<notin> visited ex_marked)"
    and u: "\<forall>p. p < length (isecs ex_marked) \<and>
            (\<not> is_alive (isecs ex_marked ! p) \<or> p \<notin> set (ctx_sections ex_ctx ex_marked))
            \<longrightarrow> isecs h' ! p = isecs ex_marked ! p"
    by blast
  have h': "h' = ex_final" using sw ex_sweep by simp
  have m: "2 \<in> set (ctx_sections ex_ctx ex_marked)" "4 \<in> set (ctx_sections ex_ctx ex_marked)"
    by (simp_all add: ex_ctx_sections)
  have f: "2 \<in> alive ex_marked" "2 \<notin> visited ex_marked"
    "4 \<in> alive ex_marked" "4 \<in> visited ex_marked"
    "5 < length (isecs ex_marked)" "\<not> is_alive (isecs ex_marked ! 5)"
    by (simp_all add: alive_def visited_def ex_states ex_defs)
  have k2: "2 \<notin> alive ex_final"
    using t [THEN bspec, OF m(1)] f(1,2) h' by simp
  have k4: "4 \<in> alive ex_final"
    using t [THEN bspec, OF m(2)] f(3,4) h' by simp
  have e5: "isecs ex_final ! 5 = isecs ex_marked ! 5"
    using u [THEN spec, of 5] f(5,6) h' by simp
  have c: "counter ex_final = counter ex_marked + 2"
    "out ex_final = out ex_marked @ [RemovingUnusedSection 2, RemovingUnusedSection 11]"
    by (simp_all add: ex_states)
  show ?thesis
    using sw h' o lf li ex_ctx_sections(2) f k2 k4 e5 c by simp
qed

text \<open>
  C10: when \<open>gc_sections\<close> returns, every section of the input that is alive is also
  visited.
\<close>

theorem gc_sections_alive_visited:
  assumes "gc_sections ctx h = Some h'"
    and "p \<in> set (ctx_sections ctx h)" and "is_alive (isecs h' ! p)"
  shows "p < length (isecs h') \<and> is_visited (isecs h' ! p)"
proof -
  from assms(1) obtain h0 h1 roots h2 where ph: "mark_nonalloc_fragments ctx h = Some h0"
    "collect_root_set ctx h0 = Some (h1, roots)" "mark roots h1 = Some h2"
    and sw: "sweep ctx h2 = Some h'"
    by (rule gc_sections_SomeE)
  have m: "flags_mono h h2" using ph by (rule gc_sections_flags_mono)
  have "files h2 = files h"
    using m same_graph_length(3) unfolding flags_mono_def by blast
  then have "ctx_sections ctx h2 = ctx_sections ctx h"
    by (rule ctx_sections_cong)
  then have "p \<in> set (ctx_sections ctx h2)"
    using assms(2) by simp
  then have "swept h' p" using sw sweep_swept by blast
  then show ?thesis
    using assms(3) by (simp add: swept_def alive_def visited_def)
qed

theorem gc_sections_alive_visited_witness:
  "gc_sections ex_ctx ex_heap = Some ex_final \<and> 9 \<in> set (ctx_sections ex_ctx ex_heap) \<and>
   is_alive (isecs ex_final ! 9) \<and> 9 < length (isecs ex_final) \<and>
   is_visited (isecs ex_final ! 9)"
proof -
  have a: "9 \<in> set (ctx_sections ex_ctx ex_heap)" by (simp add: ex_ctx_sections)
  have b: "is_alive (isecs ex_final ! 9)" by (simp add: ex_states ex_defs)
  show ?thesis
    using gc_sections_alive_visited [OF ex_gc_sections a b] ex_gc_sections a b by simp
qed

text \<open>
  C4, as amended: a section whose flags lack \<^verbatim>\<open>SHF_ALLOC\<close> and that is alive on entry to
  \<open>gc_sections\<close> is alive when \<open>gc_sections\<close> returns.
\<close>

theorem gc_sections_keeps_nonalloc:
  assumes "gc_sections ctx h = Some h'"
    and "p < length (isecs h)" and "is_alive (isecs h ! p)"
    and "sh_flags (shdr (isecs h ! p)) AND SHF_ALLOC = 0"
  shows "p < length (isecs h') \<and> is_alive (isecs h' ! p)"
proof -
  from assms(1) obtain h0 h1 roots h2 where ph: "mark_nonalloc_fragments ctx h = Some h0"
    "collect_root_set ctx h0 = Some (h1, roots)" "mark roots h1 = Some h2"
    and sw: "sweep ctx h2 = Some h'"
    by (rule gc_sections_SomeE)
  note m = gc_sections_flags_mono [OF ph]
  have sg0: "same_graph h h0" and sg2: "same_graph h0 h2"
    using m(1) m(2) m(3) same_graph_trans unfolding flags_mono_def by blast+
  have len: "length (isecs h') = length (isecs h)"
    using m(4) sweep_effect(1) [OF sw] same_graph_length(1) unfolding flags_mono_def by metis
  have a2: "p \<in> alive h2"
    using m(4) assms(2,3) by (simp add: flags_mono_def alive_def)
  have "p \<in> visited h2" if L: "p \<in> set (ctx_sections ctx h2)"
  proof -
    have "files h2 = files h0" using sg2 by (rule same_graph_length)
    then have "ctx_sections ctx h2 = ctx_sections ctx h0" by (rule ctx_sections_cong)
    moreover have "lacks_alloc h0 p"
      using lacks_alloc_cong [OF sg0 assms(2)] assms(4) by (simp add: lacks_alloc_def)
    ultimately have "p \<in> nonalloc_sections ctx h0"
      using L by (simp add: nonalloc_sections_def)
    then have "p \<in> visited h1"
      using collect_root_set_effect(4) [OF ph(2)] by simp
    then show ?thesis using m(3) by (auto simp: flags_mono_def)
  qed
  then have "p \<in> alive h'"
    unfolding sweep_effect(4) [OF sw] using a2 by blast
  then show ?thesis using len by (simp add: alive_def)
qed

theorem gc_sections_keeps_nonalloc_witness:
  "gc_sections ex_ctx ex_heap = Some ex_final \<and> 3 < length (isecs ex_heap) \<and>
   is_alive (isecs ex_heap ! 3) \<and> sh_flags (shdr (isecs ex_heap ! 3)) AND SHF_ALLOC = 0 \<and>
   3 < length (isecs ex_final) \<and> is_alive (isecs ex_final ! 3)"
proof -
  have a: "3 < length (isecs ex_heap)" "is_alive (isecs ex_heap ! 3)"
    "sh_flags (shdr (isecs ex_heap ! 3)) AND SHF_ALLOC = 0"
    by (simp_all add: ex_defs)
  show ?thesis
    using gc_sections_keeps_nonalloc [OF ex_gc_sections a] ex_gc_sections a by simp
qed

theorem gc_sections_nonalloc_dead_counterexample:
  "gc_sections ex_ctx ex_heap = Some ex_final \<and> 15 \<in> set (ctx_sections ex_ctx ex_heap) \<and>
   sh_flags (shdr (isecs ex_heap ! 15)) AND SHF_ALLOC = 0 \<and>
   sh_flags (shdr (isecs ex_final ! 15)) AND SHF_ALLOC = 0 \<and>
   \<not> is_alive (isecs ex_final ! 15)"
proof -
  have "15 \<in> set (ctx_sections ex_ctx ex_heap)"
    by (simp add: ex_ctx_sections)
  moreover have "sh_flags (shdr (isecs ex_heap ! 15)) AND SHF_ALLOC = 0"
    "sh_flags (shdr (isecs ex_final ! 15)) AND SHF_ALLOC = 0"
    "\<not> is_alive (isecs ex_final ! 15)"
    by (simp_all add: ex_defs ex_states)
  ultimately show ?thesis using ex_gc_sections by simp
qed

text \<open>
  C3 (the mark primitive): on a reference that does not dangle, \<open>mark_section\<close> returns, it
  accepts exactly when the reference is non-null, the section is alive and \<^verbatim>\<open>is_visited\<close>
  was false before the exchange, and it sets \<^verbatim>\<open>is_visited\<close> of a section that is alive.
  On every input without dangling references the collector returns, and the list of the
  sections that \<open>mark_section\<close> accepted during the run, from the first call in
  \<open>collect_root_set\<close> to the last call in \<open>mark\<close>, has no section twice. The vector of
  roots that \<open>collect_root_set\<close> returns has no section twice.
\<close>

theorem mark_section_accepts_once:
  "(valid_isec_ref h isec \<longrightarrow>
      mark_section isec h =
        Some ((\<exists>p. isec = Some p \<and> p \<in> alive h \<and> p \<notin> visited h),
              (case isec of
                 None \<Rightarrow> h
               | Some p \<Rightarrow> if p \<in> alive h then set_is_visited p h else h))) \<and>
   (wf_input ctx g \<longrightarrow>
      (\<exists>g' log. gc_sections_log ctx g = Some (g', log) \<and> gc_sections ctx g = Some g' \<and>
         distinct log \<and> set log \<subseteq> visited g' - visited g)) \<and>
   (wf_input ctx g \<longrightarrow>
      (\<exists>g' roots. collect_root_set ctx g = Some (g', roots) \<and> distinct roots \<and>
         set roots \<subseteq> visited g' - visited g))"
proof (intro conjI impI)
  assume v: "valid_isec_ref h isec"
  show "mark_section isec h =
        Some ((\<exists>p. isec = Some p \<and> p \<in> alive h \<and> p \<notin> visited h),
              (case isec of
                 None \<Rightarrow> h
               | Some p \<Rightarrow> if p \<in> alive h then set_is_visited p h else h))"
  proof (cases isec)
    case None
    then show ?thesis by (simp add: mark_section_None)
  next
    case (Some p)
    then have "p < length (isecs h)" using v by (simp add: valid_isec_ref_def)
    then show ?thesis using Some by (simp add: mark_section_Some)
  qed
next
  assume w: "wf_input ctx g"
  then obtain g' where g: "gc_sections ctx g = Some g'"
    using gc_sections_total by blast
  then obtain lg where l: "gc_sections_log ctx g = Some (g', lg)"
    using gc_sections_log_erase [of ctx g] by (cases "gc_sections_log ctx g") auto
  show "\<exists>g' log. gc_sections_log ctx g = Some (g', log) \<and> gc_sections ctx g = Some g' \<and>
         distinct log \<and> set log \<subseteq> visited g' - visited g"
    using g l gc_sections_log_distinct [OF l] by blast
next
  assume w: "wf_input ctx g"
  then obtain st where "collect_root_set ctx g = Some st"
    using collect_root_set_total by blast
  then obtain g' roots where c: "collect_root_set ctx g = Some (g', roots)"
    by (cases st) simp
  have "set roots \<subseteq> visited g' - visited g"
    using collect_root_set_ext [OF c] by (simp add: collect_ext_def)
  then show "\<exists>g' roots. collect_root_set ctx g = Some (g', roots) \<and> distinct roots \<and>
         set roots \<subseteq> visited g' - visited g"
    using c collect_root_set_effect(2) [OF c] by blast
qed

theorem mark_section_accepts_once_witness:
  "valid_isec_ref ex_collected (Some 4) \<and> 4 \<in> alive ex_collected \<and>
   4 \<notin> visited ex_collected \<and>
   mark_section (Some 4) ex_collected = Some (True, set_is_visited 4 ex_collected) \<and>
   valid_isec_ref ex_collected (Some 0) \<and> 0 \<in> alive ex_collected \<and>
   0 \<in> visited ex_collected \<and>
   mark_section (Some 0) ex_collected = Some (False, set_is_visited 0 ex_collected) \<and>
   valid_isec_ref ex_collected (Some 5) \<and> 5 \<notin> alive ex_collected \<and>
   mark_section (Some 5) ex_collected = Some (False, ex_collected) \<and>
   valid_isec_ref ex_collected None \<and>
   mark_section None ex_collected = Some (False, ex_collected) \<and>
   wf_input ex_ctx ex_heap \<and>
   gc_sections_log ex_ctx ex_heap = Some (ex_final, [0, 13, 14, 12, 6, 4, 7, 8, 9, 10]) \<and>
   gc_sections ex_ctx ex_heap = Some ex_final \<and>
   distinct [0, 13, 14, 12, 6, 4, 7, 8, 9, 10 :: nat] \<and>
   wf_input ex_ctx ex_premarked \<and>
   collect_root_set ex_ctx ex_premarked = Some (ex_collected, [0, 13, 14, 12]) \<and>
   distinct [0, 13, 14, 12 :: nat]"
proof -
  have v: "valid_isec_ref ex_collected (Some 4)" "valid_isec_ref ex_collected (Some 0)"
    "valid_isec_ref ex_collected (Some 5)" "valid_isec_ref ex_collected None"
    by (simp_all add: valid_isec_ref_def ex_states ex_defs)
  have f: "4 \<in> alive ex_collected" "4 \<notin> visited ex_collected"
    "0 \<in> alive ex_collected" "0 \<in> visited ex_collected" "5 \<notin> alive ex_collected"
    by (simp_all add: alive_def visited_def ex_states ex_defs)
  note t = mark_section_accepts_once [where h = ex_collected, THEN conjunct1, rule_format]
  have m4: "mark_section (Some 4) ex_collected = Some (True, set_is_visited 4 ex_collected)"
    using t [OF v(1)] f by simp
  have m0: "mark_section (Some 0) ex_collected = Some (False, set_is_visited 0 ex_collected)"
    using t [OF v(2)] f by simp
  have m5: "mark_section (Some 5) ex_collected = Some (False, ex_collected)"
    using t [OF v(3)] f by simp
  have mn: "mark_section None ex_collected = Some (False, ex_collected)"
    using t [OF v(4)] by simp
  from mark_section_accepts_once [where ctx = ex_ctx and g = ex_heap,
      THEN conjunct2, THEN conjunct1, rule_format, OF ex_wf_input]
  obtain g' lg where "gc_sections_log ex_ctx ex_heap = Some (g', lg)" and "distinct lg"
    by blast
  then have d: "distinct [0, 13, 14, 12, 6, 4, 7, 8, 9, 10 :: nat]"
    using ex_gc_sections_log by simp
  from mark_section_accepts_once [where ctx = ex_ctx and g = ex_premarked,
      THEN conjunct2, THEN conjunct2, rule_format, OF ex_wf_premarked]
  obtain g1 roots where "collect_root_set ex_ctx ex_premarked = Some (g1, roots)"
    and "distinct roots"
    by blast
  then have r: "distinct [0, 13, 14, 12 :: nat]"
    using ex_collect_root_set by simp
  show ?thesis
    using v f m4 m0 m5 mn ex_wf_input ex_gc_sections_log ex_gc_sections d ex_wf_premarked
      ex_collect_root_set r
    by simp
qed

text \<open>
  C9 (the recursion bound): when no reference of a section dangles and the sections to
  start from have \<^verbatim>\<open>is_visited\<close> set, as the roots that \<open>collect_root_set\<close> returns have,
  \<open>mark\<close> with the bound 3 of the source and the pure queue \<open>mark_queue\<close> both return, and
  they return the same heap: the same visited sections and the same alive fragments. So
  does the marker with any other bound.
\<close>

theorem mark_bound_is_performance_knob:
  assumes "valid_sections h" and "set roots \<subseteq> visited h"
  shows "\<exists>h'. mark roots h = Some h' \<and>
           (\<exists>q. mark_queue roots h = Some q \<and> visited q = visited h' \<and>
              alive_frags q = alive_frags h' \<and> q = h') \<and>
           (\<forall>lim. mark_loop lim roots h = Some h')"
proof -
  from assms obtain h' where m: "mark_loop 3 roots h = Some h'"
    using mark_loop_total by blast
  have any: "mark_loop lim roots h = Some h'" for lim
  proof -
    from assms obtain b where b: "mark_loop lim roots h = Some b"
      using mark_loop_total by blast
    then show ?thesis using mark_loop_bound [OF m b] by simp
  qed
  have "mark_queue roots h = Some h'"
    using any [of 0] by (simp add: mark_queue_eq)
  then show ?thesis using m any by (simp add: mark_def)
qed

theorem mark_bound_is_performance_knob_witness:
  "valid_sections ex_collected \<and> set [0, 13, 14, 12] \<subseteq> visited ex_collected \<and>
   mark [0, 13, 14, 12] ex_collected = Some ex_marked \<and>
   mark_queue [0, 13, 14, 12] ex_collected = Some ex_marked \<and>
   mark_loop 1 [0, 13, 14, 12] ex_collected = Some ex_marked"
proof -
  have v: "valid_sections ex_collected"
    using ex_wf_collected by (simp add: wf_input_def)
  have r: "set [0, 13, 14, 12] \<subseteq> visited ex_collected"
    by (simp add: visited_def ex_states ex_defs)
  from mark_bound_is_performance_knob [OF v r] obtain h' where
    "mark [0, 13, 14, 12] ex_collected = Some h'"
    and "mark_queue [0, 13, 14, 12] ex_collected = Some h'"
    and "mark_loop 1 [0, 13, 14, 12] ex_collected = Some h'"
    by blast
  then show ?thesis using v r ex_mark by simp
qed

text \<open>
  C5 (FDE edges): when every FDE has a first relocation and no target of the relocations
  \<^verbatim>\<open>rels[1..]\<close> dangles, the loop of \<open>visit\<close> over the FDEs of a section returns, and it
  marks the targets of the relocations \<^verbatim>\<open>rels[1..]\<close> of each FDE and nothing else: the flag
  \<^verbatim>\<open>is_visited\<close> is set for the targets that are alive, the feeder gets those that were
  not visited, and no other flag changes. The target of \<^verbatim>\<open>rels[0]\<close> is not marked, unless
  it is also one of the targets of \<^verbatim>\<open>rels[1..]\<close>.
\<close>

theorem visit_fdes_marks_rels_from_1:
  assumes "\<forall>fde\<in>set fs. fde_rels fde \<noteq> [] \<and>
             (\<forall>rel\<in>set (tl (fde_rels fde)). valid_isec_ref h (input_section (sym rel)))"
  shows "\<exists>h' feeder'. visit_fdes fs (h, feeder) = Some (h', feeder') \<and>
         visited h' = visited h \<union> ((\<Union>fde\<in>set fs. set (fde_targets fde)) \<inter> alive h) \<and>
         (\<exists>new. feeder' = feeder @ new \<and> distinct new \<and>
            set new = ((\<Union>fde\<in>set fs. set (fde_targets fde)) \<inter> alive h) - visited h) \<and>
         alive h' = alive h \<and> frags h' = frags h \<and>
         (\<forall>fde\<in>set fs. \<exists>rel0 rest. fde_rels fde = rel0 # rest \<and>
            set (fde_targets fde) = {t. \<exists>rel\<in>set rest. input_section (sym rel) = Some t} \<and>
            (\<forall>t. input_section (sym rel0) = Some t \<and>
                 t \<notin> (\<Union>fde\<in>set fs. set (fde_targets fde))
                 \<longrightarrow> (t \<in> visited h') = (t \<in> visited h)))"
proof -
  from assms obtain st' where "visit_fdes fs (h, feeder) = Some st'"
    using visit_fdes_total [of fs "(h, feeder)"] by auto
  then obtain h' feeder' where v: "visit_fdes fs (h, feeder) = Some (h', feeder')"
    by (cases st') simp
  note t = visit_fdes_targets [OF v]
  show ?thesis
    by (rule exI [of _ h'], rule exI [of _ feeder'], rule conjI, rule v, rule t)
qed

theorem visit_fdes_marks_rels_from_1_witness:
  "fdes (isecs ex_collected ! 0) = [\<lparr>fde_rels = [\<lparr>sym = ex_sym 11\<rparr>, \<lparr>sym = ex_sym 6\<rparr>]\<rparr>] \<and>
   valid_isec_ref ex_collected (input_section (sym \<lparr>sym = ex_sym 6\<rparr>)) \<and>
   visit_fdes (fdes (isecs ex_collected ! 0)) (ex_collected, []) =
     Some (set_is_visited 6 ex_collected, [6]) \<and>
   input_section (sym \<lparr>sym = ex_sym 11\<rparr>) = Some 11 \<and>
   fde_targets \<lparr>fde_rels = [\<lparr>sym = ex_sym 11\<rparr>, \<lparr>sym = ex_sym 6\<rparr>]\<rparr> = [6] \<and>
   11 \<in> alive ex_collected \<and> 11 \<notin> visited ex_collected \<and>
   11 \<notin> visited (set_is_visited 6 ex_collected) \<and>
   6 \<in> visited (set_is_visited 6 ex_collected) \<and>
   gc_sections ex_ctx ex_heap = Some ex_final \<and> 11 \<in> alive ex_heap \<and> 11 \<notin> alive ex_final"
proof -
  let ?fde = "\<lparr>fde_rels = [\<lparr>sym = ex_sym 11\<rparr>, \<lparr>sym = ex_sym 6\<rparr>]\<rparr>"
  have fs: "fdes (isecs ex_collected ! 0) = [?fde]"
    by (simp add: ex_defs ex_states)
  have facts: "valid_isec_ref ex_collected (input_section (sym \<lparr>sym = ex_sym 6\<rparr>))"
    "input_section (sym \<lparr>sym = ex_sym 11\<rparr>) = Some 11"
    "fde_targets ?fde = [6]"
    "11 \<in> alive ex_collected" "11 \<notin> visited ex_collected" "6 \<in> alive ex_collected"
    "11 \<in> alive ex_heap" "11 \<notin> alive ex_final"
    by (simp_all add: valid_isec_ref_def fde_targets_def alive_def visited_def ex_defs ex_states)
  have pre: "\<forall>fde\<in>set [?fde]. fde_rels fde \<noteq> [] \<and>
      (\<forall>rel\<in>set (tl (fde_rels fde)). valid_isec_ref ex_collected (input_section (sym rel)))"
    using facts(1) by simp
  from visit_fdes_marks_rels_from_1 [OF pre, of "[]"] obtain h' feeder' where
    run: "visit_fdes [?fde] (ex_collected, []) = Some (h', feeder')"
    and v: "visited h' = visited ex_collected \<union>
       ((\<Union>fde\<in>set [?fde]. set (fde_targets fde)) \<inter> alive ex_collected)"
    by blast
  have h': "h' = set_is_visited 6 ex_collected"
    using run ex_visit_fdes unfolding fs by simp
  have "11 \<notin> visited (set_is_visited 6 ex_collected)"
    and "6 \<in> visited (set_is_visited 6 ex_collected)"
    using v facts(3,5,6) unfolding h' by simp_all
  then show ?thesis using fs ex_visit_fdes facts ex_gc_sections by simp
qed

text \<open>
  C6 (relocation edges): \<open>rel_step\<close> is the body of the loop of \<open>visit\<close> over the
  relocations of the visited section \<open>s\<close>. When the symbol of the relocation exists and no
  reference dangles, it returns. If the symbol has a fragment, the fragment becomes
  alive, and no section flag and not the feeder changes, whatever the symbol's section
  is. Only otherwise it calls \<open>mark_section\<close> on the symbol's section: a section that is
  rejected changes nothing more, and an accepted section is visited, by the recursive
  call below the bound and through the feeder at the bound. A call of \<open>visit\<close> on a
  visited section returns, and every relocation of the section has then been treated so.
\<close>

theorem visit_relocation_edges:
  "(valid_sections h \<and> rel_symbol h s rel = Some sy \<and> valid_symbol h sy \<longrightarrow>
      (\<exists>h' feeder'. rel_step lim depth s rel (h, feeder) = Some (h', feeder') \<and>
         (\<forall>fr. frag sy = Some fr \<longrightarrow>
            isecs h' = isecs h \<and> feeder' = feeder \<and>
            alive_frags h' = insert fr (alive_frags h)) \<and>
         (frag sy = None \<longrightarrow>
            (\<exists>accepted h1. mark_section (input_section sy) h = Some (accepted, h1) \<and>
               (\<not> accepted \<longrightarrow> h' = h1 \<and> feeder' = feeder) \<and>
               (accepted \<longrightarrow>
                  (\<exists>t. input_section sy = Some t \<and> t \<in> visited h' \<and>
                     (if depth < lim
                      then visit lim t (depth + 1) (h1, feeder) = Some (h', feeder')
                      else h' = h1 \<and> feeder' = feeder @ [t]))))))) \<and>
   (valid_sections g \<and> x \<in> visited g \<longrightarrow>
      (\<exists>g' fd'. visit lim x depth (g, fd) = Some (g', fd') \<and>
         (\<forall>r\<in>set (rels (isecs g ! x)).
            \<exists>sy. rel_symbol g (isecs g ! x) r = Some sy \<and>
              (\<forall>fr. frag sy = Some fr \<longrightarrow> fr \<in> alive_frags g') \<and>
              (frag sy = None \<longrightarrow>
                 (\<forall>t. input_section sy = Some t \<and> t \<in> alive g \<longrightarrow> t \<in> visited g')))))"
proof (intro conjI impI)
  assume a: "valid_sections h \<and> rel_symbol h s rel = Some sy \<and> valid_symbol h sy"
  then obtain u' where "rel_step lim depth s rel (h, feeder) = Some u'"
    using rel_step_total by blast
  then obtain h' feeder' where st: "rel_step lim depth s rel (h, feeder) = Some (h', feeder')"
    by (cases u') simp
  show "\<exists>h' feeder'. rel_step lim depth s rel (h, feeder) = Some (h', feeder') \<and>
         (\<forall>fr. frag sy = Some fr \<longrightarrow>
            isecs h' = isecs h \<and> feeder' = feeder \<and>
            alive_frags h' = insert fr (alive_frags h)) \<and>
         (frag sy = None \<longrightarrow>
            (\<exists>accepted h1. mark_section (input_section sy) h = Some (accepted, h1) \<and>
               (\<not> accepted \<longrightarrow> h' = h1 \<and> feeder' = feeder) \<and>
               (accepted \<longrightarrow>
                  (\<exists>t. input_section sy = Some t \<and> t \<in> visited h' \<and>
                     (if depth < lim
                      then visit lim t (depth + 1) (h1, feeder) = Some (h', feeder')
                      else h' = h1 \<and> feeder' = feeder @ [t])))))"
    using st rel_step_edge [OF st] a by (intro exI [of _ h'] exI [of _ feeder']) auto
next
  assume a: "valid_sections g \<and> x \<in> visited g"
  then obtain st' where "visit lim x depth (g, fd) = Some st'"
    using visit_total by blast
  then obtain g' fd' where v: "visit lim x depth (g, fd) = Some (g', fd')"
    by (cases st') simp
  show "\<exists>g' fd'. visit lim x depth (g, fd) = Some (g', fd') \<and>
         (\<forall>r\<in>set (rels (isecs g ! x)).
            \<exists>sy. rel_symbol g (isecs g ! x) r = Some sy \<and>
              (\<forall>fr. frag sy = Some fr \<longrightarrow> fr \<in> alive_frags g') \<and>
              (frag sy = None \<longrightarrow>
                 (\<forall>t. input_section sy = Some t \<and> t \<in> alive g \<longrightarrow> t \<in> visited g')))"
    using v visit_edges [OF v] by blast
qed

theorem visit_relocation_edges_witness:
  "valid_sections ex_collected \<and>
   rel_symbol ex_collected (isecs ex_collected ! 0) \<lparr>r_sym = 16\<rparr> = Some (ex_frag_sym 0) \<and>
   valid_symbol ex_collected (ex_frag_sym 0) \<and> frag (ex_frag_sym 0) = Some 0 \<and>
   rel_step 3 0 (isecs ex_collected ! 0) \<lparr>r_sym = 16\<rparr> (ex_collected, []) =
     Some (ex_fragment_marked, []) \<and>
   isecs ex_fragment_marked = isecs ex_collected \<and>
   alive_frags ex_fragment_marked = insert 0 (alive_frags ex_collected) \<and>
   0 \<in> visited ex_collected \<and>
   visit 3 0 0 (ex_collected, []) = Some (ex_root_visited, [6, 9]) \<and>
   \<lparr>r_sym = 4\<rparr> \<in> set (rels (isecs ex_collected ! 0)) \<and>
   rel_symbol ex_collected (isecs ex_collected ! 0) \<lparr>r_sym = 4\<rparr> = Some (ex_sym 4) \<and>
   frag (ex_sym 4) = None \<and> input_section (ex_sym 4) = Some 4 \<and>
   4 \<in> alive ex_collected \<and> 4 \<in> visited ex_root_visited"
proof -
  have vs: "valid_sections ex_collected"
    using ex_wf_collected by (simp add: wf_input_def)
  have sy: "rel_symbol ex_collected (isecs ex_collected ! 0) \<lparr>r_sym = 16\<rparr> = Some (ex_frag_sym 0)"
    "rel_symbol ex_collected (isecs ex_collected ! 0) \<lparr>r_sym = 4\<rparr> = Some (ex_sym 4)"
    "frag (ex_frag_sym 0) = Some 0" "frag (ex_sym 4) = None" "input_section (ex_sym 4) = Some 4"
    "\<lparr>r_sym = 4\<rparr> \<in> set (rels (isecs ex_collected ! 0))"
    "4 \<in> alive ex_collected" "0 \<in> visited ex_collected"
    "valid_symbol ex_collected (ex_frag_sym 0)"
    by (simp_all add: rel_symbol_def deref_def alive_def visited_def valid_symbol_def
        ex_defs ex_states)
  from visit_relocation_edges [where lim = 3 and depth = 0 and s = "isecs ex_collected ! 0"
      and rel = "\<lparr>r_sym = 16\<rparr>" and h = ex_collected and feeder = "[]"
      and sy = "ex_frag_sym 0", THEN conjunct1, rule_format, OF conjI [OF vs conjI [OF sy(1,9)]]]
  obtain h' feeder' where
    "rel_step 3 0 (isecs ex_collected ! 0) \<lparr>r_sym = 16\<rparr> (ex_collected, []) = Some (h', feeder')"
    and "\<forall>fr. frag (ex_frag_sym 0) = Some fr \<longrightarrow>
            isecs h' = isecs ex_collected \<and> feeder' = [] \<and>
            alive_frags h' = insert fr (alive_frags ex_collected)"
    by blast
  then have a: "isecs ex_fragment_marked = isecs ex_collected"
    "alive_frags ex_fragment_marked = insert 0 (alive_frags ex_collected)"
    using ex_rel_step sy(3) by auto
  from visit_relocation_edges [where lim = 3 and depth = 0 and x = 0 and g = ex_collected
      and fd = "[]", THEN conjunct2, rule_format, OF conjI [OF vs sy(8)]]
  obtain g' fd' where "visit 3 0 0 (ex_collected, []) = Some (g', fd')"
    and "\<forall>r\<in>set (rels (isecs ex_collected ! 0)).
            \<exists>sy. rel_symbol ex_collected (isecs ex_collected ! 0) r = Some sy \<and>
              (\<forall>fr. frag sy = Some fr \<longrightarrow> fr \<in> alive_frags g') \<and>
              (frag sy = None \<longrightarrow>
                 (\<forall>t. input_section sy = Some t \<and> t \<in> alive ex_collected \<longrightarrow> t \<in> visited g'))"
    by blast
  then have "\<exists>sy. rel_symbol ex_collected (isecs ex_collected ! 0) \<lparr>r_sym = 4\<rparr> = Some sy \<and>
              (frag sy = None \<longrightarrow>
                 (\<forall>t. input_section sy = Some t \<and> t \<in> alive ex_collected
                    \<longrightarrow> t \<in> visited ex_root_visited))"
    using ex_visit sy(6) by auto
  then have b: "4 \<in> visited ex_root_visited"
    using sy(2,4,5,7) by auto
  show ?thesis
    using vs sy ex_rel_step a ex_visit b by simp
qed

text \<open>
  C1, as amended: on an input without dangling references and with no \<^verbatim>\<open>is_visited\<close> flag
  set, \<open>gc_sections\<close> returns, and a section of the input is alive afterwards exactly when
  it was alive on entry and either lacks \<^verbatim>\<open>SHF_ALLOC\<close> or is reached from a root of
  \<open>collect_root_set\<close> along \<open>live_edges\<close>: FDE edges over \<^verbatim>\<open>rels[1..]\<close> and relocation edges
  to sections that are alive and are not sections of the input without \<^verbatim>\<open>SHF_ALLOC\<close>.
\<close>

theorem gc_sections_alive_iff_reachable:
  assumes "wf_input ctx h" and "visited h = {}"
  shows "\<exists>h0 h1 roots h'. mark_nonalloc_fragments ctx h = Some h0 \<and>
           collect_root_set ctx h0 = Some (h1, roots) \<and> gc_sections ctx h = Some h' \<and>
           (\<forall>p\<in>set (ctx_sections ctx h).
              p \<in> alive h' \<longleftrightarrow>
                p \<in> alive h \<and> (lacks_alloc h p \<or> p \<in> (live_edges ctx h)\<^sup>* `` set roots))"
proof -
  from assms(1) obtain h0 h1 roots h2 h' where 0: "mark_nonalloc_fragments ctx h = Some h0"
    and 1: "collect_root_set ctx h0 = Some (h1, roots)" and 2: "mark roots h1 = Some h2"
    and 3: "sweep ctx h2 = Some h'" and g: "gc_sections ctx h = Some h'"
    using gc_sections_total by blast
  note a = gc_sections_alive [OF 0 1 2 3 assms(2)]
  have "\<forall>p\<in>set (ctx_sections ctx h).
              p \<in> alive h' \<longleftrightarrow>
                p \<in> alive h \<and> (lacks_alloc h p \<or> p \<in> (live_edges ctx h)\<^sup>* `` set roots)"
    unfolding a by (auto simp: nonalloc_sections_def)
  then show ?thesis using 0 1 g by blast
qed

theorem gc_sections_alive_iff_reachable_witness:
  "wf_input ex_ctx ex_heap \<and> visited ex_heap = {} \<and>
   mark_nonalloc_fragments ex_ctx ex_heap = Some ex_premarked \<and>
   collect_root_set ex_ctx ex_premarked = Some (ex_collected, [0, 13, 14, 12]) \<and>
   gc_sections ex_ctx ex_heap = Some ex_final \<and>
   7 \<in> set (ctx_sections ex_ctx ex_heap) \<and> 7 \<in> alive ex_final \<and> \<not> lacks_alloc ex_heap 7 \<and>
   7 \<in> (live_edges ex_ctx ex_heap)\<^sup>* `` set [0, 13, 14, 12] \<and>
   2 \<in> set (ctx_sections ex_ctx ex_heap) \<and> 2 \<in> alive ex_heap \<and> 2 \<notin> alive ex_final \<and>
   2 \<notin> (live_edges ex_ctx ex_heap)\<^sup>* `` set [0, 13, 14, 12] \<and>
   3 \<in> set (ctx_sections ex_ctx ex_heap) \<and> 3 \<in> alive ex_heap \<and> lacks_alloc ex_heap 3 \<and>
   3 \<in> alive ex_final"
proof -
  from gc_sections_alive_iff_reachable [OF ex_wf_input ex_visited_empty]
  obtain h0 h1 roots h' where 0: "mark_nonalloc_fragments ex_ctx ex_heap = Some h0"
    and 1: "collect_root_set ex_ctx h0 = Some (h1, roots)"
    and g: "gc_sections ex_ctx ex_heap = Some h'"
    and t: "\<forall>p\<in>set (ctx_sections ex_ctx ex_heap).
              p \<in> alive h' \<longleftrightarrow>
                p \<in> alive ex_heap \<and>
                (lacks_alloc ex_heap p \<or> p \<in> (live_edges ex_ctx ex_heap)\<^sup>* `` set roots)"
    by blast
  have h0: "h0 = ex_premarked" using 0 ex_mark_nonalloc_fragments by simp
  have r: "roots = [0, 13, 14, 12]" using 1 ex_collect_root_set unfolding h0 by simp
  have h': "h' = ex_final" using g ex_gc_sections by simp
  have m: "7 \<in> set (ctx_sections ex_ctx ex_heap)" "2 \<in> set (ctx_sections ex_ctx ex_heap)"
    "3 \<in> set (ctx_sections ex_ctx ex_heap)"
    by (simp_all add: ex_ctx_sections)
  have f: "7 \<in> alive ex_final" "\<not> lacks_alloc ex_heap 7" "2 \<in> alive ex_heap"
    "2 \<notin> alive ex_final" "\<not> lacks_alloc ex_heap 2"
    "3 \<in> alive ex_heap" "lacks_alloc ex_heap 3"
    by (simp_all add: alive_def lacks_alloc_def SHF_ALLOC_def ex_states ex_defs)
  have r7: "7 \<in> (live_edges ex_ctx ex_heap)\<^sup>* `` set [0, 13, 14, 12]"
    using t [THEN bspec, OF m(1)] f(1,2) unfolding h' r by blast
  have r2: "2 \<notin> (live_edges ex_ctx ex_heap)\<^sup>* `` set [0, 13, 14, 12]"
    using t [THEN bspec, OF m(2)] f(3,4,5) unfolding h' r by blast
  have a3: "3 \<in> alive ex_final"
    using t [THEN bspec, OF m(3)] f(6,7) unfolding h' r by blast
  show ?thesis
    using ex_wf_input ex_visited_empty ex_mark_nonalloc_fragments ex_collect_root_set
      ex_gc_sections m f r7 r2 a3
    by simp
qed

theorem gc_sections_reachable_dead_counterexample:
  "gc_sections ex_ctx ex_heap = Some ex_final \<and>
   mark_nonalloc_fragments ex_ctx ex_heap = Some ex_premarked \<and>
   collect_root_set ex_ctx ex_premarked = Some (ex_collected, [0, 13, 14, 12]) \<and>
   1 \<in> set (section_edges ex_heap 0) \<and> 2 \<in> set (section_edges ex_heap 1) \<and>
   2 \<in> spec_reachable ex_heap [0, 13, 14, 12] \<and> 2 \<in> alive ex_heap \<and> 2 \<notin> alive ex_final \<and>
   3 \<in> alive ex_final \<and> 3 \<notin> spec_reachable ex_heap [0, 13, 14, 12]"
proof -
  let ?E = "{(a, b). b \<in> set (section_edges ex_heap a)}"
  have "(0, 1) \<in> ?E" "(1, 2) \<in> ?E" using ex_edges by simp_all
  then have "(0, 2) \<in> ?E\<^sup>*" by (meson r_into_rtrancl rtrancl_trans)
  then have r2: "2 \<in> spec_reachable ex_heap [0, 13, 14, 12]"
    unfolding spec_reachable_def by auto
  have r3: "3 \<notin> spec_reachable ex_heap [0, 13, 14, 12]"
  proof
    assume "3 \<in> spec_reachable ex_heap [0, 13, 14, 12]"
    then obtain r where r: "r \<in> set [0, 13, 14, 12]" and p: "(r, 3) \<in> ?E\<^sup>*"
      unfolding spec_reachable_def by auto
    from p show False
    proof (cases rule: rtranclE)
      case base
      then show False using r by simp
    next
      case (step y)
      then show False using ex_no_edge_to_comment by simp
    qed
  qed
  have f: "2 \<in> alive ex_heap" "2 \<notin> alive ex_final" "3 \<in> alive ex_final"
    by (simp_all add: alive_def ex_states ex_defs)
  show ?thesis
    using ex_gc_sections ex_mark_nonalloc_fragments ex_collect_root_set ex_edges r2 r3 f
    by simp
qed

text \<open>
  C8 (idempotence): on an input without dangling references \<open>gc_sections\<close> returns, and a
  second run on the heap that the first run returns, returns that heap unchanged: no
  \<^verbatim>\<open>is_alive\<close> and no \<^verbatim>\<open>is_visited\<close> flag of a section, no \<^verbatim>\<open>is_alive\<close> flag of a fragment, not
  the counter and not the diagnostic stream differ.
\<close>

theorem gc_sections_idempotent:
  assumes "wf_input ctx h"
  shows "\<exists>h'. gc_sections ctx h = Some h' \<and>
           (\<exists>h''. gc_sections ctx h' = Some h'' \<and> isecs h'' = isecs h' \<and>
              frags h'' = frags h' \<and> counter h'' = counter h' \<and> out h'' = out h' \<and> h'' = h')"
proof -
  from assms obtain h' where g: "gc_sections ctx h = Some h'"
    using gc_sections_total by blast
  have "gc_sections ctx h' = Some h'" using g by (rule gc_sections_again)
  then show ?thesis using g by simp
qed

theorem gc_sections_idempotent_witness:
  "wf_input ex_ctx ex_heap \<and> gc_sections ex_ctx ex_heap = Some ex_final \<and>
   gc_sections ex_ctx ex_final = Some ex_final"
proof -
  from gc_sections_idempotent [OF ex_wf_input] obtain h' where
    "gc_sections ex_ctx ex_heap = Some h'" and "gc_sections ex_ctx h' = Some h'"
    by auto
  then show ?thesis using ex_wf_input ex_gc_sections by simp
qed

end
